(* ===== verification/Prelude.thy ===== *)
theory Prelude
  imports Main "HOL-Library.Word"
begin

text \<open>
  Shared vocabulary of the development: machine integer types, the names of the kernel's
  locks and sleep channels, the outcome type of kernel operations and its combinators
  (sequencing, panics, loops), little-endian access to byte memories, and the generic
  lemmas on lists, options and words that the component theories rely on.
\<close>

unbundle bit_operations_syntax

section \<open>Types\<close>

type_synonym byte = "8 word"
type_synonym u16 = "16 word"
type_synonym u32 = "32 word"
type_synonym u64 = "64 word"
type_synonym addr = "64 word"
type_synonym memory = "addr \<Rightarrow> byte"

text \<open>
  Every spin lock and every sleep lock of the kernel is a C object at a fixed place; the
  model names the object instead of its address. \<open>LkProc i\<close> is the lock of
  \<open>proc[i]\<close>, \<open>LkSleep x\<close> is the inner spin lock of the sleep lock \<open>x\<close>,
  \<open>LkPipe pi\<close> the lock of the pipe whose page is \<open>pi\<close>.
\<close>

datatype sleepid = SlBuf nat | SlInode nat

datatype lockid =
    LkKmem | LkPid | LkWait | LkProc nat | LkTicks | LkBcache | LkSleep sleepid
  | LkLog | LkItable | LkFtable | LkPipe addr | LkCons | LkUart | LkVdisk | LkPr

text \<open>
  A sleep channel is a pointer that is only compared. \<open>ChProc i\<close> is
  \<open>&proc[i]\<close>, \<open>ChSleep x\<close> a sleep lock, \<open>ChNread pi\<close> and
  \<open>ChNwrite pi\<close> are the two counters of a pipe, \<open>ChBuf b\<close> a buffer.
\<close>

datatype chan =
    ChProc nat | ChTicks | ChSleep sleepid | ChLog | ChNread addr | ChNwrite addr
  | ChConsR | ChUartR | ChDiskFree | ChBuf nat

text \<open>Characters and string literals of the C source as bytes.\<close>

abbreviation chr :: "char \<Rightarrow> byte" where
  "chr c \<equiv> of_char c"

definition bytes :: "string \<Rightarrow> byte list" where
  "bytes cs = map of_char cs"

section \<open>Kernel operations\<close>

text \<open>
  A kernel operation maps a state to an outcome. It returns (\<open>Ok\<close>) with a value and
  the new state, or it stops: it panics, parks its thread in \<open>sched()\<close> (sleeping on
  a channel, giving up the CPU, or exiting), spins on a lock that another CPU holds, loops
  forever, or reaches undefined behaviour of C (such as a null dereference). A stopped
  operation keeps the state in which it stopped.
\<close>

datatype stop =
    Panicked string
  | Asleep chan
  | Descheduled
  | Spinning lockid
  | Hung
  | Faulted string

datatype ('s, 'a) kres = Ok 'a 's | Stop stop 's

type_synonym ('s, 'a) kop = "'s \<Rightarrow> ('s, 'a) kres"

definition kret :: "'a \<Rightarrow> ('s, 'a) kop" where
  "kret a = (\<lambda>s. Ok a s)"

definition kstop :: "stop \<Rightarrow> ('s, 'a) kop" where
  "kstop h = (\<lambda>s. Stop h s)"

abbreviation panic :: "string \<Rightarrow> ('s, 'a) kop" where
  "panic msg \<equiv> kstop (Panicked msg)"

definition kbind :: "('s, 'a) kop \<Rightarrow> ('a \<Rightarrow> ('s, 'b) kop) \<Rightarrow> ('s, 'b) kop" where
  "kbind m f = (\<lambda>s. case m s of Ok a t \<Rightarrow> f a t | Stop h t \<Rightarrow> Stop h t)"

abbreviation kseq :: "('s, 'a) kop \<Rightarrow> ('s, 'b) kop \<Rightarrow> ('s, 'b) kop" where
  "kseq m n \<equiv> kbind m (\<lambda>_. n)"

definition kget :: "('s \<Rightarrow> 'a) \<Rightarrow> ('s, 'a) kop" where
  "kget f = (\<lambda>s. Ok (f s) s)"

definition kmod :: "('s \<Rightarrow> 's) \<Rightarrow> ('s, unit) kop" where
  "kmod f = (\<lambda>s. Ok () (f s))"

definition kcheck :: "bool \<Rightarrow> string \<Rightarrow> ('s, unit) kop" where
  "kcheck b msg = (if b then kret () else panic msg)"

definition kwhen :: "bool \<Rightarrow> ('s, unit) kop \<Rightarrow> ('s, unit) kop" where
  "kwhen b m = (if b then m else kret ())"

text \<open>A \<open>for\<close> loop over a fixed range, and one whose body may return early.\<close>

primrec kfor :: "'i list \<Rightarrow> ('i \<Rightarrow> ('s, unit) kop) \<Rightarrow> ('s, unit) kop" where
  "kfor [] body = kret ()"
| "kfor (i # is) body = kseq (body i) (kfor is body)"

primrec kscan :: "'i list \<Rightarrow> ('i \<Rightarrow> ('s, 'r option) kop) \<Rightarrow> ('s, 'r option) kop" where
  "kscan [] body = kret None"
| "kscan (i # is) body =
     kbind (body i) (\<lambda>r. case r of None \<Rightarrow> kscan is body | Some v \<Rightarrow> kret (Some v))"

named_theorems kop_simps \<open>evaluation rules of the kernel-operation combinators\<close>

lemma kret_apply [kop_simps]: "kret a s = Ok a s"
  by (simp add: kret_def)

lemma kstop_apply [kop_simps]: "kstop h s = Stop h s"
  by (simp add: kstop_def)

lemma kget_apply [kop_simps]: "kget f s = Ok (f s) s"
  by (simp add: kget_def)

lemma kmod_apply [kop_simps]: "kmod f s = Ok () (f s)"
  by (simp add: kmod_def)

lemma kbind_apply [kop_simps]:
  "kbind m f s = (case m s of Ok a t \<Rightarrow> f a t | Stop h t \<Rightarrow> Stop h t)"
  by (simp add: kbind_def)

lemma kcheck_apply [kop_simps]:
  "kcheck b msg s = (if b then Ok () s else Stop (Panicked msg) s)"
  by (simp add: kcheck_def kop_simps)

lemma kwhen_apply [kop_simps]: "kwhen b m s = (if b then m s else Ok () s)"
  by (simp add: kwhen_def kop_simps)

text \<open>
  Congruence for \<open>kbind\<close>: the continuation is only run on the outcome of the first
  operation. Recursive definitions of kernel loops get their termination argument from it.
\<close>

lemma kbind_cong [fundef_cong]:
  assumes "s = s'" and "m s' = m' s'"
    and "\<And>a t. m' s' = Ok a t \<Longrightarrow> f a t = f' a t"
  shows "kbind m f s = kbind m' f' s'"
  using assms by (simp add: kbind_def split: kres.split)

lemma kif_cong [fundef_cong]:
  assumes "b = b'" and "s = s'" and "b' \<Longrightarrow> m s' = m' s'" and "\<not> b' \<Longrightarrow> n s' = n' s'"
  shows "(if b then m else n) s = (if b' then m' else n') s'"
  using assms by simp

lemma kbind_OkE:
  assumes "kbind m f s = Ok b t"
  obtains a u where "m s = Ok a u" and "f a u = Ok b t"
  using assms by (auto simp: kbind_def split: kres.splits)

text \<open>The monad laws.\<close>

lemma kbind_kret_left [simp]: "kbind (kret a) f = f a"
  by (simp add: kbind_def kret_def)

lemma kbind_kret_right [simp]: "kbind m kret = m"
  by (auto simp: kbind_def kret_def fun_eq_iff split: kres.split)

lemma kbind_assoc: "kbind (kbind m f) g = kbind m (\<lambda>a. kbind (f a) g)"
  by (auto simp: kbind_def fun_eq_iff split: kres.split)

lemma kfor_append: "kfor (xs @ ys) body = kseq (kfor xs body) (kfor ys body)"
  by (induction xs) (simp_all add: kbind_assoc)

text \<open>
  A loop all of whose iterations succeed runs a fold; the invariant may speak about the
  part of the range that is still to come.
\<close>

lemma kfor_fold:
  assumes "\<And>xs i ys s. is = xs @ i # ys \<Longrightarrow> I (i # ys) s \<Longrightarrow>
             body i s = Ok () (f i s) \<and> I ys (f i s)"
    and "I is s"
  shows "kfor is body s = Ok () (fold f is s) \<and> I [] (fold f is s)"
  using assms
proof (induction "is" arbitrary: s)
  case Nil
  then show ?case by (simp add: kop_simps)
next
  case (Cons i "is")
  have step: "body i s = Ok () (f i s)" "I is (f i s)"
    using Cons.prems(1) [of "[]" i "is" s] Cons.prems(2) by simp_all
  have "kfor is body (f i s) = Ok () (fold f is (f i s)) \<and> I [] (fold f is (f i s))"
  proof (rule Cons.IH [OF _ step(2)])
    fix xs j ys t
    assume "is = xs @ j # ys" and "I (j # ys) t"
    then show "body j t = Ok () (f j t) \<and> I ys (f j t)"
      using Cons.prems(1) [of "i # xs" j ys t] by simp
  qed
  with step(1) show ?case by (simp add: kop_simps)
qed

section \<open>Total and partial correctness of operations\<close>

text \<open>
  \<open>kwp m Q s\<close>: from \<open>s\<close> the operation returns, and \<open>Q\<close> holds of its value
  and final state. \<open>kinv I m\<close>: whenever the operation returns from a state that
  satisfies \<open>I\<close>, the final state satisfies \<open>I\<close>.
\<close>

definition kwp :: "('s, 'a) kop \<Rightarrow> ('a \<Rightarrow> 's \<Rightarrow> bool) \<Rightarrow> 's \<Rightarrow> bool" where
  "kwp m Q s \<longleftrightarrow> (case m s of Ok a t \<Rightarrow> Q a t | Stop _ _ \<Rightarrow> False)"

definition kinv :: "('s \<Rightarrow> bool) \<Rightarrow> ('s, 'a) kop \<Rightarrow> bool" where
  "kinv I m \<longleftrightarrow> (\<forall>s a t. I s \<longrightarrow> m s = Ok a t \<longrightarrow> I t)"

named_theorems kwp_simps \<open>weakest preconditions of the combinators\<close>
named_theorems kinv_intros \<open>invariant preservation, combinator by combinator\<close>

lemma kwp_iff: "kwp m Q s \<longleftrightarrow> (\<exists>a t. m s = Ok a t \<and> Q a t)"
  by (auto simp: kwp_def split: kres.splits)

lemma kwp_Ok: "m s = Ok a t \<Longrightarrow> kwp m Q s = Q a t"
  by (simp add: kwp_def)

lemma kwp_kret [kwp_simps]: "kwp (kret a) Q s = Q a s"
  by (simp add: kwp_def kret_def)

lemma kwp_kstop [kwp_simps]: "kwp (kstop h) Q s = False"
  by (simp add: kwp_def kstop_def)

lemma kwp_kget [kwp_simps]: "kwp (kget f) Q s = Q (f s) s"
  by (simp add: kwp_def kget_def)

lemma kwp_kmod [kwp_simps]: "kwp (kmod f) Q s = Q () (f s)"
  by (simp add: kwp_def kmod_def)

lemma kwp_kbind [kwp_simps]: "kwp (kbind m f) Q s = kwp m (\<lambda>a. kwp (f a) Q) s"
  by (simp add: kwp_def kbind_def split: kres.split)

lemma kwp_kcheck [kwp_simps]: "kwp (kcheck b msg) Q s = (b \<and> Q () s)"
  by (simp add: kcheck_def kwp_kret kwp_kstop)

lemma kwp_kwhen [kwp_simps]: "kwp (kwhen b m) Q s = (if b then kwp m Q s else Q () s)"
  by (simp add: kwhen_def kwp_kret)

lemma kwp_if [kwp_simps]:
  "kwp (if b then m else n) Q s = (if b then kwp m Q s else kwp n Q s)"
  by simp

lemma kwp_mono: "kwp m Q s \<Longrightarrow> (\<And>a t. m s = Ok a t \<Longrightarrow> Q a t \<Longrightarrow> R a t) \<Longrightarrow> kwp m R s"
  by (auto simp: kwp_iff)

lemma kinvD: "kinv I m \<Longrightarrow> m s = Ok a t \<Longrightarrow> I s \<Longrightarrow> I t"
  by (auto simp: kinv_def)

lemma kinv_kret [kinv_intros]: "kinv I (kret a)"
  by (simp add: kinv_def kret_def)

lemma kinv_kstop [kinv_intros]: "kinv I (kstop h)"
  by (simp add: kinv_def kstop_def)

lemma kinv_kget [kinv_intros]: "kinv I (kget f)"
  by (simp add: kinv_def kget_def)

lemma kinv_kmod: "(\<And>s. I s \<Longrightarrow> I (f s)) \<Longrightarrow> kinv I (kmod f)"
  by (simp add: kinv_def kmod_def)

lemma kinv_kbind [kinv_intros]: "kinv I m \<Longrightarrow> (\<And>a. kinv I (f a)) \<Longrightarrow> kinv I (kbind m f)"
  unfolding kinv_def by (metis kbind_OkE)

lemma kinv_kcheck [kinv_intros]: "kinv I (kcheck b msg)"
  by (simp add: kcheck_def kinv_kret kinv_kstop)

lemma kinv_kwhen [kinv_intros]: "(b \<Longrightarrow> kinv I m) \<Longrightarrow> kinv I (kwhen b m)"
  by (simp add: kwhen_def kinv_kret)

lemma kinv_if [kinv_intros]:
  "(b \<Longrightarrow> kinv I m) \<Longrightarrow> (\<not> b \<Longrightarrow> kinv I n) \<Longrightarrow> kinv I (if b then m else n)"
  by simp

lemma kinv_case_option [kinv_intros]:
  "(x = None \<Longrightarrow> kinv I m) \<Longrightarrow> (\<And>v. x = Some v \<Longrightarrow> kinv I (f v)) \<Longrightarrow>
   kinv I (case x of None \<Rightarrow> m | Some v \<Rightarrow> f v)"
  by (simp split: option.split)

lemma kinv_kfor [kinv_intros]: "(\<And>i. i \<in> set is \<Longrightarrow> kinv I (body i)) \<Longrightarrow> kinv I (kfor is body)"
  by (induction "is") (auto intro!: kinv_kret kinv_kbind)

lemma kinv_kscan [kinv_intros]: "(\<And>i. i \<in> set is \<Longrightarrow> kinv I (body i)) \<Longrightarrow> kinv I (kscan is body)"
  by (induction "is") (auto intro!: kinv_kret kinv_kbind kinv_case_option)

section \<open>First match in a table\<close>

text \<open>
  The kernel allocates slots of its fixed tables by a linear scan; \<open>find\<close> over
  \<open>[0..<n]\<close> is that scan, and it returns the least index that qualifies.
\<close>

lemma find_upt_Some:
  "find P [0..<n] = Some i \<longleftrightarrow> i < n \<and> P i \<and> (\<forall>j<i. \<not> P j)"
  by (auto simp: find_Some_iff)

lemma find_upt_None: "find P [0..<n] = None \<longleftrightarrow> (\<forall>i<n. \<not> P i)"
  by (auto simp: find_None_iff)

section \<open>Words\<close>

lemma unat_bound: "unat (w :: 'w::len word) < 2 ^ LENGTH('w)"
  by (rule unsigned_less)

lemma uint_bound: "uint (w :: 'w::len word) < 2 ^ LENGTH('w)"
  by (rule unsigned_less)

section \<open>Little-endian byte access\<close>

text \<open>
  \<open>le_get n f\<close> assembles \<open>n\<close> bytes \<open>f 0, f 1, \<dots>\<close> into a word, least significant
  byte first; \<open>le_byte w i\<close> is byte \<open>i\<close> of \<open>w\<close>. C objects of integer type live in
  byte memories through these two on RISC-V.
\<close>

primrec le_get :: "nat \<Rightarrow> (nat \<Rightarrow> byte) \<Rightarrow> 'w::len word" where
  "le_get 0 f = 0"
| "le_get (Suc n) f = le_get n f OR push_bit (8 * n) (ucast (f n))"

definition le_byte :: "'w::len word \<Rightarrow> nat \<Rightarrow> byte" where
  "le_byte w i = ucast (drop_bit (8 * i) w)"

lemma bit_le_get:
  "bit (le_get n f :: 'w::len word) k \<longleftrightarrow>
     k < LENGTH('w) \<and> k < 8 * n \<and> bit (f (k div 8)) (k mod 8)"
proof (induction n)
  case 0
  then show ?case by simp
next
  case (Suc n)
  have *: "bit (push_bit (8 * n) (ucast (f n)) :: 'w word) k \<longleftrightarrow>
      k < LENGTH('w) \<and> 8 * n \<le> k \<and> k < 8 * Suc n \<and> bit (f n) (k - 8 * n)"
    by (auto simp: bit_push_bit_iff bit_ucast_iff dest: bit_imp_le_length)
  have "k div 8 = n \<and> k mod 8 = k - 8 * n" if "8 * n \<le> k" "k < 8 * Suc n"
  proof -
    define j where "j = k - 8 * n"
    have "k = 8 * n + j" "j < 8" using that by (simp_all add: j_def)
    then show ?thesis by simp
  qed
  with Suc * show ?case by (auto simp: bit_or_iff)
qed

lemma bit_le_byte: "bit (le_byte w i) k \<longleftrightarrow> k < 8 \<and> bit w (8 * i + k)"
  by (auto simp: le_byte_def bit_ucast_iff bit_drop_bit_eq)

lemma le_get_le_byte:
  assumes "LENGTH('w) \<le> 8 * n"
  shows "le_get n (le_byte (w :: 'w::len word)) = w"
  by (rule bit_eqI) (use assms in \<open>auto simp: bit_le_get bit_le_byte dest: bit_imp_le_length\<close>)

lemma le_byte_le_get:
  assumes "i < n" and "8 * n \<le> LENGTH('w)"
  shows "le_byte (le_get n f :: 'w::len word) i = f i"
proof (rule bit_eqI)
  fix k
  show "bit (le_byte (le_get n f :: 'w word) i) k \<longleftrightarrow> bit (f i) k"
    using assms by (cases "k < 8") (auto simp: bit_le_byte bit_le_get dest: bit_imp_le_length)
qed

lemma le_get_cong:
  "(\<And>i. i < n \<Longrightarrow> f i = g i) \<Longrightarrow> le_get n f = le_get n g"
  by (induction n) simp_all

text \<open>
  Objects inside a byte array: \<open>put_bytes d off n src\<close> stores \<open>n\<close> bytes of \<open>src\<close>
  at \<open>off\<close>; \<open>get16\<close>, \<open>get32\<close> and \<open>put16\<close>, \<open>put32\<close> read and write integers.
\<close>

definition put_bytes :: "(nat \<Rightarrow> byte) \<Rightarrow> nat \<Rightarrow> nat \<Rightarrow> (nat \<Rightarrow> byte) \<Rightarrow> (nat \<Rightarrow> byte)" where
  "put_bytes d off n src = (\<lambda>k. if off \<le> k \<and> k < off + n then src (k - off) else d k)"

definition get16 :: "(nat \<Rightarrow> byte) \<Rightarrow> nat \<Rightarrow> u16" where
  "get16 d off = le_get 2 (\<lambda>i. d (off + i))"

definition get32 :: "(nat \<Rightarrow> byte) \<Rightarrow> nat \<Rightarrow> u32" where
  "get32 d off = le_get 4 (\<lambda>i. d (off + i))"

definition put16 :: "(nat \<Rightarrow> byte) \<Rightarrow> nat \<Rightarrow> u16 \<Rightarrow> (nat \<Rightarrow> byte)" where
  "put16 d off w = put_bytes d off 2 (le_byte w)"

definition put32 :: "(nat \<Rightarrow> byte) \<Rightarrow> nat \<Rightarrow> u32 \<Rightarrow> (nat \<Rightarrow> byte)" where
  "put32 d off w = put_bytes d off 4 (le_byte w)"

lemma get32_put32 [simp]: "get32 (put32 d off w) off = w"
proof -
  have "le_get 4 (\<lambda>i. put32 d off w (off + i)) = (le_get 4 (le_byte w) :: u32)"
    by (rule le_get_cong) (simp add: put32_def put_bytes_def)
  then show ?thesis by (simp add: get32_def le_get_le_byte)
qed

lemma get16_put16 [simp]: "get16 (put16 d off w) off = w"
proof -
  have "le_get 2 (\<lambda>i. put16 d off w (off + i)) = (le_get 2 (le_byte w) :: u16)"
    by (rule le_get_cong) (simp add: put16_def put_bytes_def)
  then show ?thesis by (simp add: get16_def le_get_le_byte)
qed

lemma get_put_bytes_other:
  "b + 4 \<le> off \<or> off + n \<le> b \<Longrightarrow> get32 (put_bytes d off n src) b = get32 d b"
  "b + 2 \<le> off \<or> off + n \<le> b \<Longrightarrow> get16 (put_bytes d off n src) b = get16 d b"
  unfolding get32_def get16_def
  by (rule le_get_cong, fastforce simp: put_bytes_def)+

lemma get_put_other:
  "b + 4 \<le> off \<or> off + 4 \<le> b \<Longrightarrow> get32 (put32 d off w) b = get32 d b"
  "b + 2 \<le> off \<or> off + 4 \<le> b \<Longrightarrow> get16 (put32 d off w) b = get16 d b"
  "b + 4 \<le> off \<or> off + 2 \<le> b \<Longrightarrow> get32 (put16 d off v) b = get32 d b"
  "b + 2 \<le> off \<or> off + 2 \<le> b \<Longrightarrow> get16 (put16 d off v) b = get16 d b"
  by (simp_all add: put32_def put16_def get_put_bytes_other)

lemma get_bytes_cong:
  "(\<And>i. i < 4 \<Longrightarrow> d (off + i) = e (off + i)) \<Longrightarrow> get32 d off = get32 e off"
  "(\<And>i. i < 2 \<Longrightarrow> d (off + i) = e (off + i)) \<Longrightarrow> get16 d off = get16 e off"
  unfolding get32_def get16_def by (rule le_get_cong, simp)+

end
