(* ===== verification/Kstring.thy ===== *)
theory Kstring
  imports Prelude
begin

text \<open>
  The kernel's string and memory routines, \<open>kernel/string.c\<close>. Routines that write take
  the memory as an argument and return the new one; pointers are indices into it. The
  index type is any type with \<open>of_nat\<close>, so that the same definitions serve physical
  memory (\<open>64 word\<close> addresses) and C arrays (\<open>nat\<close> offsets). Routines that only read
  take the bytes that follow the pointer, \<open>p i\<close> being \<open>p[i]\<close>.
\<close>

section \<open>Definitions\<close>

definition memset :: "('i::semiring_1 \<Rightarrow> byte) \<Rightarrow> 'i \<Rightarrow> int \<Rightarrow> nat \<Rightarrow> ('i \<Rightarrow> byte)" where
  "memset m dst c n = fold (\<lambda>i m. m(dst + of_nat i := word_of_int c)) [0..<n] m"

text \<open>The loop of \<open>memcmp\<close>: \<open>n\<close> bytes are left to compare, the next one at \<open>i\<close>.\<close>

fun memcmp_loop :: "(nat \<Rightarrow> byte) \<Rightarrow> (nat \<Rightarrow> byte) \<Rightarrow> nat \<Rightarrow> nat \<Rightarrow> int" where
  "memcmp_loop s1 s2 i 0 = 0"
| "memcmp_loop s1 s2 i (Suc n) =
     (if s1 i \<noteq> s2 i then uint (s1 i) - uint (s2 i) else memcmp_loop s1 s2 (Suc i) n)"

definition memcmp :: "(nat \<Rightarrow> byte) \<Rightarrow> (nat \<Rightarrow> byte) \<Rightarrow> nat \<Rightarrow> int" where
  "memcmp v1 v2 n = memcmp_loop v1 v2 0 n"

text \<open>\<open>while(n-- > 0) *d++ = *s++\<close> and \<open>while(n-- > 0) *--d = *--s\<close>.\<close>

fun copy_forward :: "('i::semiring_1 \<Rightarrow> byte) \<Rightarrow> 'i \<Rightarrow> 'i \<Rightarrow> nat \<Rightarrow> ('i \<Rightarrow> byte)" where
  "copy_forward m d s 0 = m"
| "copy_forward m d s (Suc n) = copy_forward (m(d := m s)) (d + 1) (s + 1) n"

fun copy_backward :: "('i::semiring_1 \<Rightarrow> byte) \<Rightarrow> 'i \<Rightarrow> 'i \<Rightarrow> nat \<Rightarrow> ('i \<Rightarrow> byte)" where
  "copy_backward m d s 0 = m"
| "copy_backward m d s (Suc n) =
     copy_backward (m(d + of_nat n := m (s + of_nat n))) d s n"

definition memmove ::
  "('i::{semiring_1, ord} \<Rightarrow> byte) \<Rightarrow> 'i \<Rightarrow> 'i \<Rightarrow> nat \<Rightarrow> ('i \<Rightarrow> byte)" where
  "memmove m dst src n =
     (if n = 0 then m
      else if src < dst \<and> src + of_nat n > dst then copy_backward m dst src n
      else copy_forward m dst src n)"

definition memcpy ::
  "('i::{semiring_1, ord} \<Rightarrow> byte) \<Rightarrow> 'i \<Rightarrow> 'i \<Rightarrow> nat \<Rightarrow> ('i \<Rightarrow> byte)" where
  "memcpy m dst src n = memmove m dst src n"

fun strncmp_loop :: "(nat \<Rightarrow> byte) \<Rightarrow> (nat \<Rightarrow> byte) \<Rightarrow> nat \<Rightarrow> nat \<Rightarrow> int" where
  "strncmp_loop p q i 0 = 0"
| "strncmp_loop p q i (Suc n) =
     (if p i \<noteq> 0 \<and> p i = q i then strncmp_loop p q (Suc i) n
      else uint (p i) - uint (q i))"

definition strncmp :: "(nat \<Rightarrow> byte) \<Rightarrow> (nat \<Rightarrow> byte) \<Rightarrow> nat \<Rightarrow> int" where
  "strncmp p q n = strncmp_loop p q 0 n"

text \<open>
  \<open>strncpy\<close>: the first loop copies up to and including a NUL, the second one fills the
  rest of the \<open>n\<close> bytes with zeros.
\<close>

fun strncpy_fill :: "(nat \<Rightarrow> byte) \<Rightarrow> nat \<Rightarrow> nat \<Rightarrow> (nat \<Rightarrow> byte)" where
  "strncpy_fill s i 0 = s"
| "strncpy_fill s i (Suc n) = strncpy_fill (s(i := 0)) (Suc i) n"

fun strncpy_copy :: "(nat \<Rightarrow> byte) \<Rightarrow> (nat \<Rightarrow> byte) \<Rightarrow> nat \<Rightarrow> nat \<Rightarrow> (nat \<Rightarrow> byte)" where
  "strncpy_copy s t i 0 = s"
| "strncpy_copy s t i (Suc n) =
     (if t i \<noteq> 0 then strncpy_copy (s(i := t i)) t (Suc i) n
      else strncpy_fill (s(i := t i)) (Suc i) n)"

definition strncpy :: "(nat \<Rightarrow> byte) \<Rightarrow> (nat \<Rightarrow> byte) \<Rightarrow> int \<Rightarrow> (nat \<Rightarrow> byte)" where
  "strncpy s t n = strncpy_copy s t 0 (nat n)"

text \<open>
  \<open>safestrcpy\<close>: \<open>while(--n > 0 && (*s++ = *t++) != 0)\<close> makes at most \<open>n - 1\<close>
  copies; then \<open>*s = 0\<close>. After copying a NUL, \<open>s\<close> is already one past it.
\<close>

fun safestrcpy_loop :: "(nat \<Rightarrow> byte) \<Rightarrow> (nat \<Rightarrow> byte) \<Rightarrow> nat \<Rightarrow> nat \<Rightarrow> (nat \<Rightarrow> byte)" where
  "safestrcpy_loop s t i 0 = s(i := 0)"
| "safestrcpy_loop s t i (Suc k) =
     (if t i \<noteq> 0 then safestrcpy_loop (s(i := t i)) t (Suc i) k
      else s(i := t i, Suc i := 0))"

definition safestrcpy :: "(nat \<Rightarrow> byte) \<Rightarrow> (nat \<Rightarrow> byte) \<Rightarrow> int \<Rightarrow> (nat \<Rightarrow> byte)" where
  "safestrcpy s t n = (if n \<le> 0 then s else safestrcpy_loop s t 0 (nat n - 1))"

text \<open>\<open>strlen\<close> returns only if a NUL follows the pointer.\<close>

partial_function (option) strlen_loop :: "(nat \<Rightarrow> byte) \<Rightarrow> nat \<Rightarrow> nat option" where
  "strlen_loop s n = (if s n \<noteq> 0 then strlen_loop s (Suc n) else Some n)"

definition strlen :: "(nat \<Rightarrow> byte) \<Rightarrow> nat option" where
  "strlen s = strlen_loop s 0"

text \<open>
  \<open>cstr p xs\<close>: the bytes at \<open>p\<close> are the C string with contents \<open>xs\<close>.
  \<open>arr xs\<close>: the zero-padded array that starts with \<open>xs\<close>.
\<close>

definition cstr :: "(nat \<Rightarrow> byte) \<Rightarrow> byte list \<Rightarrow> bool" where
  "cstr p xs \<longleftrightarrow> (\<forall>i<length xs. p i = xs ! i \<and> xs ! i \<noteq> 0) \<and> p (length xs) = 0"

definition arr :: "byte list \<Rightarrow> nat \<Rightarrow> byte" where
  "arr xs i = (if i < length xs then xs ! i else 0)"

lemma cstr_arr: "0 \<notin> set xs \<Longrightarrow> cstr (arr xs) xs"
  by (auto simp: cstr_def arr_def in_set_conv_nth)

section \<open>memset\<close>

lemma memset_const:
  "memset m dst c n x = (if \<exists>i<n. x = dst + of_nat i then word_of_int c else m x)"
proof (induction n)
  case 0
  then show ?case by (simp add: memset_def)
next
  case (Suc n)
  then show ?case by (auto simp: memset_def less_Suc_eq)
qed

section \<open>memmove\<close>

text \<open>
  The reference: byte \<open>k\<close> of the destination is byte \<open>k\<close> of the source before
  the call, everything else is unchanged. The loops meet it because they never read a byte
  they have already overwritten.
\<close>

definition block_moved ::
  "('i::semiring_1 \<Rightarrow> byte) \<Rightarrow> 'i \<Rightarrow> 'i \<Rightarrow> nat \<Rightarrow> ('i \<Rightarrow> byte) \<Rightarrow> bool" where
  "block_moved m d s n m' \<longleftrightarrow>
     (\<forall>k<n. m' (d + of_nat k) = m (s + of_nat k)) \<and>
     (\<forall>x. (\<forall>k<n. x \<noteq> d + of_nat k) \<longrightarrow> m' x = m x)"

lemma copy_backward_moved:
  fixes d s :: "'i::ring_1"
  assumes "inj_on (\<lambda>k. d + of_nat k) {..<n}"
    and "\<And>i k. i < k \<Longrightarrow> k < n \<Longrightarrow> s + of_nat i \<noteq> d + of_nat k"
  shows "block_moved m d s n (copy_backward m d s n)"
  using assms
proof (induction n arbitrary: m)
  case 0
  then show ?case by (simp add: block_moved_def)
next
  case (Suc n)
  let ?m = "m(d + of_nat n := m (s + of_nat n))"
  have inj: "inj_on (\<lambda>k. d + of_nat k) {..<n}"
    using Suc.prems(1) by (rule inj_on_subset) auto
  have IH: "block_moved ?m d s n (copy_backward ?m d s n)"
    by (rule Suc.IH [OF inj]) (use Suc.prems(2) in auto)
  have ne: "d + of_nat k \<noteq> d + of_nat n" if "k < n" for k
    using Suc.prems(1) that by (auto simp: inj_on_def)
  have src: "?m (s + of_nat k) = m (s + of_nat k)" if "k < n" for k
    using Suc.prems(2) [of k n] that by simp
  have eq: "copy_backward m d s (Suc n) = copy_backward ?m d s n" by simp
  have "copy_backward ?m d s n (d + of_nat n) = m (s + of_nat n)"
    using IH ne unfolding block_moved_def by (metis fun_upd_same)
  moreover have "copy_backward ?m d s n (d + of_nat k) = m (s + of_nat k)" if "k < n" for k
    using IH src [OF that] that unfolding block_moved_def by simp
  moreover have "copy_backward ?m d s n x = m x" if "\<forall>k<Suc n. x \<noteq> d + of_nat k" for x
    using IH that unfolding block_moved_def by (metis fun_upd_other less_Suc_eq)
  ultimately show ?case
    unfolding block_moved_def eq by (metis less_antisym)
qed

lemma copy_forward_moved:
  fixes d s :: "'i::ring_1"
  assumes "inj_on (\<lambda>k. d + of_nat k) {..<n}"
    and "\<And>i k. i < k \<Longrightarrow> k < n \<Longrightarrow> s + of_nat k \<noteq> d + of_nat i"
  shows "block_moved m d s n (copy_forward m d s n)"
  using assms
proof (induction n arbitrary: m d s)
  case 0
  then show ?case by (simp add: block_moved_def)
next
  case (Suc n)
  let ?m = "m(d := m s)"
  have shift: "x + 1 + of_nat k = x + of_nat (Suc k)" for x :: 'i and k
    by (simp add: add.assoc)
  have inj: "inj_on (\<lambda>k. d + 1 + of_nat k) {..<n}"
    using Suc.prems(1) by (auto simp: inj_on_def shift simp del: of_nat_Suc)
  have dis: "s + 1 + of_nat k \<noteq> d + 1 + of_nat i" if "i < k" "k < n" for i k
    using Suc.prems(2) [of "Suc i" "Suc k"] that by (simp add: shift del: of_nat_Suc)
  have IH: "block_moved ?m (d + 1) (s + 1) n (copy_forward ?m (d + 1) (s + 1) n)"
    by (rule Suc.IH [OF inj dis])
  have d0: "d \<noteq> d + of_nat (Suc k)" if "k < n" for k
    using Suc.prems(1) that inj_onD [OF Suc.prems(1), of 0 "Suc k"] by (auto simp del: of_nat_Suc)
  have src: "?m (s + of_nat (Suc k)) = m (s + of_nat (Suc k))" if "k < n" for k
    using Suc.prems(2) [of 0 "Suc k"] that by (simp del: of_nat_Suc)
  have eq: "copy_forward m d s (Suc n) = copy_forward ?m (d + 1) (s + 1) n" by simp
  have "copy_forward ?m (d + 1) (s + 1) n (d + of_nat 0) = m (s + of_nat 0)"
    using IH d0 unfolding block_moved_def shift by (simp del: of_nat_Suc)
  moreover have "copy_forward ?m (d + 1) (s + 1) n (d + of_nat (Suc k)) = m (s + of_nat (Suc k))"
    if "k < n" for k
    using IH src [OF that] that unfolding block_moved_def shift by simp
  moreover have "copy_forward ?m (d + 1) (s + 1) n x = m x" if "\<forall>k<Suc n. x \<noteq> d + of_nat k" for x
  proof -
    have "x \<noteq> d" using that [rule_format, of 0] by simp
    moreover have "x \<noteq> d + of_nat (Suc k)" if "k < n" for k
      using \<open>\<forall>k<Suc n. x \<noteq> d + of_nat k\<close> [rule_format, of "Suc k"] that by (simp del: of_nat_Suc)
    ultimately show ?thesis using IH unfolding block_moved_def shift by (simp del: of_nat_Suc)
  qed
  ultimately show ?case
    unfolding block_moved_def eq by (auto simp: less_Suc_eq_0_disj simp del: of_nat_Suc of_nat_0)
qed

text \<open>On 64-bit addresses: neither region wraps around the end of the address space.\<close>

lemma addr_off_inj:
  fixes d :: "'w::len word"
  assumes "n \<le> 2 ^ LENGTH('w)"
  shows "inj_on (\<lambda>k. d + of_nat k) {..<n}"
proof (rule inj_onI)
  fix i k assume "i \<in> {..<n}" "k \<in> {..<n}" and "d + of_nat i = d + (of_nat k :: 'w word)"
  then have "(of_nat i :: 'w word) = of_nat k" and "i < 2 ^ LENGTH('w)" "k < 2 ^ LENGTH('w)"
    using assms by auto
  then show "i = k" by (metis of_nat_inverse)
qed

lemma unat_off:
  fixes d :: "'w::len word"
  assumes "unat d + k < 2 ^ LENGTH('w)"
  shows "unat (d + of_nat k) = unat d + k"
  using assms by (simp add: unat_word_ariths unat_of_nat mod_add_right_eq)

lemma memmove_moved:
  fixes dst src :: "'w::len word"
  assumes "unat dst + n < 2 ^ LENGTH('w)" and "unat src + n < 2 ^ LENGTH('w)"
  shows "block_moved m dst src n (memmove m dst src n)"
proof (cases "n = 0")
  case True
  then show ?thesis by (simp add: memmove_def block_moved_def)
next
  case False
  have inj: "inj_on (\<lambda>k. dst + of_nat k) {..<n}"
    using assms(1) by (intro addr_off_inj) simp
  have d: "unat (dst + of_nat k) = unat dst + k" if "k \<le> n" for k
    using assms(1) that by (intro unat_off) simp
  have s: "unat (src + of_nat k) = unat src + k" if "k \<le> n" for k
    using assms(2) that by (intro unat_off) simp
  show ?thesis
  proof (cases "src < dst \<and> src + of_nat n > dst")
    case True
    then have lt: "unat src < unat dst"
      by (simp add: word_less_nat_alt)
    have "src + of_nat i \<noteq> dst + of_nat k" if "i < k" "k < n" for i k
      using d [of k] s [of i] lt that by (metis add_less_mono less_imp_le less_irrefl less_trans)
    then show ?thesis
      using True False copy_backward_moved [OF inj] by (simp add: memmove_def)
  next
    case no: False
    then have or: "unat dst \<le> unat src \<or> unat src + n \<le> unat dst"
      using s [of n] by (auto simp: word_less_nat_alt not_less)
    have "src + of_nat k \<noteq> dst + of_nat i" if ik: "i < k" "k < n" for i k
    proof
      assume "src + of_nat k = dst + of_nat i"
      then have "unat src + k = unat dst + i" using d [of i] s [of k] ik by simp
      with or ik show False by linarith
    qed
    then show ?thesis
      using no False copy_forward_moved [OF inj] by (auto simp: memmove_def)
  qed
qed

section \<open>String routines\<close>

lemma strlen_loop_cstr:
  assumes "cstr s xs" and "n \<le> length xs"
  shows "strlen_loop s n = Some (length xs)"
  using assms
proof (induction "length xs - n" arbitrary: n)
  case 0
  then show ?case by (subst strlen_loop.simps) (simp add: cstr_def)
next
  case (Suc k)
  then have "n < length xs" by linarith
  then have "s n \<noteq> 0" using Suc.prems(1) by (simp add: cstr_def)
  moreover have "strlen_loop s (Suc n) = Some (length xs)"
    using Suc \<open>n < length xs\<close> by (intro Suc.hyps) auto
  ultimately show ?case by (subst strlen_loop.simps) simp
qed

lemma strlen_cstr: "cstr s xs \<Longrightarrow> strlen s = Some (length xs)"
  by (simp add: strlen_def strlen_loop_cstr)

lemma memcmp_loop_0: "memcmp_loop a b i n = 0 \<longleftrightarrow> (\<forall>k<n. a (i + k) = b (i + k))"
proof (induction a b i n rule: memcmp_loop.induct)
  case (2 s1 s2 i n)
  then show ?case by (auto simp: less_Suc_eq_0_disj word_uint_eq_iff)
qed simp

lemma upt_add_Suc: "[i..<i + Suc n] = i # [Suc i..<Suc i + n]"
  by (simp add: upt_conv_Cons)

text \<open>\<open>prefix_str n p\<close> is the string at \<open>p\<close>, cut off after \<open>n\<close> bytes.\<close>

definition prefix_str :: "nat \<Rightarrow> (nat \<Rightarrow> byte) \<Rightarrow> byte list" where
  "prefix_str n p = takeWhile (\<lambda>b. b \<noteq> 0) (map p [0..<n])"

lemma strncmp_loop_0:
  "strncmp_loop p q i n = 0 \<longleftrightarrow>
     takeWhile (\<lambda>b. b \<noteq> 0) (map p [i..<i + n]) = takeWhile (\<lambda>b. b \<noteq> 0) (map q [i..<i + n])"
proof (induction n arbitrary: i)
  case 0
  then show ?case by simp
next
  case (Suc n)
  have "uint (p i) - uint (q i) = 0 \<longleftrightarrow> p i = q i" by (simp add: word_uint_eq_iff)
  then show ?case unfolding upt_add_Suc using Suc [of "Suc i"] by auto
qed

lemma strncmp_0: "strncmp p q n = 0 \<longleftrightarrow> prefix_str n p = prefix_str n q"
  using strncmp_loop_0 [of p q 0 n] by (simp add: strncmp_def prefix_str_def)

lemma strncpy_fill_apply:
  "strncpy_fill s i n k = (if i \<le> k \<and> k < i + n then 0 else s k)"
  by (induction n arbitrary: s i) (simp_all add: less_Suc_eq_le del: fun_upd_apply, auto)

lemma strncpy_copy_apply:
  "strncpy_copy s t i n k =
     (if k < i \<or> i + n \<le> k then s k
      else if \<forall>j. i \<le> j \<and> j < k \<longrightarrow> t j \<noteq> 0 then t k else 0)"
proof (induction s t i n rule: strncpy_copy.induct)
  case (2 s t i n)
  show ?case
  proof (cases "t i = 0")
    case True
    have "k = i" if "\<not> k < i" "\<forall>j. i \<le> j \<and> j < k \<longrightarrow> t j \<noteq> 0"
      using that True by (metis linorder_neqE_nat order_refl)
    with True show ?thesis by (auto simp: strncpy_fill_apply)
  next
    case False
    have "(\<forall>j. i \<le> j \<and> j < k \<longrightarrow> t j \<noteq> 0) = (\<forall>j. Suc i \<le> j \<and> j < k \<longrightarrow> t j \<noteq> 0)"
      using False by (metis Suc_leI le_neq_implies_less Suc_leD)
    with 2 False show ?thesis by (auto simp: fun_upd_def less_Suc_eq)
  qed
qed auto

lemma strncpy_apply:
  "strncpy s t n k =
     (if nat n \<le> k then s k else if \<forall>j<k. t j \<noteq> 0 then t k else 0)"
  by (simp add: strncpy_def strncpy_copy_apply)

lemma safestrcpy_loop_cstr:
  assumes "cstr t xs" and "i \<le> length xs" and "\<forall>j<i. s j = t j"
  shows "cstr (safestrcpy_loop s t i k) (take (i + k) xs)"
  using assms
proof (induction s t i k rule: safestrcpy_loop.induct)
  case (1 s t i)
  then show ?case by (auto simp: cstr_def)
next
  case (2 s t i k)
  show ?case
  proof (cases "i = length xs")
    case True
    with "2.prems" have "t i = 0" "min (length xs) (i + Suc k) = i" by (auto simp: cstr_def)
    with True "2.prems" show ?thesis by (auto simp: cstr_def)
  next
    case False
    with "2.prems" have nz: "t i \<noteq> 0" and lt: "i < length xs" by (auto simp: cstr_def)
    have "\<forall>j<Suc i. (s(i := t i)) j = t j" using "2.prems"(3) by (auto simp: less_Suc_eq)
    then have "cstr (safestrcpy_loop (s(i := t i)) t (Suc i) k) (take (Suc i + k) xs)"
      using lt by (intro "2.IH" [OF nz "2.prems"(1)]) simp_all
    with nz show ?thesis by (simp del: fun_upd_apply)
  qed
qed

section \<open>Properties\<close>

text \<open>
  C35: \<open>memmove\<close> copies correctly also when the regions overlap: afterwards the
  destination holds the bytes the source had before the call, and no other byte changes.
\<close>

theorem memmove_correct:
  fixes dst src :: addr
  assumes "unat dst + n < 2 ^ 64" and "unat src + n < 2 ^ 64"
  shows "block_moved m dst src n (memmove m dst src n)"
  using memmove_moved [of dst n src m] assms by simp

theorem memmove_correct_witness:
  "memmove (\<lambda>a :: addr. ucast a) 3 1 4 5 = 3 \<and> memmove (\<lambda>a :: addr. ucast a) 3 1 4 2 = 2"
proof -
  have bm: "block_moved (\<lambda>a :: addr. ucast a :: byte) 3 1 4 (memmove (\<lambda>a. ucast a) 3 1 4)"
    by (rule memmove_correct) simp_all
  have "(2 :: addr) \<noteq> 3 + of_nat k" if "k < 4" for k
  proof
    assume "(2 :: addr) = 3 + of_nat k"
    then have "unat (2 :: addr) = unat (3 + of_nat k :: addr)" by (rule arg_cong)
    with unat_off [of "3 :: addr" k] that show False by simp
  qed
  then have "memmove (\<lambda>a :: addr. ucast a) 3 1 4 2 = (ucast (2 :: addr) :: byte)"
    using bm unfolding block_moved_def by blast
  moreover have "memmove (\<lambda>a :: addr. ucast a) 3 1 4 (3 + of_nat 2) = (ucast (1 + of_nat 2 :: addr) :: byte)"
    using bm unfolding block_moved_def by (metis numeral_less_iff semiring_norm(76,78))
  ultimately show ?thesis by simp
qed

lemma safestrcpy_loop_frame: "i + k < x \<Longrightarrow> safestrcpy_loop s t i k x = s x"
  by (induction s t i k rule: safestrcpy_loop.induct) auto

text \<open>
  C39: \<open>safestrcpy\<close> into a buffer of \<open>n > 0\<close> bytes always leaves a NUL-terminated
  string, the longest prefix of the source that fits, and writes nothing outside the buffer.
\<close>

theorem safestrcpy_terminates_string:
  assumes "cstr t xs" and "0 < n"
  shows "cstr (safestrcpy s t n) (take (nat n - 1) xs) \<and>
         (\<forall>x\<ge>nat n. safestrcpy s t n x = s x)"
  using assms safestrcpy_loop_cstr [OF assms(1), of 0 s "nat n - 1"] safestrcpy_loop_frame [of 0 "nat n - 1"]
  by (auto simp: safestrcpy_def)

theorem safestrcpy_terminates_string_witness:
  "cstr (arr [105, 110, 105, 116]) [105, 110, 105, 116] \<and>
   cstr (safestrcpy (\<lambda>_. 7) (arr [105, 110, 105, 116]) 3) [105, 110]"
proof -
  have c: "cstr (arr [105, 110, 105, 116]) [105, 110, 105, 116]"
    by (rule cstr_arr) simp
  from safestrcpy_terminates_string [OF c, of 3 "\<lambda>_. 7"] c show ?thesis by simp
qed

lemma prefix_str_strncpy: "prefix_str n (strncpy s t (int n)) = prefix_str n t"
proof -
  have "takeWhile (\<lambda>b. b \<noteq> 0) (map (strncpy s t (int n)) [0..<k]) =
        takeWhile (\<lambda>b. b \<noteq> 0) (map t [0..<k])" if "k \<le> n" for k
    using that
  proof (induction k)
    case (Suc k)
    then have IH: "takeWhile (\<lambda>b. b \<noteq> 0) (map (strncpy s t (int n)) [0..<k]) =
        takeWhile (\<lambda>b. b \<noteq> 0) (map t [0..<k])" by simp
    have eq: "strncpy s t (int n) j = t j" if "j \<le> k" "\<forall>i<j. t i \<noteq> 0" for j
      using Suc.prems that by (simp add: strncpy_apply)
    show ?case
    proof (cases "\<forall>j<k. t j \<noteq> 0")
      case True
      then have "map (strncpy s t (int n)) [0..<Suc k] = map t [0..<Suc k]"
        using eq by (auto simp: less_Suc_eq_le)
      then show ?thesis by (simp only:)
    next
      case False
      then have ex: "\<exists>j. j < k \<and> t j = 0" by auto
      define j where "j = (LEAST j. j < k \<and> t j = 0)"
      have j: "j < k" "t j = 0" using LeastI_ex [OF ex] by (auto simp: j_def)
      have "t i \<noteq> 0" if "i < j" for i
        using not_less_Least [of i "\<lambda>j. j < k \<and> t j = 0"] that j(1) by (simp add: j_def)
      with j have z: "strncpy s t (int n) j = 0" using eq [of j] by simp
      have cut: "takeWhile (\<lambda>b. b \<noteq> 0) (map g [0..<Suc k]) = takeWhile (\<lambda>b. b \<noteq> 0) (map g [0..<k])"
        if "g j = (0 :: byte)" for g
        using takeWhile_append1 [of "g j" "map g [0..<k]"] j(1) that by simp
      show ?thesis unfolding cut [where g = "strncpy s t (int n)", OF z] cut [where g = t, OF j(2)] by (rule IH)
    qed
  qed simp
  then show ?thesis by (simp add: prefix_str_def)
qed

text \<open>
  C38: A directory name stored with \<open>strncpy\<close> and looked up with \<open>strncmp\<close> at the same
  width matches itself, and \<open>strncmp\<close> returns 0 for exactly those names that agree up to
  the first NUL or the width.
\<close>

theorem strncpy_strncmp_roundtrip:
  "strncmp (strncpy s t (int n)) t n = 0 \<and>
   (strncmp p q n = 0 \<longleftrightarrow> prefix_str n p = prefix_str n q)"
  by (simp add: strncmp_0 prefix_str_strncpy)

end
