(* ===== verification/Riscv.thy ===== *)
theory Riscv
  imports Kstring
begin

text \<open>
  Constants and macros of \<open>kernel/riscv.h\<close>, \<open>kernel/memlayout.h\<close> and
  \<open>kernel/param.h\<close>: page rounding, Sv39 page-table entries and index extraction, the
  physical memory layout; 64-bit loads and stores on physical memory; and the arithmetic of
  pages.
\<close>

section \<open>Constants\<close>

abbreviation (input) NPROC :: nat where "NPROC \<equiv> 64"
abbreviation (input) NOFILE :: nat where "NOFILE \<equiv> 16"
abbreviation (input) NFILE :: nat where "NFILE \<equiv> 100"
abbreviation (input) NINODE :: nat where "NINODE \<equiv> 50"
abbreviation (input) NDEV :: int where "NDEV \<equiv> 10"
abbreviation (input) ROOTDEV :: u32 where "ROOTDEV \<equiv> 1"
abbreviation (input) MAXARG :: nat where "MAXARG \<equiv> 32"
abbreviation (input) MAXOPBLOCKS :: int where "MAXOPBLOCKS \<equiv> 10"
abbreviation (input) LOGSIZE :: int where "LOGSIZE \<equiv> 30"
abbreviation (input) NBUF :: nat where "NBUF \<equiv> 30"
abbreviation (input) MAXPATH :: nat where "MAXPATH \<equiv> 128"

abbreviation (input) PGSIZE :: u64 where "PGSIZE \<equiv> 4096"
abbreviation (input) KERNBASE :: u64 where "KERNBASE \<equiv> 0x80000000"
abbreviation (input) PHYSTOP :: u64 where "PHYSTOP \<equiv> 0x88000000"
abbreviation (input) MAXVA :: u64 where "MAXVA \<equiv> 0x4000000000"
abbreviation (input) TRAMPOLINE :: u64 where "TRAMPOLINE \<equiv> 0x3ffffff000"
abbreviation (input) TRAPFRAME :: u64 where "TRAPFRAME \<equiv> 0x3fffffe000"

definition KSTACK :: "nat \<Rightarrow> u64" where
  "KSTACK p = TRAMPOLINE - of_nat (p + 1) * 2 * PGSIZE"

section \<open>Page rounding and page-table entries\<close>

definition PGROUNDUP :: "u64 \<Rightarrow> u64" where
  "PGROUNDUP sz = (sz + PGSIZE - 1) AND NOT (PGSIZE - 1)"

definition PGROUNDDOWN :: "u64 \<Rightarrow> u64" where
  "PGROUNDDOWN a = a AND NOT (PGSIZE - 1)"

abbreviation (input) PTE_V :: u64 where "PTE_V \<equiv> 1"
abbreviation (input) PTE_R :: u64 where "PTE_R \<equiv> 2"
abbreviation (input) PTE_W :: u64 where "PTE_W \<equiv> 4"
abbreviation (input) PTE_X :: u64 where "PTE_X \<equiv> 8"
abbreviation (input) PTE_U :: u64 where "PTE_U \<equiv> 16"

definition PA2PTE :: "u64 \<Rightarrow> u64" where
  "PA2PTE pa = push_bit 10 (drop_bit 12 pa)"

definition PTE2PA :: "u64 \<Rightarrow> u64" where
  "PTE2PA pte = push_bit 12 (drop_bit 10 pte)"

definition PTE_FLAGS :: "u64 \<Rightarrow> u64" where
  "PTE_FLAGS pte = pte AND 0x3FF"

definition PXSHIFT :: "nat \<Rightarrow> nat" where
  "PXSHIFT level = 12 + 9 * level"

definition PX :: "nat \<Rightarrow> u64 \<Rightarrow> u64" where
  "PX level va = drop_bit (PXSHIFT level) va AND 0x1FF"

section \<open>64-bit access to physical memory\<close>

definition load64 :: "memory \<Rightarrow> addr \<Rightarrow> u64" where
  "load64 m a = le_get 8 (\<lambda>i. m (a + of_nat i))"

definition store64 :: "memory \<Rightarrow> addr \<Rightarrow> u64 \<Rightarrow> memory" where
  "store64 m a v = (\<lambda>x. if unat (x - a) < 8 then le_byte v (unat (x - a)) else m x)"

lemma unat_of_nat_small: "n < 2 ^ LENGTH('w) \<Longrightarrow> unat (of_nat n :: 'w::len word) = n"
  by (simp add: unat_of_nat)

lemma load_store_same [simp]: "load64 (store64 m a v) a = v"
proof -
  have "load64 (store64 m a v) a = le_get 8 (le_byte v)"
    unfolding load64_def by (rule le_get_cong) (simp add: store64_def unat_of_nat_small)
  then show ?thesis by (simp add: le_get_le_byte)
qed

lemma load64_cong: "(\<And>x. unat (x - a) < 8 \<Longrightarrow> m x = m' x) \<Longrightarrow> load64 m a = load64 m' a"
  unfolding load64_def by (rule le_get_cong) (simp add: unat_of_nat_small)

lemma load64_zero: "load64 (\<lambda>_. 0) a = 0"
proof -
  have "le_get n (\<lambda>_. 0) = (0 :: u64)" for n by (induction n) simp_all
  then show ?thesis by (simp add: load64_def)
qed

section \<open>Pages\<close>

definition aligned :: "addr \<Rightarrow> bool" where
  "aligned p \<longleftrightarrow> unat p mod 4096 = 0"

definition in_page :: "addr \<Rightarrow> addr \<Rightarrow> bool" where
  "in_page p x \<longleftrightarrow> unat p \<le> unat x \<and> unat x < unat p + 4096"

lemma aligned_mod: "aligned p \<longleftrightarrow> p mod 4096 = 0"
  by (simp add: aligned_def unat_mod flip: unat_0_iff)

lemma unat_PGROUNDDOWN: "unat (PGROUNDDOWN a) = unat a div 4096 * 4096"
proof -
  have "a AND NOT (mask 12) = push_bit 12 (drop_bit 12 a)"
    by (rule bit_eqI) (auto simp: bit_simps)
  moreover have "(4095 :: u64) = mask 12" by (simp add: mask_eq_exp_minus_1)
  ultimately have "PGROUNDDOWN a = push_bit 12 (drop_bit 12 a)" by (simp add: PGROUNDDOWN_def)
  moreover have "unat (drop_bit 12 a) = unat a div 4096"
    by (simp add: drop_bit_eq_div unat_div)
  moreover have "unat (push_bit 12 w) = (unat w * 4096) mod 2 ^ 64" for w :: u64
    by (simp add: push_bit_eq_mult unat_word_ariths mult.commute)
  moreover have "unat a div 4096 * 4096 < 2 ^ 64"
    using unat_bound [of a] by (simp add: le_less_trans [OF div_times_less_eq_dividend])
  ultimately show ?thesis by simp
qed

lemma aligned_PGROUNDDOWN [simp]: "aligned (PGROUNDDOWN a)"
  by (simp add: aligned_def unat_PGROUNDDOWN)

lemma PGROUNDDOWN_aligned: "aligned a \<Longrightarrow> PGROUNDDOWN a = a"
  by (auto simp: aligned_def word_eq_iff_unsigned [where ?'a = nat] unat_PGROUNDDOWN)

lemma in_page_PGROUNDDOWN: "in_page (PGROUNDDOWN a) a"
proof -
  have "unat a = unat a div 4096 * 4096 + unat a mod 4096" by simp
  then show ?thesis
    using mod_less_divisor [of 4096 "unat a"] unfolding in_page_def unat_PGROUNDDOWN by linarith
qed

lemma in_page_unique:
  assumes "in_page p x" and "in_page q x" and "aligned p" and "aligned q"
  shows "p = q"
proof -
  have "unat p = 4096 * (unat p div 4096)" "unat q = 4096 * (unat q div 4096)"
    using assms(3,4) by (auto simp: aligned_def)
  moreover have "unat p < unat q + 4096" "unat q < unat p + 4096"
    using assms(1,2) by (auto simp: in_page_def)
  ultimately have "unat p div 4096 = unat q div 4096" by linarith
  then have "unat p = unat q" using \<open>unat p = _\<close> \<open>unat q = _\<close> by simp
  then show ?thesis by (rule unsigned_word_eqI)
qed

lemma aligned_bound: "aligned p \<Longrightarrow> unat p + 4096 \<le> 2 ^ 64"
proof -
  assume "aligned p"
  then obtain k where k: "unat p = 4096 * k" by (auto simp: aligned_def)
  moreover have "unat p < 4096 * 2 ^ 52" using unat_bound [of p] by simp
  ultimately have "k + 1 \<le> 2 ^ 52" by simp
  then have "4096 * (k + 1) \<le> 4096 * 2 ^ 52" by (rule mult_le_mono2)
  then show ?thesis by (simp add: k)
qed

lemma unat_diff_le: "(a :: u64) \<le> x \<Longrightarrow> unat (x - a) = unat x - unat a"
  by (simp add: unat_sub)

lemma unat_diff_less_iff:
  assumes "unat a + n \<le> 2 ^ 64"
  shows "unat (x - (a :: u64)) < n \<longleftrightarrow> unat a \<le> unat x \<and> unat x < unat a + n"
  using assms unat_bound [of x] unat_bound [of a]
  by (auto simp: unat_sub_if' word_le_nat_alt split: if_splits)

lemma in_page_diff: "aligned p \<Longrightarrow> in_page p x \<longleftrightarrow> unat (x - p) < 4096"
  using unat_diff_less_iff [of p 4096 x] aligned_bound [of p] by (auto simp: in_page_def)

lemma ex_off_iff:
  assumes "n \<le> 2 ^ LENGTH('w)"
  shows "(\<exists>i<n. x = a + (of_nat i :: 'w::len word)) \<longleftrightarrow> unat (x - a) < n"
proof
  assume "\<exists>i<n. x = a + of_nat i"
  then show "unat (x - a) < n" using assms by (auto simp: unat_of_nat_small)
next
  assume "unat (x - a) < n"
  then show "\<exists>i<n. x = a + of_nat i" by (intro exI [of _ "unat (x - a)"]) simp
qed

lemma memset_page:
  "aligned p \<Longrightarrow> memset m p c 4096 x = (if in_page p x then word_of_int c else m x)"
  by (simp add: memset_const ex_off_iff in_page_diff)

text \<open>Eight-byte slots inside a page.\<close>

lemma slot_in_page:
  assumes "aligned p" and "i < 512" and "unat (x - (p + of_nat (8 * i))) < 8"
  shows "in_page p x"
proof -
  have b: "unat p + 4096 \<le> 2 ^ 64" using assms(1) by (rule aligned_bound)
  have u: "unat (p + of_nat (8 * i)) = unat p + 8 * i"
    using b assms(2) by (intro unat_off) simp
  have "unat p + 8 * i \<le> unat x \<and> unat x < unat p + 8 * i + 8"
    using unat_diff_less_iff [of "p + of_nat (8 * i)" 8 x] u b assms(2,3) by simp
  with assms(2) show ?thesis by (simp add: in_page_def)
qed

lemma slot_disjoint:
  assumes "aligned p" and "i < 512" and "j < 512" and "i \<noteq> j"
    and "unat (x - (p + of_nat (8 * i))) < 8"
  shows "\<not> unat (x - (p + of_nat (8 * j))) < 8"
proof -
  have b: "unat p + 4096 \<le> 2 ^ 64" using assms(1) by (rule aligned_bound)
  have u: "unat (p + of_nat (8 * k)) = unat p + 8 * k" if "k < 512" for k
    using b that by (intro unat_off) simp
  have "unat p + 8 * i \<le> unat x \<and> unat x < unat p + 8 * i + 8"
    using unat_diff_less_iff [of "p + of_nat (8 * i)" 8 x] u [OF assms(2)] b assms(2,5) by simp
  moreover have "unat (x - (p + of_nat (8 * j))) < 8 \<longleftrightarrow>
      unat p + 8 * j \<le> unat x \<and> unat x < unat p + 8 * j + 8"
    using unat_diff_less_iff [of "p + of_nat (8 * j)" 8 x] u [OF assms(3)] b assms(3) by simp
  ultimately show ?thesis using assms(4) by linarith
qed

lemma store64_frame:
  assumes "aligned p" and "i < 512" and "\<not> in_page p x"
  shows "store64 m (p + of_nat (8 * i)) v x = m x"
  using slot_in_page [OF assms(1,2), of x] assms(3) by (auto simp: store64_def)

lemma load_store_slot:
  assumes "aligned p" and "aligned q" and "i < 512" and "j < 512" and "p \<noteq> q \<or> i \<noteq> j"
  shows "load64 (store64 m (p + of_nat (8 * i)) v) (q + of_nat (8 * j)) =
         load64 m (q + of_nat (8 * j))"
proof (rule load64_cong)
  fix x assume x: "unat (x - (q + of_nat (8 * j))) < 8"
  then have "in_page q x" using assms by (intro slot_in_page)
  show "store64 m (p + of_nat (8 * i)) v x = m x"
  proof (cases "p = q")
    case True
    then have "\<not> unat (x - (p + of_nat (8 * i))) < 8"
      using slot_disjoint [of q j i x] x assms by auto
    then show ?thesis by (simp add: store64_def)
  next
    case False
    then have "\<not> in_page p x" using in_page_unique \<open>in_page q x\<close> assms by blast
    then show ?thesis using assms by (intro store64_frame)
  qed
qed

lemma load64_page_cong:
  assumes "aligned p" and "i < 512" and "\<And>x. in_page p x \<Longrightarrow> m x = m' x"
  shows "load64 m (p + of_nat (8 * i)) = load64 m' (p + of_nat (8 * i))"
  by (rule load64_cong) (use assms slot_in_page in blast)

section \<open>Entries\<close>

lemma small_bits: "unat (f :: u64) < 2 ^ n \<Longrightarrow> bit f k \<Longrightarrow> k < n"
proof -
  assume "unat f < 2 ^ n" "bit f k"
  then have "take_bit n (unat f) = unat f" by (simp add: take_bit_nat_eq_self)
  moreover have "bit (unat f) k" using \<open>bit f k\<close> by (simp add: bit_unsigned_iff bit_imp_le_length)
  ultimately show "k < n" by (metis bit_take_bit_iff)
qed

lemma aligned_bits: "aligned pa \<Longrightarrow> bit pa k \<Longrightarrow> 12 \<le> k"
proof -
  assume "aligned pa" "bit pa k"
  then have "take_bit 12 pa = 0" by (simp add: aligned_mod take_bit_eq_mod)
  then show "12 \<le> k" using \<open>bit pa k\<close> by (metis bit_0_eq bit_take_bit_iff bot_apply bot_bool_def not_le)
qed

lemma PTE2PA_PA2PTE:
  assumes "aligned pa" and "unat pa < 2 ^ 56" and "unat f < 2 ^ 10"
  shows "PTE2PA (PA2PTE pa OR f) = pa"
  by (rule bit_eqI)
    (use small_bits [OF assms(2)] small_bits [OF assms(3)] aligned_bits [OF assms(1)] in
      \<open>fastforce simp: PTE2PA_def PA2PTE_def bit_simps\<close>)

lemma PTE_FLAGS_PA2PTE:
  assumes "unat f < 2 ^ 10"
  shows "PTE_FLAGS (PA2PTE pa OR f) = f"
proof -
  have m: "(0x3FF :: u64) = mask 10" by (simp add: mask_eq_exp_minus_1)
  show ?thesis
    by (rule bit_eqI)
      (use small_bits [OF assms] in \<open>auto simp: PTE_FLAGS_def m PA2PTE_def bit_simps\<close>)
qed

lemma aligned_PTE2PA [simp]: "aligned (PTE2PA pte)"
proof -
  have "take_bit 12 (PTE2PA pte) = 0"
    by (rule bit_eqI) (simp add: PTE2PA_def bit_simps)
  then show ?thesis by (simp add: aligned_mod take_bit_eq_mod)
qed

lemma PX_bound: "unat (PX level va) < 512"
proof -
  have "(0x1FF :: u64) = mask 9" by (simp add: mask_eq_exp_minus_1)
  then have "PX level va = take_bit 9 (drop_bit (PXSHIFT level) va)"
    by (simp add: PX_def take_bit_eq_mask)
  then have "unat (PX level va) = take_bit 9 (unat (drop_bit (PXSHIFT level) va))"
    by (simp add: unsigned_take_bit_eq)
  then show ?thesis using take_bit_nat_less_exp [of 9] by simp
qed

text \<open>The three indices and the page offset determine a virtual address below \<open>MAXVA\<close>.\<close>

lemma unat_PX: "unat (PX level va) = unat va div 2 ^ (PXSHIFT level) mod 512"
proof -
  have "(0x1FF :: u64) = mask 9" by (simp add: mask_eq_exp_minus_1)
  then have "PX level va = take_bit 9 (drop_bit (PXSHIFT level) va)"
    by (simp add: PX_def take_bit_eq_mask)
  then show ?thesis
    by (simp only: unsigned_take_bit_eq unsigned_drop_bit_eq)
      (simp add: take_bit_eq_mod drop_bit_eq_div unat_bound [THEN order_less_le_trans])
qed

lemma PX_inj:
  assumes "unat a < 2 ^ 39" and "unat b < 2 ^ 39" and "aligned a" and "aligned b"
    and "PX 2 a = PX 2 b" and "PX 1 a = PX 1 b" and "PX 0 a = PX 0 b"
  shows "a = b"
proof -
  have d: "unat x = ((x2 * 512 + x1) * 512 + x0) * 4096"
    if "unat x < 2 ^ 39" "aligned x" "x2 = unat (PX 2 x)" "x1 = unat (PX 1 x)" "x0 = unat (PX 0 x)"
    for x x2 x1 x0
  proof -
    have "unat x = unat x div 4096 * 4096" using that(2) by (auto simp: aligned_def)
    moreover have "unat x div 4096 = unat x div 2097152 * 512 + unat x div 4096 mod 512"
      using div_mult_mod_eq [of "unat x div 4096" 512] by (simp add: div_mult2_eq [symmetric])
    moreover have "unat x div 2097152 = unat x div 1073741824 * 512 + unat x div 2097152 mod 512"
      using div_mult_mod_eq [of "unat x div 2097152" 512] by (simp add: div_mult2_eq [symmetric])
    moreover have "unat x div 1073741824 mod 512 = unat x div 1073741824"
      using that(1) by simp
    ultimately show ?thesis using that(3-5) by (simp add: unat_PX PXSHIFT_def)
  qed
  have "unat a = unat b"
    using d [OF assms(1,3) refl refl refl] d [OF assms(2,4) refl refl refl] assms(5-7) by simp
  then show ?thesis by (rule unsigned_word_eqI)
qed

end
