(* ===== verification/Spinlock.thy ===== *)
theory Spinlock
  imports Prelude
begin

text \<open>
  Spin locks and interrupt nesting: \<open>kernel/spinlock.c\<close>, \<open>kernel/spinlock.h\<close>, the
  per-CPU state of \<open>kernel/proc.h\<close> and the interrupt-enable accessors of
  \<open>kernel/riscv.h\<close>. The lock part of the kernel state is one record \<open>lockstate\<close>, so
  that the other components see a critical section as an update of a single field.
\<close>

section \<open>State\<close>

record cpu =
  cproc :: "nat option"   \<comment> \<open>\<open>struct proc *proc\<close>: index into \<open>proc[]\<close>\<close>
  noff :: int
  intena :: bool

record spinlock =
  locked :: u32
  lname :: string
  lcpu :: "nat option"    \<comment> \<open>\<open>struct cpu *cpu\<close>: index into \<open>cpus[]\<close>\<close>

text \<open>
  \<open>tp\<close> is the hart that executes, \<open>sie\<close> the supervisor interrupt enable bit of each
  hart.
\<close>

record lockstate =
  tp :: nat
  sie :: "nat \<Rightarrow> bool"
  cpus :: "nat \<Rightarrow> cpu"
  locks :: "lockid \<Rightarrow> spinlock"

record machine =
  lks :: lockstate

definition cpu_upd :: "(cpu \<Rightarrow> cpu) \<Rightarrow> lockstate \<Rightarrow> lockstate" where
  "cpu_upd f L = L\<lparr>cpus := (cpus L)(tp L := f (cpus L (tp L)))\<rparr>"

definition lock_upd :: "lockid \<Rightarrow> (spinlock \<Rightarrow> spinlock) \<Rightarrow> lockstate \<Rightarrow> lockstate" where
  "lock_upd lk f L = L\<lparr>locks := (locks L)(lk := f (locks L lk))\<rparr>"

abbreviation thiscpu :: "lockstate \<Rightarrow> cpu" where
  "thiscpu L \<equiv> cpus L (tp L)"

abbreviation lks_mod :: "(lockstate \<Rightarrow> lockstate) \<Rightarrow> ('x machine_scheme, unit) kop" where
  "lks_mod f \<equiv> kmod (\<lambda>s. s\<lparr>lks := f (lks s)\<rparr>)"

section \<open>Operations\<close>

definition r_tp :: "('x machine_scheme, nat) kop" where
  "r_tp = kget (\<lambda>s. tp (lks s))"

definition intr_get :: "('x machine_scheme, bool) kop" where
  "intr_get = kget (\<lambda>s. sie (lks s) (tp (lks s)))"

definition intr_on :: "('x machine_scheme, unit) kop" where
  "intr_on = lks_mod (\<lambda>L. L\<lparr>sie := (sie L)(tp L := True)\<rparr>)"

definition intr_off :: "('x machine_scheme, unit) kop" where
  "intr_off = lks_mod (\<lambda>L. L\<lparr>sie := (sie L)(tp L := False)\<rparr>)"

definition cpuid :: "('x machine_scheme, nat) kop" where
  "cpuid = r_tp"

definition mycpu :: "('x machine_scheme, nat) kop" where
  "mycpu = cpuid"

definition initlock :: "lockid \<Rightarrow> string \<Rightarrow> ('x machine_scheme, unit) kop" where
  "initlock lk name = lks_mod (lock_upd lk (\<lambda>l. l\<lparr>lname := name, locked := 0, lcpu := None\<rparr>))"

definition push_off :: "('x machine_scheme, unit) kop" where
  "push_off =
     kbind intr_get (\<lambda>old.
     kseq intr_off
    (kbind mycpu (\<lambda>c. kbind (kget (\<lambda>s. noff (cpus (lks s) c))) (\<lambda>n.
     kseq (kwhen (n = 0) (lks_mod (cpu_upd (\<lambda>c. c\<lparr>intena := old\<rparr>))))
          (lks_mod (cpu_upd (\<lambda>c. c\<lparr>noff := noff c + 1\<rparr>)))))))"

definition pop_off :: "('x machine_scheme, unit) kop" where
  "pop_off =
     kbind mycpu (\<lambda>c.
     kbind intr_get (\<lambda>i.
     kseq (kcheck (\<not> i) ''pop_off - interruptible'')
    (kbind (kget (\<lambda>s. noff (cpus (lks s) c))) (\<lambda>n.
     kseq (kcheck (\<not> n < 1) ''pop_off'')
    (kseq (lks_mod (cpu_upd (\<lambda>c. c\<lparr>noff := noff c - 1\<rparr>)))
    (kbind (kget (\<lambda>s. noff (cpus (lks s) c) = 0 \<and> intena (cpus (lks s) c))) (\<lambda>b.
     kwhen b intr_on)))))))"

definition holding :: "lockid \<Rightarrow> ('x machine_scheme, bool) kop" where
  "holding lk =
     kbind mycpu (\<lambda>c. kget (\<lambda>s. locked (locks (lks s) lk) \<noteq> 0 \<and> lcpu (locks (lks s) lk) = Some c))"

text \<open>
  The spin loop of \<open>acquire\<close> swaps 1 into \<open>locked\<close> until it reads 0. If the lock
  is taken the outcome is \<open>Spinning\<close>; what the other harts may do meanwhile is the
  subject of the step relation below.
\<close>

definition acquire :: "lockid \<Rightarrow> ('x machine_scheme, unit) kop" where
  "acquire lk =
     kseq push_off
    (kbind (holding lk) (\<lambda>h.
     kseq (kcheck (\<not> h) ''acquire'')
    (kbind (kget (\<lambda>s. locked (locks (lks s) lk))) (\<lambda>old.
     kseq (lks_mod (lock_upd lk (\<lambda>l. l\<lparr>locked := 1\<rparr>)))
    (if old \<noteq> 0 then kstop (Spinning lk)
     else kbind mycpu (\<lambda>c. lks_mod (lock_upd lk (\<lambda>l. l\<lparr>lcpu := Some c\<rparr>))))))))"

definition release :: "lockid \<Rightarrow> ('x machine_scheme, unit) kop" where
  "release lk =
     kbind (holding lk) (\<lambda>h.
     kseq (kcheck h ''release'')
    (kseq (lks_mod (lock_upd lk (\<lambda>l. l\<lparr>lcpu := None\<rparr>)))
    (kseq (lks_mod (lock_upd lk (\<lambda>l. l\<lparr>locked := 0\<rparr>)))
     pop_off)))"

section \<open>Effect of the operations on the lock state\<close>

text \<open>
  \<open>cpu_ok\<close>: nesting depth is not negative, and interrupts are off while it is positive.
  \<open>avail lk\<close>: the lock is free. \<open>held lk\<close>: the executing hart holds it. \<open>settle\<close>
  is the net effect of a balanced pair of critical-section brackets: at depth 0 it
  refreshes the saved interrupt flag, otherwise it changes nothing.
\<close>

definition cpu_ok :: "lockstate \<Rightarrow> bool" where
  "cpu_ok L \<longleftrightarrow> 0 \<le> noff (thiscpu L) \<and> (0 < noff (thiscpu L) \<longrightarrow> \<not> sie L (tp L))"

definition avail :: "lockid \<Rightarrow> lockstate \<Rightarrow> bool" where
  "avail lk L \<longleftrightarrow> cpu_ok L \<and> locked (locks L lk) = 0 \<and> lcpu (locks L lk) = None"

definition held :: "lockid \<Rightarrow> lockstate \<Rightarrow> bool" where
  "held lk L \<longleftrightarrow> cpu_ok L \<and> 0 < noff (thiscpu L) \<and>
     locked (locks L lk) = 1 \<and> lcpu (locks L lk) = Some (tp L)"

definition poff :: "lockstate \<Rightarrow> lockstate" where
  "poff L = cpu_upd (\<lambda>c. c\<lparr>intena := (if noff c = 0 then sie L (tp L) else intena c), noff := noff c + 1\<rparr>)
              (L\<lparr>sie := (sie L)(tp L := False)\<rparr>)"

definition qoff :: "lockstate \<Rightarrow> lockstate" where
  "qoff L = (let L' = cpu_upd (\<lambda>c. c\<lparr>noff := noff c - 1\<rparr>) L in
     if noff (thiscpu L) = 1 \<and> intena (thiscpu L) then L'\<lparr>sie := (sie L')(tp L := True)\<rparr> else L')"

definition acq :: "lockid \<Rightarrow> lockstate \<Rightarrow> lockstate" where
  "acq lk L = lock_upd lk (\<lambda>l. l\<lparr>locked := 1, lcpu := Some (tp L)\<rparr>) (poff L)"

definition rel :: "lockid \<Rightarrow> lockstate \<Rightarrow> lockstate" where
  "rel lk L = qoff (lock_upd lk (\<lambda>l. l\<lparr>lcpu := None, locked := 0\<rparr>) L)"

definition settle :: "lockstate \<Rightarrow> lockstate" where
  "settle L = cpu_upd (\<lambda>c. if noff c = 0 then c\<lparr>intena := sie L (tp L)\<rparr> else c) L"

lemmas lock_effects = poff_def qoff_def acq_def rel_def settle_def cpu_upd_def lock_upd_def
lemmas lock_preds = cpu_ok_def avail_def held_def

named_theorems lock_simps \<open>how lock predicates and effects combine\<close>

lemma cpu_ok_locks [simp]: "cpu_ok (L\<lparr>locks := x\<rparr>) = cpu_ok L"
  by (simp add: cpu_ok_def)

lemma push_off_ok [lock_simps]: "push_off s = Ok () (s\<lparr>lks := poff (lks s)\<rparr>)"
  by (simp add: push_off_def intr_get_def intr_off_def mycpu_def cpuid_def r_tp_def kop_simps
      poff_def cpu_upd_def)

lemma pop_off_ok:
  assumes "cpu_ok (lks s)" and "0 < noff (thiscpu (lks s))"
  shows "pop_off s = Ok () (s\<lparr>lks := qoff (lks s)\<rparr>)"
  using assms
  by (simp add: pop_off_def intr_get_def intr_on_def mycpu_def cpuid_def r_tp_def kop_simps
      qoff_def cpu_upd_def cpu_ok_def Let_def)

lemma acquire_ok [lock_simps]:
  assumes "avail lk (lks s)"
  shows "acquire lk s = Ok () (s\<lparr>lks := acq lk (lks s)\<rparr>)"
  using assms
  by (simp add: acquire_def push_off_ok holding_def mycpu_def cpuid_def r_tp_def kop_simps
      avail_def acq_def poff_def cpu_upd_def lock_upd_def)

lemma release_ok [lock_simps]:
  assumes "held lk (lks s)"
  shows "release lk s = Ok () (s\<lparr>lks := rel lk (lks s)\<rparr>)"
  using assms
  by (simp add: release_def holding_def mycpu_def cpuid_def r_tp_def kop_simps pop_off_ok
      held_def rel_def lock_upd_def)

lemma held_acq [lock_simps]: "avail lk L \<Longrightarrow> held lk (acq lk L)"
  by (simp add: lock_preds lock_effects)

lemma held_acq_other [lock_simps]: "lk \<noteq> lk' \<Longrightarrow> held lk L \<Longrightarrow> held lk (acq lk' L)"
  by (simp add: lock_preds lock_effects)

lemma avail_acq_other: "lk \<noteq> lk' \<Longrightarrow> avail lk (acq lk' L) = (cpu_ok (acq lk' L) \<and> locked (locks L lk) = 0 \<and> lcpu (locks L lk) = None)"
  by (simp add: lock_preds lock_effects)

lemma cpu_ok_acq [lock_simps]: "cpu_ok L \<Longrightarrow> cpu_ok (acq lk L)"
  by (simp add: lock_preds lock_effects)

lemma avail_acq [lock_simps]: "lk \<noteq> lk' \<Longrightarrow> avail lk L \<Longrightarrow> avail lk (acq lk' L)"
  by (simp add: lock_preds lock_effects)

lemma avail_settle [lock_simps]: "avail lk (settle L) = avail lk L"
  by (simp add: lock_preds lock_effects)

lemma held_settle [lock_simps]: "held lk (settle L) = held lk L"
  by (auto simp: lock_preds lock_effects)

lemma cpu_ok_settle [lock_simps]: "cpu_ok (settle L) = cpu_ok L"
  by (simp add: lock_preds lock_effects)

lemma settle_settle [lock_simps]: "settle (settle L) = settle L"
  by (simp add: lock_effects)

lemma settle_nested [lock_simps]: "noff (thiscpu L) \<noteq> 0 \<Longrightarrow> settle L = L"
  by (simp add: lock_effects)

lemma settle_held [lock_simps]: "held lk L \<Longrightarrow> settle L = L"
  by (simp add: held_def settle_nested)

lemma settle_acq [lock_simps]: "cpu_ok L \<Longrightarrow> settle (acq lk L) = acq lk L"
  by (rule settle_nested) (simp add: lock_preds lock_effects)

lemma tp_lock_effects [simp]:
  "tp (acq lk L) = tp L" "tp (rel lk L) = tp L" "tp (settle L) = tp L"
  by (simp_all add: lock_effects Let_def)

lemma locks_settle [simp]: "locks (settle L) = locks L"
  by (simp add: lock_effects)

lemma sie_settle [simp]: "sie (settle L) = sie L"
  by (simp add: lock_effects)

lemma noff_settle [simp]: "noff (cpus (settle L) c) = noff (cpus L c)"
  by (simp add: lock_effects)

lemma cproc_lock_effects [simp]:
  "cproc (cpus (acq lk L) c) = cproc (cpus L c)"
  "cproc (cpus (rel lk L) c) = cproc (cpus L c)"
  "cproc (cpus (settle L) c) = cproc (cpus L c)"
  by (simp_all add: lock_effects Let_def)

text \<open>
  A critical section leaves the lock state as it was, up to \<open>settle\<close>: the lock is free
  again, the nesting depth and the interrupt flag are restored.
\<close>

lemma rel_acq [lock_simps]:
  assumes "avail lk L"
  shows "rel lk (acq lk L) = settle L"
proof -
  have l: "(locks L lk)\<lparr>lcpu := None, locked := 0\<rparr> = locks L lk"
    using assms by (cases "locks L lk") (simp add: avail_def)
  have s: "(sie L)(tp L := True) = sie L" if "sie L (tp L)"
    using that by (simp add: fun_upd_idem)
  have f: "(sie L)(tp L := False) = sie L" if "\<not> sie L (tp L)"
    using that by (simp add: fun_upd_idem)
  show ?thesis
    using assms l s f
    by (cases "thiscpu L") (auto simp: lock_effects lock_preds Let_def fun_upd_idem)
qed

text \<open>Hand-over: taking a second lock and giving up the first one.\<close>

lemma rel_acq_acq [lock_simps]:
  assumes "avail a L" and "a \<noteq> b"
  shows "rel a (acq b (acq a L)) = acq b L"
proof -
  have l: "(locks L a)\<lparr>lcpu := None, locked := 0\<rparr> = locks L a"
    using assms by (cases "locks L a") (simp add: avail_def)
  show ?thesis
    by (rule lockstate.equality)
      (use assms l in \<open>auto simp: lock_effects lock_preds Let_def fun_eq_iff add.commute\<close>)
qed

text \<open>Acquiring a lock the hart already holds, or releasing one it does not, panics.\<close>

lemma acquire_held: "held lk (lks s) \<Longrightarrow> \<exists>t. acquire lk s = Stop (Panicked ''acquire'') t"
  by (simp add: acquire_def push_off_ok holding_def mycpu_def cpuid_def r_tp_def kop_simps
      held_def poff_def cpu_upd_def)

lemma release_not_held:
  "\<not> (locked (locks (lks s) lk) \<noteq> 0 \<and> lcpu (locks (lks s) lk) = Some (tp (lks s))) \<Longrightarrow>
   release lk s = Stop (Panicked ''release'') s"
  by (auto simp add: release_def holding_def mycpu_def cpuid_def r_tp_def kop_simps)

section \<open>Several harts: mutual exclusion\<close>

text \<open>
  The instructions of \<open>acquire\<close> and \<open>release\<close> on one lock, interleaved between any
  number of harts. A hart's program counter says which part of the two functions it has
  completed:
  \<open>Out\<close> (outside), \<open>Pushed\<close> (after \<open>push_off()\<close>), \<open>Spin\<close> (after the
  \<open>holding\<close> check, in the swap loop), \<open>Swapped\<close> (the swap returned 0), \<open>Crit\<close>
  (\<open>lk->cpu\<close> set: inside), \<open>Leaving\<close> (after the \<open>holding\<close> check of
  \<open>release\<close>), \<open>Cleared\<close> (\<open>lk->cpu = 0\<close> done), \<open>Freed\<close> (\<open>locked\<close> swapped
  to 0), and \<open>Dead\<close> (one of the two panics was reached).
\<close>

datatype pc = Out | Pushed | Spin | Swapped | Crit | Leaving | Cleared | Freed | Dead

abbreviation as_hart :: "nat \<Rightarrow> (lockstate \<Rightarrow> lockstate) \<Rightarrow> lockstate \<Rightarrow> lockstate" where
  "as_hart h f L \<equiv> f (L\<lparr>tp := h\<rparr>)"

definition holds :: "lockid \<Rightarrow> nat \<Rightarrow> lockstate \<Rightarrow> bool" where
  "holds lk h L \<longleftrightarrow> locked (locks L lk) \<noteq> 0 \<and> lcpu (locks L lk) = Some h"

inductive hstep :: "lockid \<Rightarrow> lockstate \<times> (nat \<Rightarrow> pc) \<Rightarrow> lockstate \<times> (nat \<Rightarrow> pc) \<Rightarrow> bool"
  for lk where
  push: "p h = Out \<Longrightarrow> hstep lk (L, p) (as_hart h poff L, p(h := Pushed))"
| check: "p h = Pushed \<Longrightarrow>
    hstep lk (L, p) (L\<lparr>tp := h\<rparr>, p(h := (if holds lk h L then Dead else Spin)))"
| swap: "p h = Spin \<Longrightarrow>
    hstep lk (L, p) (as_hart h (lock_upd lk (\<lambda>l. l\<lparr>locked := 1\<rparr>)) L,
                     p(h := (if locked (locks L lk) = 0 then Swapped else Spin)))"
| own: "p h = Swapped \<Longrightarrow>
    hstep lk (L, p) (as_hart h (lock_upd lk (\<lambda>l. l\<lparr>lcpu := Some h\<rparr>)) L, p(h := Crit))"
| leave: "p h = Crit \<Longrightarrow>
    hstep lk (L, p) (L\<lparr>tp := h\<rparr>, p(h := (if holds lk h L then Leaving else Dead)))"
| clear: "p h = Leaving \<Longrightarrow>
    hstep lk (L, p) (as_hart h (lock_upd lk (\<lambda>l. l\<lparr>lcpu := None\<rparr>)) L, p(h := Cleared))"
| free: "p h = Cleared \<Longrightarrow>
    hstep lk (L, p) (as_hart h (lock_upd lk (\<lambda>l. l\<lparr>locked := 0\<rparr>)) L, p(h := Freed))"
| pop: "p h = Freed \<Longrightarrow> hstep lk (L, p) (as_hart h qoff L, p(h := Out))"

inductive hreach :: "lockid \<Rightarrow> lockstate \<times> (nat \<Rightarrow> pc) \<Rightarrow> bool" for lk where
  start: "locked (locks L lk) = 0 \<Longrightarrow> lcpu (locks L lk) = None \<Longrightarrow> \<forall>h. noff (cpus L h) = 0 \<Longrightarrow>
    hreach lk (L, \<lambda>_. Out)"
| step: "hreach lk c \<Longrightarrow> hstep lk c d \<Longrightarrow> hreach lk d"

text \<open>
  The invariant: a hart that has won the swap and not yet given the lock back is alone,
  exactly then \<open>locked\<close> is set; \<open>lk->cpu\<close> names the hart between \<open>own\<close> and
  \<open>clear\<close>; every hart past \<open>push_off\<close> is at depth 1 with interrupts off.
\<close>

primrec owning :: "pc \<Rightarrow> bool" where
  "owning Out = False" | "owning Pushed = False" | "owning Spin = False"
| "owning Swapped = True" | "owning Crit = True" | "owning Leaving = True"
| "owning Cleared = True" | "owning Freed = False" | "owning Dead = False"

primrec named :: "pc \<Rightarrow> bool" where
  "named Out = False" | "named Pushed = False" | "named Spin = False"
| "named Swapped = False" | "named Crit = True" | "named Leaving = True"
| "named Cleared = False" | "named Freed = False" | "named Dead = False"

definition hinv_owner :: "lockid \<Rightarrow> nat option \<Rightarrow> lockstate \<times> (nat \<Rightarrow> pc) \<Rightarrow> bool" where
  "hinv_owner lk ow = (\<lambda>(L, p).
     (\<forall>h. owning (p h) \<longleftrightarrow> ow = Some h) \<and>
     (locked (locks L lk) \<noteq> 0 \<longleftrightarrow> ow \<noteq> None) \<and>
     (\<forall>h. lcpu (locks L lk) = Some h \<longleftrightarrow> named (p h)) \<and>
     (\<forall>h. p h \<noteq> Dead) \<and>
     (\<forall>h. noff (cpus L h) = (if p h = Out then 0 else 1)) \<and>
     (\<forall>h. p h \<noteq> Out \<longrightarrow> \<not> sie L h))"

definition hinv :: "lockid \<Rightarrow> lockstate \<times> (nat \<Rightarrow> pc) \<Rightarrow> bool" where
  "hinv lk c \<longleftrightarrow> (\<exists>ow. hinv_owner lk ow c)"

lemma named_owning: "named q \<Longrightarrow> owning q"
  by (cases q) simp_all

lemma hinv_ownerD:
  assumes "hinv_owner lk ow (L, p)"
  shows "owning (p h) \<longleftrightarrow> ow = Some h" and "named (p h) \<longleftrightarrow> lcpu (locks L lk) = Some h"
    and "locked (locks L lk) \<noteq> 0 \<longleftrightarrow> ow \<noteq> None"
  using assms by (auto simp: hinv_owner_def)

lemma hinv_step:
  assumes "hstep lk c d" and "hinv_owner lk ow c"
  shows "\<exists>ow'. hinv_owner lk ow' d"
  using assms
proof (induction rule: hstep.induct)
  case (push p h L)
  with hinv_ownerD(1,2) [OF push.prems, of h] hinv_ownerD(3) [OF push.prems] have "hinv_owner lk ow (as_hart h poff L, p(h := Pushed))"
    by (auto simp: hinv_owner_def poff_def cpu_upd_def split: if_splits)
  then show ?case ..
next
  case (check p h L)
  note facts = check hinv_ownerD(1,2) [OF check.prems, of h] hinv_ownerD(3) [OF check.prems]
  then have "\<not> holds lk h L" by (auto simp: holds_def)
  with facts have "hinv_owner lk ow (L\<lparr>tp := h\<rparr>, p(h := (if holds lk h L then Dead else Spin)))"
    by (auto simp: hinv_owner_def)
  then show ?case ..
next
  case (swap p h L)
  note facts = swap hinv_ownerD(1,2) [OF swap.prems, of h] hinv_ownerD(3) [OF swap.prems]
  show ?case
  proof (cases "locked (locks L lk) = 0")
    case True
    with facts have "hinv_owner lk (Some h)
        (as_hart h (lock_upd lk (\<lambda>l. l\<lparr>locked := 1\<rparr>)) L,
         p(h := (if locked (locks L lk) = 0 then Swapped else Spin)))"
      by (auto simp: hinv_owner_def lock_upd_def dest: named_owning)
    then show ?thesis ..
  next
    case False
    with facts have "hinv_owner lk ow
        (as_hart h (lock_upd lk (\<lambda>l. l\<lparr>locked := 1\<rparr>)) L,
         p(h := (if locked (locks L lk) = 0 then Swapped else Spin)))"
      by (auto simp: hinv_owner_def lock_upd_def)
    then show ?thesis ..
  qed
next
  case (own p h L)
  note facts = own hinv_ownerD(1,2) [OF own.prems, of h] hinv_ownerD(3) [OF own.prems]
  then have ow: "ow = Some h" by simp
  from facts have "hinv_owner lk (Some h)
      (as_hart h (lock_upd lk (\<lambda>l. l\<lparr>lcpu := Some h\<rparr>)) L, p(h := Crit))"
    by (auto simp: hinv_owner_def lock_upd_def ow dest: named_owning)
  then show ?case ..
next
  case (leave p h L)
  note facts = leave hinv_ownerD(1,2) [OF leave.prems, of h] hinv_ownerD(3) [OF leave.prems]
  then have "holds lk h L" by (auto simp: holds_def)
  with facts have "hinv_owner lk ow (L\<lparr>tp := h\<rparr>, p(h := (if holds lk h L then Leaving else Dead)))"
    by (auto simp: hinv_owner_def)
  then show ?case ..
next
  case (clear p h L)
  note facts = clear hinv_ownerD(1,2) [OF clear.prems, of h] hinv_ownerD(3) [OF clear.prems]
  then have "ow = Some h" by simp
  with facts have "hinv_owner lk (Some h)
      (as_hart h (lock_upd lk (\<lambda>l. l\<lparr>lcpu := None\<rparr>)) L, p(h := Cleared))"
    by (auto simp: hinv_owner_def lock_upd_def dest: named_owning)
  then show ?case ..
next
  case (free p h L)
  note facts = free hinv_ownerD(1,2) [OF free.prems, of h] hinv_ownerD(3) [OF free.prems]
  then have "ow = Some h" by simp
  with facts have "hinv_owner lk None
      (as_hart h (lock_upd lk (\<lambda>l. l\<lparr>locked := 0\<rparr>)) L, p(h := Freed))"
    by (auto simp: hinv_owner_def lock_upd_def)
  then show ?case ..
next
  case (pop p h L)
  with hinv_ownerD(1,2) [OF pop.prems, of h] hinv_ownerD(3) [OF pop.prems] have "hinv_owner lk ow (as_hart h qoff L, p(h := Out))"
    by (auto simp: hinv_owner_def qoff_def cpu_upd_def Let_def split: if_splits)
  then show ?case ..
qed

lemma hreach_hinv: "hreach lk c \<Longrightarrow> hinv lk c"
proof (induction rule: hreach.induct)
  case (start L)
  then have "hinv_owner lk None (L, \<lambda>_. Out)" by (simp add: hinv_owner_def)
  then show ?case unfolding hinv_def ..
next
  case (step c d)
  then show ?case unfolding hinv_def by (blast dest: hinv_step)
qed

text \<open>
  The functions themselves are paths of the step relation: when \<open>acquire\<close> or
  \<open>release\<close> returns, its whole run on one hart is a sequence of the instructions above.
\<close>

lemma tp_idem: "tp L = h \<Longrightarrow> L\<lparr>tp := h\<rparr> = L"
  by auto

lemma acquire_OkD:
  assumes "acquire lk s = Ok () t"
  shows "locked (locks (lks s) lk) = 0"
    and "lks t = lock_upd lk (\<lambda>l. l\<lparr>lcpu := Some (tp (lks s))\<rparr>) (lock_upd lk (\<lambda>l. l\<lparr>locked := 1\<rparr>) (poff (lks s)))"
  using assms
  by (auto simp: acquire_def push_off_ok holding_def mycpu_def cpuid_def r_tp_def kop_simps
      poff_def cpu_upd_def lock_upd_def split: if_splits)

lemma pop_off_OkD: "pop_off s = Ok () t \<Longrightarrow> lks t = qoff (lks s)"
  by (auto simp: pop_off_def intr_get_def intr_on_def mycpu_def cpuid_def r_tp_def kop_simps
      qoff_def cpu_upd_def Let_def split: if_splits)

lemma release_OkD:
  assumes "release lk s = Ok () t"
  shows "holds lk (tp (lks s)) (lks s)"
    and "lks t = qoff (lock_upd lk (\<lambda>l. l\<lparr>locked := 0\<rparr>) (lock_upd lk (\<lambda>l. l\<lparr>lcpu := None\<rparr>) (lks s)))"
  using assms
  by (auto simp: release_def holding_def mycpu_def cpuid_def r_tp_def kop_simps holds_def
      dest: pop_off_OkD split: if_splits)

lemma acquire_run:
  assumes r: "hreach lk (L, p)" and h: "p h = Out" and s: "lks s = L\<lparr>tp := h\<rparr>"
    and ok: "acquire lk s = Ok () t"
  shows "hreach lk (lks t, p(h := Crit))"
proof -
  let ?P = "poff (lks s)" and ?S = "lock_upd lk (\<lambda>l. l\<lparr>locked := 1\<rparr>)"
  have free: "locked (locks ?P lk) = 0" and tp: "tp ?P = h" "tp (?S ?P) = h"
    using acquire_OkD(1) [OF ok] s by (simp_all add: lock_effects)
  have "hreach lk (?P, p(h := Pushed))"
    using hreach.step [OF r hstep.push, of h] h s by simp
  from hreach.step [OF this hstep.check, of h] have "hreach lk (?P, p(h := Spin))"
    using free by (simp add: holds_def tp_idem tp)
  from hreach.step [OF this hstep.swap, of h] have "hreach lk (?S ?P, p(h := Swapped))"
    using free by (simp add: tp_idem tp)
  from hreach.step [OF this hstep.own, of h]
  have "hreach lk (lock_upd lk (\<lambda>l. l\<lparr>lcpu := Some h\<rparr>) (?S ?P), p(h := Crit))"
    by (simp add: tp_idem tp)
  then show ?thesis using acquire_OkD(2) [OF ok] s by simp
qed

lemma release_run:
  assumes r: "hreach lk (L, p)" and h: "p h = Crit" and s: "lks s = L\<lparr>tp := h\<rparr>"
    and ok: "release lk s = Ok () t"
  shows "hreach lk (lks t, p(h := Out))"
proof -
  let ?C = "lock_upd lk (\<lambda>l. l\<lparr>lcpu := None\<rparr>) (lks s)" and ?F = "lock_upd lk (\<lambda>l. l\<lparr>locked := 0\<rparr>)"
  have own: "holds lk h L" and tp: "tp ?C = h" "tp (?F ?C) = h"
    using release_OkD(1) [OF ok] s by (simp_all add: lock_effects holds_def)
  have "hreach lk (lks s, p(h := Leaving))"
    using hreach.step [OF r hstep.leave, of h] h s own by simp
  from hreach.step [OF this hstep.clear, of h] have "hreach lk (?C, p(h := Cleared))"
    using s by simp
  from hreach.step [OF this hstep.free, of h] have "hreach lk (?F ?C, p(h := Freed))"
    by (simp add: tp_idem tp)
  from hreach.step [OF this hstep.pop, of h] show ?thesis
    using release_OkD(2) [OF ok] by (simp add: tp_idem tp)
qed

text \<open>The lock state at boot: nothing locked, interrupts off, no hart inside a section.\<close>

definition boot_locks :: lockstate where
  "boot_locks = \<lparr>tp = 0, sie = (\<lambda>_. False),
     cpus = (\<lambda>_. \<lparr>cproc = None, noff = 0, intena = False\<rparr>),
     locks = (\<lambda>_. \<lparr>locked = 0, lname = [], lcpu = None\<rparr>)\<rparr>"

section \<open>Properties\<close>

text \<open>
  C3: In every interleaving of any number of harts that acquire and release one spin lock,
  at most one hart is between winning the atomic swap and giving the lock back, no hart ever
  reaches the panics of \<open>acquire\<close> or \<open>release\<close>, and a hart inside its critical section
  owns the lock and runs with interrupts off. The runs of the two functions are such
  interleavings: where \<open>acquire\<close> returns, no other hart was inside and the hart now is, and
  where \<open>release\<close> returns, the hart is outside again; both states are reachable ones.
\<close>

theorem spinlock_mutual_exclusion:
  assumes "hreach lk (L, p)"
  shows "(owning (p h) \<and> owning (p h') \<longrightarrow> h = h') \<and> p h \<noteq> Dead \<and>
         (p h = Crit \<longrightarrow> holds lk h L \<and> \<not> sie L h) \<and>
         (p h = Out \<and> lks s = L\<lparr>tp := h\<rparr> \<and> acquire lk s = Ok () t \<longrightarrow>
            \<not> owning (p h') \<and> hreach lk (lks t, p(h := Crit))) \<and>
         (p h = Crit \<and> lks s = L\<lparr>tp := h\<rparr> \<and> release lk s = Ok () t \<longrightarrow>
            hreach lk (lks t, p(h := Out)))"
proof -
  obtain ow where inv: "hinv_owner lk ow (L, p)"
    using hreach_hinv [OF assms] by (auto simp: hinv_def)
  note D = hinv_ownerD [OF inv]
  have "holds lk h L \<and> \<not> sie L h" if "p h = Crit"
    using that D(1,2) [of h] D(3) inv by (auto simp: holds_def hinv_owner_def)
  moreover have "h = h'" if "owning (p h)" "owning (p h')"
    using that D(1) [of h] D(1) [of h'] by simp
  moreover have "\<not> owning (p h')" if "lks s = L\<lparr>tp := h\<rparr>" "acquire lk s = Ok () t"
    using acquire_OkD(1) [OF that(2)] that(1) D(1) [of h'] D(3) by simp
  moreover have "p h \<noteq> Dead" using inv by (simp add: hinv_owner_def)
  ultimately show ?thesis using acquire_run [OF assms] release_run [OF assms] by blast
qed

lemma boot_run:
  "\<exists>L. hreach LkKmem (L, (\<lambda>_. Out)(1 := Crit, 2 := Spin))"
proof -
  let ?p = "\<lambda>_::nat. Out"
  have r0: "hreach LkKmem (boot_locks, ?p)"
    by (rule hreach.start) (simp_all add: boot_locks_def)
  define L1 where "L1 = as_hart 1 poff boot_locks"
  have r1: "hreach LkKmem (L1, ?p(1 := Pushed))"
    unfolding L1_def by (rule hreach.step [OF r0 hstep.push]) simp
  have f1: "locked (locks L1 LkKmem) = 0" by (simp add: L1_def lock_effects boot_locks_def)
  have r2: "hreach LkKmem (L1\<lparr>tp := 1\<rparr>, ?p(1 := Spin))"
    using hreach.step [OF r1 hstep.check, of 1] f1 by (simp add: holds_def)
  define L3 where "L3 = as_hart 1 (lock_upd LkKmem (\<lambda>l. l\<lparr>locked := 1\<rparr>)) (L1\<lparr>tp := 1\<rparr>)"
  have r3: "hreach LkKmem (L3, ?p(1 := Swapped))"
    using hreach.step [OF r2 hstep.swap, of 1] f1 by (simp add: L3_def)
  define L4 where "L4 = as_hart 1 (lock_upd LkKmem (\<lambda>l. l\<lparr>lcpu := Some 1\<rparr>)) L3"
  have r4: "hreach LkKmem (L4, ?p(1 := Crit))"
    using hreach.step [OF r3 hstep.own, of 1] by (simp add: L4_def)
  define L5 where "L5 = as_hart 2 poff L4"
  have r5: "hreach LkKmem (L5, ?p(1 := Crit, 2 := Pushed))"
    using hreach.step [OF r4 hstep.push, of 2] by (simp add: L5_def)
  have "lcpu (locks L5 LkKmem) = Some 1" by (simp add: L5_def L4_def lock_effects)
  then have "hreach LkKmem (L5\<lparr>tp := 2\<rparr>, ?p(1 := Crit, 2 := Spin))"
    using hreach.step [OF r5 hstep.check, of 2] by (simp add: holds_def)
  then show ?thesis by blast
qed

lemma boot_start: "hreach lk (boot_locks, \<lambda>_. Out)"
  by (rule hreach.start) (simp_all add: boot_locks_def)

theorem spinlock_mutual_exclusion_witness:
  "(\<exists>L p. hreach LkKmem (L, p) \<and> p 1 = Crit \<and> p 2 = Spin \<and> holds LkKmem 1 L \<and> \<not> owning (p 2)) \<and>
   (\<exists>t u. acquire LkKmem \<lparr>lks = boot_locks\<lparr>tp := 1\<rparr>\<rparr> = Ok () t \<and> hreach LkKmem (lks t, (\<lambda>_. Out)(1 := Crit)) \<and>
      release LkKmem t = Ok () u \<and> hreach LkKmem (lks u, \<lambda>_. Out))"
proof -
  obtain L where L: "hreach LkKmem (L, (\<lambda>_. Out)(1 := Crit, 2 := Spin))"
    using boot_run by blast
  let ?b = "boot_locks\<lparr>tp := 1\<rparr>"
  let ?t = "\<lparr>lks = acq LkKmem ?b\<rparr> :: machine" and ?u = "\<lparr>lks = rel LkKmem (acq LkKmem ?b)\<rparr> :: machine"
  have a: "avail LkKmem ?b" by (simp add: lock_preds boot_locks_def)
  have t: "acquire LkKmem \<lparr>lks = ?b\<rparr> = Ok () ?t" and u: "release LkKmem ?t = Ok () ?u"
    using a by (simp_all add: acquire_ok release_ok held_acq)
  have id: "(acq LkKmem ?b)\<lparr>tp := 1\<rparr> = acq LkKmem ?b" by (rule tp_idem) simp
  have r: "hreach LkKmem (lks ?t, (\<lambda>_. Out)(1 := Crit))"
    using spinlock_mutual_exclusion [OF boot_start, where h = 1 and lk = LkKmem and s = "\<lparr>lks = ?b\<rparr> :: machine" and t = ?t] t by simp
  have "hreach LkKmem (lks ?u, \<lambda>_. Out)"
    using spinlock_mutual_exclusion [OF r, where h = 1 and s = ?t and t = ?u] u
    by (simp add: id fun_upd_idem)
  with t u r spinlock_mutual_exclusion [OF L, of 1 2] L show ?thesis by fastforce
qed

text \<open>
  C40: A critical section leaves no trace: acquiring a free lock and releasing it succeeds,
  the lock is free again, and the interrupt flag and the nesting depth of the hart are what
  they were.
\<close>

theorem critical_section_balanced:
  assumes "avail lk (lks s)"
  shows "\<exists>L. kseq (acquire lk) (release lk) s = Ok () (s\<lparr>lks := L\<rparr>) \<and> avail lk L \<and>
     locks L = locks (lks s) \<and> sie L = sie (lks s) \<and>
     (\<forall>c. noff (cpus L c) = noff (cpus (lks s) c))"
  using assms by (auto simp: kop_simps lock_simps intro!: exI [of _ "settle (lks s)"])

theorem critical_section_balanced_witness:
  "avail LkLog (lks \<lparr>lks = boot_locks\<rparr>) \<and>
   (\<exists>L. kseq (acquire LkLog) (release LkLog) \<lparr>lks = boot_locks\<rparr> = Ok () (\<lparr>lks = L\<rparr>) \<and> avail LkLog L)"
proof -
  have a: "avail LkLog (lks \<lparr>lks = boot_locks\<rparr>)" by (simp add: lock_preds boot_locks_def)
  from critical_section_balanced [OF a] a show ?thesis by auto
qed

end
