(* ===== verification/Printf.thy ===== *)
theory Printf
  imports Spinlock
begin

text \<open>
  Kernel console output: \<open>kernel/printf.c\<close> with the synchronous character output it
  uses, \<open>consputc\<close> of \<open>kernel/console.c\<close> and \<open>uartputc_sync\<close> of
  \<open>kernel/uart.c\<close>. The UART's transmit register is the list of the bytes written to it.
\<close>

section \<open>State and operations\<close>

record printer = machine +
  panicked :: bool           \<comment> \<open>\<open>volatile int panicked\<close>\<close>
  uart_out :: "byte list"    \<comment> \<open>bytes written to \<open>THR\<close>\<close>
  pr_locking :: bool         \<comment> \<open>\<open>pr.locking\<close>\<close>

text \<open>
  The wait for \<open>LSR_TX_IDLE\<close> reads a device register and has no effect of its own; the
  model writes the byte once the device is ready for it.
\<close>

definition uartputc_sync :: "byte \<Rightarrow> ('x printer_scheme, unit) kop" where
  "uartputc_sync c =
     kseq push_off
    (kbind (kget panicked) (\<lambda>b.
     if b then kstop Hung
     else kseq (kmod (\<lambda>s. s\<lparr>uart_out := uart_out s @ [c]\<rparr>)) pop_off))"

definition BACKSPACE :: int where
  "BACKSPACE = 0x100"

definition consputc :: "int \<Rightarrow> ('x printer_scheme, unit) kop" where
  "consputc c =
     (if c = BACKSPACE
      then kseq (uartputc_sync 8) (kseq (uartputc_sync (chr CHR '' '')) (uartputc_sync 8))
      else uartputc_sync (word_of_int c))"

definition consputs :: "byte list \<Rightarrow> ('x printer_scheme, unit) kop" where
  "consputs cs = kfor cs (\<lambda>c. consputc (uint c))"

text \<open>
  \<open>printint\<close> collects digits least significant first. It is only called with base 10
  and 16; the guard on the base makes the recursion total.
\<close>

definition digits :: "nat \<Rightarrow> byte" where
  "digits d = (bytes ''0123456789abcdef'') ! d"

function printint_digits :: "u32 \<Rightarrow> nat \<Rightarrow> byte list" where
  "printint_digits x base =
     digits (unat x mod base) #
     (if 2 \<le> base \<and> unat x div base \<noteq> 0
      then printint_digits (of_nat (unat x div base)) base else [])"
  by pat_completeness auto
termination
proof (relation "measure (\<lambda>(x, base). unat x)")
  fix x :: u32 and base :: nat
  assume "2 \<le> base \<and> unat x div base \<noteq> 0"
  then have lt: "unat x div base < unat x"
    by (metis div_0 div_less_dividend linorder_not_le nat_less_le not_less_eq_eq numeral_2_eq_2 gr0I One_nat_def)
  then have "unat x div base < 2 ^ LENGTH(32)"
    using unat_bound [of x] by linarith
  then have "unat (of_nat (unat x div base) :: u32) = unat x div base"
    by (simp add: unat_of_nat)
  with lt show "((of_nat (unat x div base), base), x, base) \<in> measure (\<lambda>(x :: u32, base). unat x)"
    by simp
qed simp

declare printint_digits.simps [simp del]

definition printint_buf :: "u32 \<Rightarrow> nat \<Rightarrow> bool \<Rightarrow> byte list" where
  "printint_buf xx base sign =
     (let neg = sign \<and> sint xx < 0;
          x = (if neg then - xx else xx);
          buf = printint_digits x base
      in if neg then buf @ [chr CHR ''-''] else buf)"

definition printint :: "u32 \<Rightarrow> nat \<Rightarrow> bool \<Rightarrow> ('x printer_scheme, unit) kop" where
  "printint xx base sign = consputs (rev (printint_buf xx base sign))"

text \<open>\<open>digits[x >> 60]\<close> for sixteen steps of \<open>x <<= 4\<close>.\<close>

fun printptr_digits :: "nat \<Rightarrow> u64 \<Rightarrow> byte list" where
  "printptr_digits 0 x = []"
| "printptr_digits (Suc n) x = digits (unat (drop_bit 60 x)) # printptr_digits n (push_bit 4 x)"

definition printptr :: "u64 \<Rightarrow> ('x printer_scheme, unit) kop" where
  "printptr x =
     kseq (consputc (uint (chr CHR ''0'')))
    (kseq (consputc (uint (chr CHR ''x'')))
     (consputs (printptr_digits 16 x)))"

text \<open>
  The variable arguments of \<open>printf\<close>. A directive that finds no argument of its type is
  undefined behaviour of \<open>va_arg\<close>.
\<close>

datatype parg = PInt u32 | PPtr u64 | PStr "byte list option"

fun printf_loop :: "byte list \<Rightarrow> parg list \<Rightarrow> ('x printer_scheme, unit) kop" where
  "printf_loop [] ap = kret ()"
| "printf_loop (c # fmt) ap =
     (if c \<noteq> chr CHR ''%'' then kseq (consputc (uint c)) (printf_loop fmt ap)
      else (case fmt of
          [] \<Rightarrow> kret ()
        | d # fmt' \<Rightarrow>
            if d = chr CHR ''d'' then
              (case ap of PInt x # ap' \<Rightarrow> kseq (printint x 10 True) (printf_loop fmt' ap')
                        | _ \<Rightarrow> kstop (Faulted ''va_arg''))
            else if d = chr CHR ''x'' then
              (case ap of PInt x # ap' \<Rightarrow> kseq (printint x 16 True) (printf_loop fmt' ap')
                        | _ \<Rightarrow> kstop (Faulted ''va_arg''))
            else if d = chr CHR ''p'' then
              (case ap of PPtr x # ap' \<Rightarrow> kseq (printptr x) (printf_loop fmt' ap')
                        | _ \<Rightarrow> kstop (Faulted ''va_arg''))
            else if d = chr CHR ''s'' then
              (case ap of PStr x # ap' \<Rightarrow>
                   kseq (consputs (case x of None \<Rightarrow> bytes ''(null)'' | Some cs \<Rightarrow> cs)) (printf_loop fmt' ap')
                        | _ \<Rightarrow> kstop (Faulted ''va_arg''))
            else if d = chr CHR ''%'' then kseq (consputc (uint d)) (printf_loop fmt' ap)
            else kseq (consputc (uint (chr CHR ''%''))) (kseq (consputc (uint d)) (printf_loop fmt' ap))))"

definition printf :: "byte list \<Rightarrow> parg list \<Rightarrow> ('x printer_scheme, unit) kop" where
  "printf fmt ap =
     kbind (kget pr_locking) (\<lambda>locking.
     kseq (kwhen locking (acquire LkPr))
    (kseq (printf_loop fmt ap)
     (kwhen locking (release LkPr))))"

definition printfinit :: "('x printer_scheme, unit) kop" where
  "printfinit = kseq (initlock LkPr ''pr'') (kmod (\<lambda>s. s\<lparr>pr_locking := True\<rparr>))"

text \<open>
  What \<open>panic(s)\<close> leaves behind: the message on the console, lock checks off, and
  \<open>panicked\<close> set, which freezes the output of the other CPUs. The components use
  the outcome \<open>Panicked\<close> for a call of \<open>panic\<close>; this is its effect on the console.
\<close>

definition panic_report :: "byte list \<Rightarrow> ('x printer_scheme, unit) kop" where
  "panic_report msg =
     kseq (kmod (\<lambda>s. s\<lparr>pr_locking := False\<rparr>))
    (kseq (printf (bytes ''panic: '') [])
    (kseq (printf msg [])
    (kseq (printf [10] [])
    (kseq (kmod (\<lambda>s. s\<lparr>panicked := True\<rparr>)) (kstop Hung)))))"

section \<open>The printed text\<close>

text \<open>With the console live, each character reaches the UART, in order.\<close>

definition uart_live :: "'x printer_scheme \<Rightarrow> bool" where
  "uart_live s \<longleftrightarrow> cpu_ok (lks s) \<and> \<not> panicked s"

lemma qoff_poff: "cpu_ok L \<Longrightarrow> qoff (poff L) = settle L"
  by (rule lockstate.equality)
    (auto simp: lock_effects lock_preds Let_def fun_eq_iff fun_upd_idem)

lemma cpu_ok_poff: "cpu_ok L \<Longrightarrow> cpu_ok (poff L) \<and> 0 < noff (thiscpu (poff L))"
  by (simp add: lock_effects lock_preds)

lemma uartputc_sync_ok:
  "uart_live s \<Longrightarrow>
   uartputc_sync c s = Ok () (s\<lparr>lks := settle (lks s), uart_out := uart_out s @ [c]\<rparr>)"
  by (simp add: uartputc_sync_def uart_live_def kop_simps push_off_ok pop_off_ok cpu_ok_poff
      qoff_poff)

lemma consputc_byte:
  "uart_live s \<Longrightarrow>
   consputc (uint (c :: byte)) s = Ok () (s\<lparr>lks := settle (lks s), uart_out := uart_out s @ [c]\<rparr>)"
proof -
  have "uint c < 256" using uint_bound [of c] by simp
  then show "uart_live s \<Longrightarrow> ?thesis"
    by (simp add: consputc_def BACKSPACE_def uartputc_sync_ok)
qed

definition emit :: "byte list \<Rightarrow> 'x printer_scheme \<Rightarrow> 'x printer_scheme" where
  "emit cs s = (if cs = [] then s else s\<lparr>lks := settle (lks s), uart_out := uart_out s @ cs\<rparr>)"

lemma emit_emit: "emit ds (emit cs s) = emit (cs @ ds) s"
  by (simp add: emit_def settle_settle)

lemma emit_Nil [simp]: "emit [] s = s"
  by (simp add: emit_def)

lemma uart_live_emit [simp]: "uart_live (emit cs s) = uart_live s"
  by (simp add: uart_live_def emit_def cpu_ok_settle)

lemma consputc_emit: "uart_live s \<Longrightarrow> consputc (uint (c :: byte)) s = Ok () (emit [c] s)"
  by (simp add: consputc_byte emit_def)

lemma consputs_emit: "uart_live s \<Longrightarrow> consputs cs s = Ok () (emit cs s)"
proof (induction cs arbitrary: s)
  case Nil
  then show ?case by (simp add: consputs_def kop_simps)
next
  case (Cons c cs)
  then show ?case
    using Cons.IH [of "emit [c] s"]
    by (simp add: consputs_def kop_simps consputc_emit emit_emit)
qed

text \<open>The text a format string denotes; \<open>None\<close> where \<open>va_arg\<close> has no argument to give.\<close>

fun fmt_text :: "byte list \<Rightarrow> parg list \<Rightarrow> byte list option" where
  "fmt_text [] ap = Some []"
| "fmt_text (c # fmt) ap =
     (if c \<noteq> chr CHR ''%'' then map_option ((@) [c]) (fmt_text fmt ap)
      else (case fmt of
          [] \<Rightarrow> Some []
        | d # fmt' \<Rightarrow>
            if d = chr CHR ''d'' then
              (case ap of PInt x # ap' \<Rightarrow>
                 map_option ((@) (rev (printint_buf x 10 True))) (fmt_text fmt' ap') | _ \<Rightarrow> None)
            else if d = chr CHR ''x'' then
              (case ap of PInt x # ap' \<Rightarrow>
                 map_option ((@) (rev (printint_buf x 16 True))) (fmt_text fmt' ap') | _ \<Rightarrow> None)
            else if d = chr CHR ''p'' then
              (case ap of PPtr x # ap' \<Rightarrow>
                 map_option ((@) (bytes ''0x'' @ printptr_digits 16 x)) (fmt_text fmt' ap') | _ \<Rightarrow> None)
            else if d = chr CHR ''s'' then
              (case ap of PStr x # ap' \<Rightarrow>
                 map_option ((@) (case x of None \<Rightarrow> bytes ''(null)'' | Some cs \<Rightarrow> cs)) (fmt_text fmt' ap')
               | _ \<Rightarrow> None)
            else if d = chr CHR ''%'' then map_option ((@) [d]) (fmt_text fmt' ap)
            else map_option ((@) [chr CHR ''%'', d]) (fmt_text fmt' ap)))"

lemma printint_emit: "uart_live s \<Longrightarrow> printint x b g s = Ok () (emit (rev (printint_buf x b g)) s)"
  by (simp add: printint_def consputs_emit)

lemma printptr_emit:
  "uart_live s \<Longrightarrow> printptr x s = Ok () (emit (bytes ''0x'' @ printptr_digits 16 x) s)"
  unfolding printptr_def
  by (simp only: kop_simps consputc_emit consputs_emit uart_live_emit kres.case emit_emit)
    (simp add: bytes_def)

lemma printf_loop_emit:
  assumes "fmt_text fmt ap = Some outp" and "uart_live s"
  shows "printf_loop fmt ap s = Ok () (emit outp s)"
  using assms
proof (induction fmt ap arbitrary: outp s rule: fmt_text.induct)
  case (1 ap)
  then show ?case by (simp add: kop_simps)
next
  case (2 c fmt ap)
  show ?case
  proof (cases "c = chr CHR ''%''")
    case False
    with 2 show ?thesis by (auto simp: kop_simps consputc_emit emit_emit simp del: of_char_Char)
  next
    case pct: True
    show ?thesis
    proof (cases fmt)
      case Nil
      with pct 2 show ?thesis by (auto simp: kop_simps)
    next
      case (Cons d fmt')
      show ?thesis
        using "2.prems" pct Cons "2.IH"
        by (auto simp: kop_simps consputc_emit emit_emit printint_emit printptr_emit consputs_emit
            simp del: of_char_Char split: if_splits list.splits parg.splits)
    qed
  qed
qed

section \<open>Numbers\<close>

text \<open>
  \<open>num_val base\<close> reads a digit list back, most significant digit first; \<open>int_val\<close> also
  understands the sign.
\<close>

definition digval :: "byte \<Rightarrow> nat" where
  "digval c = (if c < 58 then unat c - 48 else unat c - 87)"

definition num_val :: "nat \<Rightarrow> byte list \<Rightarrow> nat" where
  "num_val base cs = foldl (\<lambda>n c. n * base + digval c) 0 cs"

definition int_val :: "nat \<Rightarrow> byte list \<Rightarrow> int" where
  "int_val base cs = (case cs of
      c # ds \<Rightarrow> if c = chr CHR ''-'' then - int (num_val base ds) else int (num_val base cs)
    | [] \<Rightarrow> 0)"

lemma digits_cases:
  assumes "d < 16"
  shows "digval (digits d) = d" and "digits d \<noteq> chr CHR ''-''" and "digits d \<noteq> 0"
proof -
  have "\<forall>d\<in>set [0..<16]. digval (digits d) = d \<and> digits d \<noteq> chr CHR ''-'' \<and> digits d \<noteq> 0"
    by (simp add: digval_def digits_def bytes_def upt_rec)
  then show "digval (digits d) = d" and "digits d \<noteq> chr CHR ''-''" and "digits d \<noteq> 0"
    using assms by auto
qed

lemma num_val_snoc: "num_val base (cs @ [c]) = num_val base cs * base + digval c"
  by (simp add: num_val_def)

lemma unat_div_of_nat: "unat (of_nat (unat (x :: u32) div b) :: u32) = unat x div b"
proof -
  have "unat x div b < 2 ^ LENGTH(32)"
    using unat_bound [of x] by (meson div_le_dividend le_less_trans)
  then show ?thesis by (simp add: unat_of_nat)
qed

lemma num_val_printint_digits:
  assumes "2 \<le> base" and "base \<le> 16"
  shows "num_val base (rev (printint_digits x base)) = unat x"
  using assms
proof (induction x base rule: printint_digits.induct)
  case (1 x base)
  have d: "digval (digits (unat x mod base)) = unat x mod base"
  proof (rule digits_cases(1))
    have "unat x mod base < base" using "1.prems" by simp
    then show "unat x mod base < 16" using "1.prems" by linarith
  qed
  show ?case
  proof (cases "unat x div base = 0")
    case True
    then have "unat x mod base = unat x"
      using div_mult_mod_eq [of "unat x" base] by simp
    with True d show ?thesis
      by (subst printint_digits.simps) (simp add: num_val_def)
  next
    case False
    then have "num_val base (rev (printint_digits (of_nat (unat x div base)) base)) = unat x div base"
      using "1.IH" "1.prems" by (simp add: unat_div_of_nat)
    with False "1.prems" d show ?thesis
      by (subst printint_digits.simps) (simp add: num_val_snoc)
  qed
qed

lemma printint_digits_length:
  assumes "2 \<le> base" and "unat x < base ^ k" and "0 < k"
  shows "length (printint_digits x base) \<le> k"
  using assms
proof (induction x base arbitrary: k rule: printint_digits.induct)
  case (1 x base)
  show ?case
  proof (cases "unat x div base = 0")
    case True
    with "1.prems" show ?thesis by (subst printint_digits.simps) simp
  next
    case False
    obtain j where k: "k = Suc j" using "1.prems"(3) by (cases k) auto
    have "unat x div base < base ^ j"
      using "1.prems" k by (simp add: less_mult_imp_div_less mult.commute)
    moreover have "0 < j"
      using calculation False by (cases j) auto
    ultimately have "length (printint_digits (of_nat (unat x div base)) base) \<le> j"
      using "1.IH" "1.prems"(1) False by (simp add: unat_div_of_nat)
    with False "1.prems"(1) k show ?thesis by (subst printint_digits.simps) simp
  qed
qed

lemma printint_digits_chars:
  assumes "2 \<le> base" and "base \<le> 16"
  shows "set (printint_digits x base) \<subseteq> digits ` {..<base}"
  using assms
proof (induction x base rule: printint_digits.induct)
  case (1 x base)
  have "digits (unat x mod base) \<in> digits ` {..<base}"
    using "1.prems" by (intro imageI) simp
  with 1 show ?case
    by (subst printint_digits.simps) auto
qed

lemma unat_uminus_neg:
  fixes x :: u32
  assumes "sint x < 0"
  shows "int (unat (- x)) = - sint x"
proof -
  have "- x = (word_of_int (- sint x) :: u32)" by simp
  then have "uint (- x) = (- sint x) mod 2 ^ 32"
    using uint_word_of_int [where ?'a = 32, of "- sint x"] by simp
  moreover have "0 < - sint x" "- sint x \<le> 2 ^ 31"
    using assms sint_greater_eq [of x] by auto
  ultimately show ?thesis by (simp add: mod_pos_pos_trivial)
qed

lemma unat_sint_nonneg:
  fixes x :: u32
  assumes "\<not> sint x < 0"
  shows "int (unat x) = sint x"
proof -
  have "x = (word_of_int (sint x) :: u32)" by simp
  then have "uint x = sint x mod 2 ^ 32"
    using uint_word_of_int [where ?'a = 32, of "sint x"] by simp
  moreover have "0 \<le> sint x" "sint x < 2 ^ 31"
    using assms sint_less [of x] by auto
  ultimately show ?thesis by (simp add: mod_pos_pos_trivial)
qed

section \<open>Properties\<close>

lemma num_val_buf_cons:
  assumes "2 \<le> base" and "base \<le> 16"
  shows "int_val base (rev (printint_digits x base)) = int (unat x)"
proof -
  obtain c ds where r: "rev (printint_digits x base) = c # ds"
    by (metis list.exhaust printint_digits.simps rev_is_Nil_conv list.distinct(1))
  then have "c \<in> set (printint_digits x base)" by (metis list.set_intros(1) set_rev)
  then obtain d where "d < base" "c = digits d"
    using printint_digits_chars [OF assms, of x] by auto
  then have "c \<noteq> chr CHR ''-''" using digits_cases(2) [of d] assms by simp
  then show ?thesis
    using num_val_printint_digits [OF assms, of x] r by (simp add: int_val_def)
qed

text \<open>
  C37: Reading back what \<open>printint\<close> prints for \<open>%d\<close> gives the signed value, for every
  32-bit argument including the smallest one; the digits never overflow the 16-byte buffer.
\<close>

theorem printint_decimal_roundtrip:
  "int_val 10 (rev (printint_buf xx 10 True)) = sint xx \<and> length (printint_buf xx 10 True) \<le> 11"
proof -
  have len: "length (printint_digits x 10) \<le> 10" for x
    using unat_bound [of x] by (intro printint_digits_length) simp_all
  have "int_val 10 (rev (printint_buf xx 10 True)) = sint xx"
  proof (cases "sint xx < 0")
    case True
    then show ?thesis
      using num_val_printint_digits [of 10 "- xx"] unat_uminus_neg [OF True]
      by (simp add: printint_buf_def int_val_def del: of_nat_unat)
  next
    case False
    then have "int (unat xx) = sint xx"
      using unat_sint_nonneg by simp
    with False show ?thesis
      by (simp add: printint_buf_def num_val_buf_cons del: of_nat_unat)
  qed
  moreover have "length (printint_buf xx 10 True) \<le> 11"
    using len [of xx] len [of "- xx"] by (simp add: printint_buf_def Let_def)
  ultimately show ?thesis ..
qed



end
