(* ===== verification/Kalloc.thy ===== *)
theory Kalloc
  imports Riscv Printf
begin

text \<open>
  The physical page allocator, \<open>kernel/kalloc.c\<close>. The free list is threaded through the
  free pages themselves: the first eight bytes of a free page hold the address of the next
  one. \<open>kend\<close> is the linker symbol \<open>end\<close>, the first address after the kernel.
\<close>

section \<open>State and operations\<close>

record kmem = printer +
  mem :: memory        \<comment> \<open>physical memory\<close>
  freelist :: addr     \<comment> \<open>\<open>kmem.freelist\<close>, 0 for the null pointer\<close>
  kend :: addr

definition kfree :: "addr \<Rightarrow> ('x kmem_scheme, unit) kop" where
  "kfree pa =
     kbind (kget kend) (\<lambda>e.
     kseq (kcheck (\<not> (pa mod PGSIZE \<noteq> 0 \<or> pa < e \<or> pa \<ge> PHYSTOP)) ''kfree'')
    (kseq (kmod (\<lambda>s. s\<lparr>mem := memset (mem s) pa 1 (unat PGSIZE)\<rparr>))
    (kseq (acquire LkKmem)
    (kseq (kmod (\<lambda>s. s\<lparr>mem := store64 (mem s) pa (freelist s)\<rparr>))
    (kseq (kmod (\<lambda>s. s\<lparr>freelist := pa\<rparr>))
     (release LkKmem))))))"

definition kalloc :: "('x kmem_scheme, addr) kop" where
  "kalloc =
     kseq (acquire LkKmem)
    (kbind (kget freelist) (\<lambda>r.
     kseq (kwhen (r \<noteq> 0) (kmod (\<lambda>s. s\<lparr>freelist := load64 (mem s) r\<rparr>)))
    (kseq (release LkKmem)
    (kseq (kwhen (r \<noteq> 0) (kmod (\<lambda>s. s\<lparr>mem := memset (mem s) r 5 (unat PGSIZE)\<rparr>)))
     (kret r)))))"

text \<open>
  The loop of \<open>freerange\<close>. An address at or beyond \<open>PHYSTOP\<close> makes \<open>kfree\<close>
  panic, so the loop ends for every \<open>pa_end\<close>.
\<close>

lemma kfree_Ok_bound: "kfree p s = Ok a t \<Longrightarrow> p < PHYSTOP"
  by (auto simp: kfree_def kop_simps split: if_splits)

function freerange_loop :: "addr \<Rightarrow> addr \<Rightarrow> ('x kmem_scheme, unit) kop" where
  "freerange_loop p pa_end s =
     (if p + PGSIZE \<le> pa_end
      then kbind (kfree p) (\<lambda>_. freerange_loop (p + PGSIZE) pa_end) s
      else Ok () s)"
  by pat_completeness auto
termination
proof (relation "measure (\<lambda>(p, pa_end, s). unat (PHYSTOP + PGSIZE) - unat p)")
  fix p pa_end :: addr and s :: "'x kmem_scheme" and a t
  assume "kfree p s = Ok a t"
  then have "unat p < unat PHYSTOP"
    by (auto dest: kfree_Ok_bound simp: word_less_nat_alt)
  then show "((p + PGSIZE, pa_end, t), p, pa_end, s)
      \<in> measure (\<lambda>(p, pa_end, s). unat (PHYSTOP + PGSIZE) - unat p)"
    by (simp add: unat_plus_if')
qed simp

declare freerange_loop.simps [simp del]

definition freerange :: "addr \<Rightarrow> addr \<Rightarrow> ('x kmem_scheme, unit) kop" where
  "freerange pa_start pa_end = freerange_loop (PGROUNDUP pa_start) pa_end"

definition kinit :: "('x kmem_scheme, unit) kop" where
  "kinit = kseq (initlock LkKmem ''kmem'') (kbind (kget kend) (\<lambda>e. freerange e PHYSTOP))"

section \<open>The free list\<close>

text \<open>
  \<open>flist m p xs\<close>: following the links in memory \<open>m\<close> from \<open>p\<close> visits the pages
  \<open>xs\<close> and ends. \<open>kmem_ok s xs\<close>: the free list of \<open>s\<close> is \<open>xs\<close>, all of them
  distinct pages the allocator manages.
\<close>

primrec flist :: "memory \<Rightarrow> addr \<Rightarrow> addr list \<Rightarrow> bool" where
  "flist m p [] \<longleftrightarrow> p = 0"
| "flist m p (x # xs) \<longleftrightarrow> p = x \<and> x \<noteq> 0 \<and> flist m (load64 m x) xs"

definition page_ok :: "addr \<Rightarrow> addr \<Rightarrow> bool" where
  "page_ok e p \<longleftrightarrow> aligned p \<and> e \<le> p \<and> p < PHYSTOP \<and> p \<noteq> 0"

definition kmem_ok :: "'x kmem_scheme \<Rightarrow> addr list \<Rightarrow> bool" where
  "kmem_ok s xs \<longleftrightarrow>
     flist (mem s) (freelist s) xs \<and> distinct xs \<and> (\<forall>x\<in>set xs. page_ok (kend s) x)"

lemma flist_unique: "flist m p xs \<Longrightarrow> flist m p ys \<Longrightarrow> xs = ys"
proof (induction xs arbitrary: p ys)
  case Nil
  then show ?case by (cases ys) auto
next
  case (Cons x xs)
  then show ?case by (cases ys) auto
qed

lemma flist_0 [simp]: "flist m 0 xs \<longleftrightarrow> xs = []"
  by (cases xs) auto

lemma load64_page:
  assumes "aligned p" and "\<And>x. in_page p x \<Longrightarrow> m x = m' x"
  shows "load64 m p = load64 m' p"
  using load64_page_cong [of p 0 m m'] assms by simp

lemma flist_frame:
  assumes "flist m p xs" and "\<And>q x. q \<in> set xs \<Longrightarrow> in_page q x \<Longrightarrow> m x = m' x"
    and "\<forall>q\<in>set xs. aligned q"
  shows "flist m' p xs"
  using assms
proof (induction xs arbitrary: p)
  case Nil
  then show ?case by simp
next
  case (Cons y ys)
  have "load64 m y = load64 m' y"
    using Cons.prems by (intro load64_page) auto
  with Cons show ?case by auto
qed

text \<open>Two different pages share no byte.\<close>

lemma pages_disjoint: "aligned p \<Longrightarrow> aligned q \<Longrightarrow> p \<noteq> q \<Longrightarrow> in_page p x \<Longrightarrow> \<not> in_page q x"
  using in_page_unique by blast

lemma store64_page_frame: "aligned p \<Longrightarrow> \<not> in_page p x \<Longrightarrow> store64 m p v x = m x"
  using store64_frame [of p 0 x m v] by simp

section \<open>Correctness\<close>

text \<open>
  \<open>kfree\<close> of a managed page that is not free pushes it on the free list and changes no
  other page; \<open>kalloc\<close> pops the first page and fills it with 5s, or returns the null
  pointer when there is none.
\<close>

lemma kfree_eq:
  assumes "avail LkKmem (lks s)" and "page_ok (kend s) pa"
  shows "kfree pa s = Ok () (s\<lparr>lks := settle (lks s),
    mem := store64 (memset (mem s) pa 1 4096) pa (freelist s), freelist := pa\<rparr>)"
  using assms
  by (simp add: kfree_def kop_simps page_ok_def aligned_mod lock_simps not_less not_le)

lemma kalloc_eq:
  assumes "avail LkKmem (lks s)"
  shows "kalloc s = (if freelist s = 0 then Ok 0 (s\<lparr>lks := settle (lks s)\<rparr>)
     else Ok (freelist s) (s\<lparr>lks := settle (lks s), freelist := load64 (mem s) (freelist s),
       mem := memset (mem s) (freelist s) 5 4096\<rparr>))"
  using assms by (simp add: kalloc_def kop_simps lock_simps)

lemma kfree_ok:
  assumes "kmem_ok s xs" and "avail LkKmem (lks s)" and "page_ok (kend s) pa" and "pa \<notin> set xs"
  obtains t where "kfree pa s = Ok () t" and "kmem_ok t (pa # xs)" and "lks t = settle (lks s)"
    and "\<And>x. \<not> in_page pa x \<Longrightarrow> mem t x = mem s x"
proof -
  let ?m = "store64 (memset (mem s) pa 1 4096) pa (freelist s)"
  let ?t = "s\<lparr>lks := settle (lks s), mem := ?m, freelist := pa\<rparr>"
  have al: "aligned pa" "\<forall>q\<in>set xs. aligned q"
    using assms(1,3) by (auto simp: kmem_ok_def page_ok_def)
  have fr: "?m x = mem s x" if "\<not> in_page pa x" for x
    using al(1) that by (simp add: store64_page_frame memset_page)
  have "flist ?m (freelist s) xs"
  proof (rule flist_frame)
    show "flist (mem s) (freelist s) xs" using assms(1) by (simp add: kmem_ok_def)
    show "mem s x = ?m x" if "q \<in> set xs" "in_page q x" for q x
      using that al assms(4) fr [of x] pages_disjoint [of q pa x] by fastforce
  qed (use al in auto)
  then have "kmem_ok ?t (pa # xs)"
    using assms(1,3,4) by (simp add: kmem_ok_def page_ok_def)
  then show ?thesis
    using that [of ?t] kfree_eq [OF assms(2,3)] fr by simp
qed

lemma kalloc_ok:
  assumes "kmem_ok s (x # xs)" and "avail LkKmem (lks s)"
  obtains t where "kalloc s = Ok x t" and "kmem_ok t xs" and "lks t = settle (lks s)"
    and "\<And>y. \<not> in_page x y \<Longrightarrow> mem t y = mem s y" and "\<And>y. in_page x y \<Longrightarrow> mem t y = 5"
proof -
  let ?m = "memset (mem s) x 5 4096"
  let ?t = "s\<lparr>lks := settle (lks s), freelist := load64 (mem s) x, mem := ?m\<rparr>"
  have x: "freelist s = x" "x \<noteq> 0" "x \<notin> set xs"
    and al: "aligned x" "\<forall>q\<in>set xs. aligned q"
    using assms(1) by (auto simp: kmem_ok_def page_ok_def)
  have fr: "?m y = (if in_page x y then 5 else mem s y)" for y
    using al(1) by (simp add: memset_page)
  have "flist ?m (load64 (mem s) x) xs"
  proof (rule flist_frame)
    show "flist (mem s) (load64 (mem s) x) xs" using assms(1) by (auto simp: kmem_ok_def)
    show "mem s y = ?m y" if "q \<in> set xs" "in_page q y" for q y
      using that al x(3) fr [of y] pages_disjoint [of q x y] by fastforce
  qed (use al in auto)
  then have "kmem_ok ?t xs"
    using assms(1) by (simp add: kmem_ok_def)
  then show ?thesis
    using that [of ?t] kalloc_eq [OF assms(2)] fr x by simp
qed

lemma kalloc_empty:
  assumes "kmem_ok s []" and "avail LkKmem (lks s)"
  shows "kalloc s = Ok 0 (s\<lparr>lks := settle (lks s)\<rparr>)"
  using assms kalloc_eq [OF assms(2)] by (simp add: kmem_ok_def)

text \<open>\<open>kfree\<close> checks its argument: anything but a managed page panics and frees nothing.\<close>

lemma kfree_bad:
  "pa mod PGSIZE \<noteq> 0 \<or> pa < kend s \<or> pa \<ge> PHYSTOP \<Longrightarrow> kfree pa s = Stop (Panicked ''kfree'') s"
  by (auto simp: kfree_def kop_simps)

section \<open>Boot: the initial free list\<close>

text \<open>The pages from \<open>p\<close> upwards, \<open>n\<close> of them.\<close>

definition page_range :: "addr \<Rightarrow> nat \<Rightarrow> addr list" where
  "page_range p n = map (\<lambda>i. p + of_nat (4096 * i)) [0..<n]"

lemma page_range_Suc: "page_range p (Suc n) = p # page_range (p + PGSIZE) n"
proof -
  have "[0..<Suc n] = 0 # map Suc [0..<n]" by (simp add: upt_conv_Cons map_Suc_upt del: upt_Suc)
  then show ?thesis by (simp add: page_range_def algebra_simps del: upt_Suc)
qed

lemma freerange_loop_ok:
  assumes "unat p + 4096 * n \<le> unat pa_end" and "unat pa_end < unat p + 4096 * n + 4096"
    and "pa_end \<le> PHYSTOP" and "aligned p" and "kend s \<le> p" and "p \<noteq> 0"
    and "kmem_ok s xs" and "\<forall>x\<in>set xs. x < p" and "avail LkKmem (lks s)"
  shows "\<exists>t. freerange_loop p pa_end s = Ok () t \<and> kmem_ok t (rev (page_range p n) @ xs) \<and>
     kend t = kend s"
  using assms
proof (induction n arbitrary: p s xs)
  case 0
  have "unat pa_end \<le> 2281701376" using "0.prems"(3) by (simp add: word_le_nat_alt)
  then have "unat (p + PGSIZE) = unat p + 4096"
    using "0.prems"(1) by (simp add: unat_plus_if')
  then have "\<not> p + PGSIZE \<le> pa_end" using "0.prems"(2) by (simp add: word_le_nat_alt)
  then show ?case
    using "0.prems" by (subst freerange_loop.simps) (simp add: page_range_def)
next
  case (Suc n)
  have e: "unat pa_end \<le> 2281701376" using Suc.prems(3) by (simp add: word_le_nat_alt)
  then have u: "unat (p + PGSIZE) = unat p + 4096"
    using Suc.prems(1) by (simp add: unat_plus_if')
  have le: "p + PGSIZE \<le> pa_end" using Suc.prems(1) u by (simp add: word_le_nat_alt)
  have pg: "page_ok (kend s) p"
    using Suc.prems(1,4,5,6) e by (simp add: page_ok_def word_less_nat_alt)
  have notin: "p \<notin> set xs" using Suc.prems(8) by auto
  obtain t where t: "kfree p s = Ok () t" "kmem_ok t (p # xs)" "lks t = settle (lks s)"
    using kfree_ok [OF Suc.prems(7,9) pg notin] by metis
  have ke: "kend t = kend s"
    using kfree_eq [OF Suc.prems(9) pg] t(1) by auto
  have "\<exists>u. freerange_loop (p + PGSIZE) pa_end t = Ok () u \<and>
      kmem_ok u (rev (page_range (p + PGSIZE) n) @ p # xs) \<and> kend u = kend t"
  proof (rule Suc.IH)
    show "aligned (p + PGSIZE)" using Suc.prems(4) by (simp add: aligned_def u)
    show "kend t \<le> p + PGSIZE"
      using Suc.prems(5) u by (simp add: ke word_le_nat_alt)
    show "p + PGSIZE \<noteq> 0" using u by (metis add_is_0 unat_0 zero_neq_numeral)
    show "\<forall>x\<in>set (p # xs). x < p + PGSIZE"
      using Suc.prems(8) u by (auto simp: word_less_nat_alt)
    show "avail LkKmem (lks t)" using Suc.prems(9) t(3) by (simp add: lock_simps)
  qed (use Suc.prems u t in auto)
  then show ?case
    using le t(1) ke by (subst freerange_loop.simps) (auto simp: kop_simps page_range_Suc)
qed

text \<open>Initialisation of the lock makes it available.\<close>

lemma initlock_ok:
  "initlock lk name s =
     Ok () (s\<lparr>lks := lock_upd lk (\<lambda>l. l\<lparr>lname := name, locked := 0, lcpu := None\<rparr>) (lks s)\<rparr>)"
  by (simp add: initlock_def kop_simps)

lemma avail_initlock:
  "cpu_ok L \<Longrightarrow> avail lk (lock_upd lk (\<lambda>l. l\<lparr>lname := name, locked := 0, lcpu := None\<rparr>) L)"
  by (simp add: lock_upd_def avail_def)

section \<open>The allocator's interface\<close>

text \<open>
  What the clients of the allocator rely on, with the free pages as a list: an allocation
  takes the first page and touches no other page, a deallocation puts a page back.
\<close>

locale page_allocator =
  fixes alloc :: "('s, addr) kop"
    and dealloc :: "addr \<Rightarrow> ('s, unit) kop"
    and free_pages :: "'s \<Rightarrow> addr list \<Rightarrow> bool"
    and ready :: "'s \<Rightarrow> bool"
    and manages :: "'s \<Rightarrow> addr \<Rightarrow> bool"
    and ram :: "'s \<Rightarrow> memory"
  assumes alloc_page:
      "free_pages s (x # xs) \<Longrightarrow> ready s \<Longrightarrow>
       \<exists>t. alloc s = Ok x t \<and> free_pages t xs \<and> ready t \<and>
         (\<forall>y. \<not> in_page x y \<longrightarrow> ram t y = ram s y) \<and> (\<forall>p. manages t p = manages s p)"
    and alloc_none:
      "free_pages s [] \<Longrightarrow> ready s \<Longrightarrow> \<exists>t. alloc s = Ok 0 t \<and> free_pages t [] \<and> ready t \<and> ram t = ram s"
    and dealloc_page:
      "free_pages s xs \<Longrightarrow> ready s \<Longrightarrow> manages s p \<Longrightarrow> p \<notin> set xs \<Longrightarrow>
       \<exists>t. dealloc p s = Ok () t \<and> free_pages t (p # xs) \<and> ready t \<and>
         (\<forall>y. \<not> in_page p y \<longrightarrow> ram t y = ram s y) \<and> (\<forall>q. manages t q = manages s q)"
    and free_managed: "free_pages s xs \<Longrightarrow> x \<in> set xs \<Longrightarrow> manages s x"
    and free_distinct: "free_pages s xs \<Longrightarrow> distinct xs"
begin

text \<open>\<open>alloc_n n\<close> allocates \<open>n\<close> pages one after the other.\<close>

primrec alloc_n :: "nat \<Rightarrow> ('s, addr list) kop" where
  "alloc_n 0 = kret []"
| "alloc_n (Suc n) = kbind alloc (\<lambda>x. kbind (alloc_n n) (\<lambda>ys. kret (x # ys)))"

text \<open>Pages handed out without being returned are pairwise different, and no longer free.\<close>

lemma alloc_n_ok:
  assumes "free_pages s (xs @ ys)" and "ready s"
  shows "\<exists>t. alloc_n (length xs) s = Ok xs t \<and> free_pages t ys \<and> ready t \<and>
     (\<forall>y. (\<forall>x\<in>set xs. \<not> in_page x y) \<longrightarrow> ram t y = ram s y)"
  using assms
proof (induction xs arbitrary: s)
  case Nil
  then show ?case by (auto simp: kop_simps)
next
  case (Cons x xs)
  then obtain u where u: "alloc s = Ok x u" "free_pages u (xs @ ys)" "ready u"
      "\<forall>y. \<not> in_page x y \<longrightarrow> ram u y = ram s y"
    using alloc_page [of s x "xs @ ys"] by auto
  from Cons.IH [OF u(2,3)] obtain t where t: "alloc_n (length xs) u = Ok xs t" "free_pages t ys" "ready t"
      "\<forall>y. (\<forall>x\<in>set xs. \<not> in_page x y) \<longrightarrow> ram t y = ram u y"
    by auto
  with u show ?case by (auto simp: kop_simps)
qed

lemma alloc_n_distinct:
  assumes "free_pages s (xs @ ys)" and "ready s" and "alloc_n (length xs) s = Ok zs t"
  shows "distinct zs \<and> set zs \<inter> set ys = {} \<and> (\<forall>z\<in>set zs. manages s z)"
proof -
  have "zs = xs" using alloc_n_ok [OF assms(1,2)] assms(3) by auto
  then show ?thesis
    using free_distinct [OF assms(1)] free_managed [OF assms(1)] by auto
qed

text \<open>Freeing the page just allocated gives the old free list back.\<close>

lemma dealloc_alloc:
  assumes "free_pages s (x # xs)" and "ready s"
  shows "\<exists>t. kbind alloc dealloc s = Ok () t \<and> free_pages t (x # xs) \<and> ready t \<and>
     (\<forall>y. \<not> in_page x y \<longrightarrow> ram t y = ram s y)"
proof -
  obtain u where u: "alloc s = Ok x u" "free_pages u xs" "ready u"
      "\<forall>y. \<not> in_page x y \<longrightarrow> ram u y = ram s y" "\<forall>p. manages u p = manages s p"
    using alloc_page [OF assms] by auto
  have "manages u x" "x \<notin> set xs"
    using free_managed [OF assms(1), of x] free_distinct [OF assms(1)] u(5) by auto
  from dealloc_page [OF u(2,3) this] show ?thesis
    using u by (auto simp: kop_simps)
qed

end

text \<open>\<open>kalloc\<close> and \<open>kfree\<close> provide it.\<close>

interpretation kpages: page_allocator kalloc kfree kmem_ok
  "\<lambda>s. avail LkKmem (lks s)" "\<lambda>s. page_ok (kend s)" mem
proof unfold_locales
  fix s :: "'x kmem_scheme" and x xs
  assume a: "kmem_ok s (x # xs)" "avail LkKmem (lks s)"
  obtain t where t: "kalloc s = Ok x t" "kmem_ok t xs" "lks t = settle (lks s)"
      "\<And>y. \<not> in_page x y \<Longrightarrow> mem t y = mem s y"
    using kalloc_ok [OF a] by metis
  moreover have "kend t = kend s"
    using kalloc_eq [OF a(2)] t(1) by (auto split: if_splits)
  ultimately show "\<exists>t. kalloc s = Ok x t \<and> kmem_ok t xs \<and> avail LkKmem (lks t) \<and>
      (\<forall>y. \<not> in_page x y \<longrightarrow> mem t y = mem s y) \<and> (\<forall>p. page_ok (kend t) p = page_ok (kend s) p)"
    using a(2) by (auto simp: lock_simps)
next
  fix s :: "'x kmem_scheme"
  assume "kmem_ok s []" "avail LkKmem (lks s)"
  then show "\<exists>t. kalloc s = Ok 0 t \<and> kmem_ok t [] \<and> avail LkKmem (lks t) \<and> mem t = mem s"
    using kalloc_empty [of s] by (auto simp: kmem_ok_def lock_simps)
next
  fix s :: "'x kmem_scheme" and xs p
  assume a: "kmem_ok s xs" "avail LkKmem (lks s)" "page_ok (kend s) p" "p \<notin> set xs"
  obtain t where t: "kfree p s = Ok () t" "kmem_ok t (p # xs)" "lks t = settle (lks s)"
      "\<And>y. \<not> in_page p y \<Longrightarrow> mem t y = mem s y"
    using kfree_ok [OF a] by metis
  moreover have "kend t = kend s"
    using kfree_eq [OF a(2,3)] t(1) by auto
  ultimately show "\<exists>t. kfree p s = Ok () t \<and> kmem_ok t (p # xs) \<and> avail LkKmem (lks t) \<and>
      (\<forall>y. \<not> in_page p y \<longrightarrow> mem t y = mem s y) \<and> (\<forall>q. page_ok (kend t) q = page_ok (kend s) q)"
    using a(2) by (auto simp: lock_simps)
qed (auto simp: kmem_ok_def)

text \<open>A machine at boot whose kernel ends just below the last page.\<close>

definition boot_kmem :: kmem where
  "boot_kmem = \<lparr>lks = boot_locks, panicked = False, uart_out = [], pr_locking = False,
     mem = (\<lambda>_. 0), freelist = 0, kend = 0x87fff123\<rparr>"

section \<open>Properties\<close>

text \<open>
  C16: Booting the allocator frees every whole page between the end of the kernel and the
  top of memory, highest page first, and nothing else.
\<close>

theorem kinit_frees_all_pages:
  assumes "cpu_ok (lks s)" and "freelist s = 0" and "KERNBASE \<le> kend s" and "kend s \<le> PHYSTOP"
  shows "\<exists>t. kinit s = Ok () t \<and>
    kmem_ok t (rev (page_range (PGROUNDUP (kend s)) ((unat PHYSTOP - unat (PGROUNDUP (kend s))) div 4096)))"
proof -
  let ?L = "lock_upd LkKmem (\<lambda>l. l\<lparr>lname := ''kmem'', locked := 0, lcpu := None\<rparr>) (lks s)"
  let ?s = "s\<lparr>lks := ?L\<rparr>" and ?p = "PGROUNDUP (kend s)"
  have b: "2147483648 \<le> unat (kend s)" "unat (kend s) \<le> 2281701376"
    using assms(3,4) by (simp_all add: word_le_nat_alt)
  have "?p = PGROUNDDOWN (kend s + 4095)" by (simp add: PGROUNDUP_def PGROUNDDOWN_def add.commute)
  then have u: "unat ?p = (unat (kend s) + 4095) div 4096 * 4096"
    using b by (simp add: unat_PGROUNDDOWN unat_plus_if')
  then have al: "aligned ?p" and lo: "unat (kend s) \<le> unat ?p" and hi: "unat ?p \<le> 2281701376"
    using b by (simp_all add: aligned_def)
  let ?n = "(2281701376 - unat ?p) div 4096"
  have "\<exists>t. freerange_loop ?p PHYSTOP ?s = Ok () t \<and> kmem_ok t (rev (page_range ?p ?n) @ []) \<and>
      kend t = kend ?s"
  proof (rule freerange_loop_ok)
    have "4096 * ?n \<le> 2281701376 - unat ?p" "2281701376 - unat ?p < 4096 * ?n + 4096"
      by simp_all
    with hi have "unat ?p + 4096 * ?n \<le> 2281701376" "2281701376 < unat ?p + 4096 * ?n + 4096"
      by linarith+
    then show "unat ?p + 4096 * ?n \<le> unat PHYSTOP" "unat PHYSTOP < unat ?p + 4096 * ?n + 4096"
      by simp_all
    show "?p \<noteq> 0" using lo b by (metis not_numeral_le_zero le_trans unat_0)
    show "avail LkKmem (lks ?s)" using assms(1) by (simp add: avail_initlock)
    show "kmem_ok ?s []" using assms(2) by (simp add: kmem_ok_def)
  qed (use al lo in \<open>simp_all add: word_le_nat_alt\<close>)
  then show ?thesis
    by (auto simp: kinit_def kop_simps initlock_ok freerange_def)
qed

theorem kinit_frees_all_pages_witness:
  "\<exists>t. kinit boot_kmem = Ok () t \<and> kmem_ok t []"
proof -
  have "cpu_ok (lks boot_kmem)" "freelist boot_kmem = 0" "KERNBASE \<le> kend boot_kmem"
      "kend boot_kmem \<le> PHYSTOP"
    by (simp_all add: boot_kmem_def boot_locks_def cpu_ok_def)
  from kinit_frees_all_pages [OF this] show ?thesis
    by (simp add: boot_kmem_def PGROUNDUP_def page_range_def)
qed

text \<open>
  C17: Allocating a page and freeing it again succeeds, gives back the same free list, and
  changes no byte outside that page.
\<close>

theorem kalloc_kfree_roundtrip:
  assumes "kmem_ok s (x # xs)" and "avail LkKmem (lks s)"
  shows "\<exists>t. kbind kalloc kfree s = Ok () t \<and> kmem_ok t (x # xs) \<and> avail LkKmem (lks t) \<and>
     (\<forall>y. \<not> in_page x y \<longrightarrow> mem t y = mem s y)"
  using kpages.dealloc_alloc [OF assms] .

definition one_page :: kmem where
  "one_page = boot_kmem\<lparr>freelist := 0x87fff000, kend := 0x87ff0000\<rparr>"

theorem kalloc_kfree_roundtrip_witness:
  "kmem_ok one_page [0x87fff000] \<and>
   (\<exists>t. kbind kalloc kfree one_page = Ok () t \<and> kmem_ok t [0x87fff000])"
proof -
  have k: "kmem_ok one_page [0x87fff000]"
    by (simp add: kmem_ok_def one_page_def boot_kmem_def page_ok_def aligned_def load64_zero)
  have "avail LkKmem (lks one_page)"
    by (simp add: one_page_def boot_kmem_def boot_locks_def lock_preds)
  from kalloc_kfree_roundtrip [OF k this] k show ?thesis by auto
qed

text \<open>
  C18: Pages allocated one after the other without being freed are pairwise different pages
  of managed memory, and none of them is still on the free list.
\<close>

theorem kalloc_pages_distinct:
  assumes "kmem_ok s (x # y # zs)" and "avail LkKmem (lks s)"
  shows "\<exists>t. kbind kalloc (\<lambda>p. kbind kalloc (\<lambda>q. kret (p, q))) s = Ok (x, y) t \<and> kmem_ok t zs \<and>
     x \<noteq> y \<and> x \<notin> set zs \<and> y \<notin> set zs \<and> page_ok (kend s) x \<and> page_ok (kend s) y"
proof -
  have n: "length [x, y] = Suc (Suc 0)" by simp
  have f: "kmem_ok s ([x, y] @ zs)" using assms(1) by simp
  obtain t where t: "kpages.alloc_n (Suc (Suc 0)) s = Ok [x, y] t" "kmem_ok t zs"
    using kpages.alloc_n_ok [OF f assms(2)] by auto
  have "distinct [x, y] \<and> set [x, y] \<inter> set zs = {} \<and> (\<forall>z\<in>set [x, y]. page_ok (kend s) z)"
    by (rule kpages.alloc_n_distinct [OF f assms(2), unfolded n, OF t(1)])
  moreover have "kbind kalloc (\<lambda>p. kbind kalloc (\<lambda>q. kret (p, q))) s = Ok (x, y) t"
    using t(1) by (auto simp: kop_simps split: kres.splits)
  ultimately show ?thesis using t(2) by auto
qed

definition two_pages :: kmem where
  "two_pages = one_page\<lparr>mem := store64 (\<lambda>_. 0) 0x87fff000 0x87ffe000\<rparr>"

theorem kalloc_pages_distinct_witness:
  "\<exists>t. kbind kalloc (\<lambda>p. kbind kalloc (\<lambda>q. kret (p, q))) two_pages =
     Ok (0x87fff000, 0x87ffe000) t \<and> kmem_ok t []"
proof -
  have z: "load64 (store64 (\<lambda>_. 0) 0x87fff000 v) 0x87ffe000 = load64 (\<lambda>_. 0) 0x87ffe000" for v
    by (rule load64_page) (auto simp: aligned_def store64_def in_page_def unat_sub_if' word_le_nat_alt)
  have "kmem_ok two_pages [0x87fff000, 0x87ffe000]"
    by (simp add: kmem_ok_def two_pages_def one_page_def boot_kmem_def page_ok_def aligned_def z load64_zero)
  moreover have "avail LkKmem (lks two_pages)"
    by (simp add: two_pages_def one_page_def boot_kmem_def boot_locks_def lock_preds)
  ultimately show ?thesis using kalloc_pages_distinct [of two_pages] by blast
qed

end
