(* ===== verification/Vm.thy ===== *)
theory Vm
  imports Kalloc
begin

text \<open>
  Virtual memory, \<open>kernel/vm.c\<close>: the three-level Sv39 page tables, kept in physical
  memory and walked by the code, the operations that build, shrink, copy and free address
  spaces, and the copies between kernel and user memory. A buffer in the kernel that is the
  source of a copy is passed as the list of its bytes; a buffer that is the destination is
  returned as the list of the bytes stored into it.
\<close>

section \<open>State and operations\<close>

record vm = kmem +
  kernel_pagetable :: addr
  etext :: addr             \<comment> \<open>linker symbol: end of the kernel text\<close>
  trampoline :: addr        \<comment> \<open>linker symbol: page of \<open>trampoline.S\<close>\<close>
  satp :: "nat \<Rightarrow> u64"      \<comment> \<open>page-table register of each hart\<close>

abbreviation mem_mod :: "(memory \<Rightarrow> memory) \<Rightarrow> ('x kmem_scheme, unit) kop" where
  "mem_mod f \<equiv> kmod (\<lambda>s. s\<lparr>mem := f (mem s)\<rparr>)"

abbreviation mem_load :: "addr \<Rightarrow> ('x kmem_scheme, u64) kop" where
  "mem_load a \<equiv> kget (\<lambda>s. load64 (mem s) a)"

text \<open>The bytes \<open>bs\<close> of a kernel buffer moved to address \<open>a\<close>, and \<open>n\<close> bytes from \<open>a\<close>.\<close>

definition mem_write :: "memory \<Rightarrow> addr \<Rightarrow> byte list \<Rightarrow> memory" where
  "mem_write m a bs = (\<lambda>x. if unat (x - a) < length bs then bs ! unat (x - a) else m x)"

definition mem_read :: "memory \<Rightarrow> addr \<Rightarrow> nat \<Rightarrow> byte list" where
  "mem_read m a n = map (\<lambda>i. m (a + of_nat i)) [0..<n]"

text \<open>
  One iteration of the loop of \<open>walk\<close>: the next lower table, or \<open>None\<close> where the code
  returns the null pointer.
\<close>

definition walk_step :: "nat \<Rightarrow> addr \<Rightarrow> u64 \<Rightarrow> bool \<Rightarrow> ('x kmem_scheme, addr option) kop" where
  "walk_step level pagetable va alloc =
     (let pte = pagetable + of_nat (8 * unat (PX level va)) in
      kbind (mem_load pte) (\<lambda>e.
      if e AND PTE_V \<noteq> 0 then kret (Some (PTE2PA e))
      else if \<not> alloc then kret None
      else kbind kalloc (\<lambda>p.
        if p = 0 then kret None
        else kseq (mem_mod (\<lambda>m. memset m p 0 (unat PGSIZE)))
            (kseq (mem_mod (\<lambda>m. store64 m pte (PA2PTE p OR PTE_V)))
             (kret (Some p))))))"

primrec walk_loop :: "nat \<Rightarrow> addr \<Rightarrow> u64 \<Rightarrow> bool \<Rightarrow> ('x kmem_scheme, addr) kop" where
  "walk_loop 0 pagetable va alloc = kret (pagetable + of_nat (8 * unat (PX 0 va)))"
| "walk_loop (Suc level) pagetable va alloc =
     kbind (walk_step (Suc level) pagetable va alloc) (\<lambda>r. case r of
       None \<Rightarrow> kret 0
     | Some p \<Rightarrow> walk_loop level p va alloc)"

definition walk :: "addr \<Rightarrow> u64 \<Rightarrow> bool \<Rightarrow> ('x kmem_scheme, addr) kop" where
  "walk pagetable va alloc =
     kseq (kcheck (\<not> va \<ge> MAXVA) ''walk'') (walk_loop 2 pagetable va alloc)"

definition walkaddr :: "addr \<Rightarrow> u64 \<Rightarrow> ('x kmem_scheme, u64) kop" where
  "walkaddr pagetable va =
     (if va \<ge> MAXVA then kret 0
      else kbind (walk pagetable va False) (\<lambda>pte.
        if pte = 0 then kret 0
        else kbind (mem_load pte) (\<lambda>e.
          if e AND PTE_V = 0 then kret 0
          else if e AND PTE_U = 0 then kret 0
          else kret (PTE2PA e))))"

text \<open>
  \<open>walk\<close> panics at \<open>MAXVA\<close>, so the loops over pages end whatever their bounds are.
\<close>

lemma walk_Ok_bound: "walk pt va alloc s = Ok r t \<Longrightarrow> va < MAXVA"
  by (auto simp: walk_def kop_simps not_le split: if_splits)

lemma page_measure:
  assumes "a < MAXVA"
  shows "unat (MAXVA + PGSIZE) - unat (a + PGSIZE) < unat (MAXVA + PGSIZE) - unat a"
proof -
  have "unat a < 274877906944" using assms by (simp add: word_less_nat_alt)
  then show ?thesis by (simp add: unat_plus_if')
qed

function mappages_loop :: "addr \<Rightarrow> u64 \<Rightarrow> u64 \<Rightarrow> u64 \<Rightarrow> u64 \<Rightarrow> ('x kmem_scheme, int) kop" where
  "mappages_loop pagetable a la pa perm s =
     kbind (walk pagetable a True) (\<lambda>pte.
       if pte = 0 then kret (-1)
       else kbind (mem_load pte) (\<lambda>e.
         kseq (kcheck (e AND PTE_V = 0) ''mappages: remap'')
        (kseq (mem_mod (\<lambda>m. store64 m pte (PA2PTE pa OR perm OR PTE_V)))
        (if a = la then kret 0
         else mappages_loop pagetable (a + PGSIZE) la (pa + PGSIZE) perm)))) s"
  by pat_completeness auto
termination
  by (relation "measure (\<lambda>(pt, a, la, pa, perm, s). unat (MAXVA + PGSIZE) - unat a)")
    (use page_measure walk_Ok_bound in fastforce)+

declare mappages_loop.simps [simp del]

definition mappages :: "addr \<Rightarrow> u64 \<Rightarrow> u64 \<Rightarrow> u64 \<Rightarrow> u64 \<Rightarrow> ('x kmem_scheme, int) kop" where
  "mappages pagetable va sz pa perm =
     kseq (kcheck (sz \<noteq> 0) ''mappages: size'')
      (mappages_loop pagetable (PGROUNDDOWN va) (PGROUNDDOWN (va + sz - 1)) pa perm)"

definition kvmmap :: "addr \<Rightarrow> u64 \<Rightarrow> u64 \<Rightarrow> u64 \<Rightarrow> u64 \<Rightarrow> ('x kmem_scheme, unit) kop" where
  "kvmmap kpgtbl va pa sz perm =
     kbind (mappages kpgtbl va sz pa perm) (\<lambda>r. kcheck (r = 0) ''kvmmap'')"

function uvmunmap_loop :: "addr \<Rightarrow> u64 \<Rightarrow> u64 \<Rightarrow> bool \<Rightarrow> ('x kmem_scheme, unit) kop" where
  "uvmunmap_loop pagetable a en do_free s =
     (if a < en then
        kbind (walk pagetable a False) (\<lambda>pte.
          kseq (kcheck (pte \<noteq> 0) ''uvmunmap: walk'')
         (kbind (mem_load pte) (\<lambda>e.
          kseq (kcheck (e AND PTE_V \<noteq> 0) ''uvmunmap: not mapped'')
         (kseq (kcheck (PTE_FLAGS e \<noteq> PTE_V) ''uvmunmap: not a leaf'')
         (kseq (kwhen do_free (kfree (PTE2PA e)))
         (kseq (mem_mod (\<lambda>m. store64 m pte 0))
         (uvmunmap_loop pagetable (a + PGSIZE) en do_free))))))) s
      else Ok () s)"
  by pat_completeness auto
termination
  by (relation "measure (\<lambda>(pt, a, e, f, s). unat (MAXVA + PGSIZE) - unat a)")
    (use page_measure walk_Ok_bound in fastforce)+

declare uvmunmap_loop.simps [simp del]

definition uvmunmap :: "addr \<Rightarrow> u64 \<Rightarrow> u64 \<Rightarrow> bool \<Rightarrow> ('x kmem_scheme, unit) kop" where
  "uvmunmap pagetable va npages do_free =
     kseq (kcheck (va mod PGSIZE = 0) ''uvmunmap: not aligned'')
      (uvmunmap_loop pagetable va (va + npages * PGSIZE) do_free)"

definition uvmcreate :: "('x kmem_scheme, addr) kop" where
  "uvmcreate =
     kbind kalloc (\<lambda>pagetable.
       if pagetable = 0 then kret 0
       else kseq (mem_mod (\<lambda>m. memset m pagetable 0 (unat PGSIZE))) (kret pagetable))"

text \<open>\<open>src\<close> holds the \<open>sz\<close> bytes of the initial program.\<close>

definition uvmfirst :: "addr \<Rightarrow> byte list \<Rightarrow> u32 \<Rightarrow> ('x kmem_scheme, unit) kop" where
  "uvmfirst pagetable src sz =
     kseq (kcheck (\<not> ucast sz \<ge> PGSIZE) ''uvmfirst: more than a page'')
    (kbind kalloc (\<lambda>p.
     kseq (mem_mod (\<lambda>m. memset m p 0 (unat PGSIZE)))
    (kseq (mappages pagetable 0 PGSIZE p (PTE_W OR PTE_R OR PTE_X OR PTE_U))
          (mem_mod (\<lambda>m. mem_write m p (take (unat sz) src))))))"

text \<open>The page count passes through a C \<open>int\<close>.\<close>

definition uvmdealloc :: "addr \<Rightarrow> u64 \<Rightarrow> u64 \<Rightarrow> ('x kmem_scheme, u64) kop" where
  "uvmdealloc pagetable oldsz newsz =
     (if newsz \<ge> oldsz then kret oldsz
      else kseq (kwhen (PGROUNDUP newsz < PGROUNDUP oldsz)
          (let npages = scast (ucast ((PGROUNDUP oldsz - PGROUNDUP newsz) div PGSIZE) :: 32 word)
           in uvmunmap pagetable (PGROUNDUP newsz) npages True))
        (kret newsz))"

lemma mappages_loop_Ok_bound: "mappages_loop pt a la pa perm s = Ok r t \<Longrightarrow> a < MAXVA"
  by (subst (asm) mappages_loop.simps)
    (auto simp: kbind_apply walk_def kcheck_apply not_le split: if_splits kres.splits)

lemma mappages_Ok_bound: "mappages pt a sz pa perm s = Ok r t \<Longrightarrow> PGROUNDDOWN a < MAXVA"
  by (auto simp: mappages_def kop_simps dest: mappages_loop_Ok_bound split: if_splits)

lemma page_measure_down:
  assumes "PGROUNDDOWN a < MAXVA"
  shows "unat (MAXVA + 2 * PGSIZE) - unat (a + PGSIZE) < unat (MAXVA + 2 * PGSIZE) - unat a"
proof -
  have "unat (PGROUNDDOWN a) < 274877906944" using assms by (simp add: word_less_nat_alt)
  then have "unat a < 274877906944 + 4096"
    using in_page_PGROUNDDOWN [of a] by (simp add: in_page_def)
  then show ?thesis by (simp add: unat_plus_if')
qed

function uvmalloc_loop :: "addr \<Rightarrow> u64 \<Rightarrow> u64 \<Rightarrow> u64 \<Rightarrow> u64 \<Rightarrow> ('x kmem_scheme, u64) kop" where
  "uvmalloc_loop pagetable a oldsz newsz xperm s =
     (if a < newsz then
        kbind kalloc (\<lambda>p.
          if p = 0 then kseq (uvmdealloc pagetable a oldsz) (kret 0)
          else kseq (mem_mod (\<lambda>m. memset m p 0 (unat PGSIZE)))
           (kbind (mappages pagetable a PGSIZE p (PTE_R OR PTE_U OR xperm)) (\<lambda>r.
            if r \<noteq> 0 then kseq (kfree p) (kseq (uvmdealloc pagetable a oldsz) (kret 0))
            else uvmalloc_loop pagetable (a + PGSIZE) oldsz newsz xperm))) s
      else Ok newsz s)"
  by pat_completeness auto
termination
  by (relation "measure (\<lambda>(pt, a, old, new, xp, s). unat (MAXVA + 2 * PGSIZE) - unat a)")
    (use page_measure_down mappages_Ok_bound in fastforce)+

declare uvmalloc_loop.simps [simp del]

definition uvmalloc :: "addr \<Rightarrow> u64 \<Rightarrow> u64 \<Rightarrow> u64 \<Rightarrow> ('x kmem_scheme, u64) kop" where
  "uvmalloc pagetable oldsz newsz xperm =
     (if newsz < oldsz then kret oldsz
      else uvmalloc_loop pagetable (PGROUNDUP oldsz) (PGROUNDUP oldsz) newsz xperm)"

text \<open>
  \<open>freewalk\<close> recurses through whatever tree the entries describe. The fuel counts the
  levels; a page table has three.
\<close>

primrec freewalk :: "nat \<Rightarrow> addr \<Rightarrow> ('x kmem_scheme, unit) kop" where
  "freewalk 0 pagetable = kstop Hung"
| "freewalk (Suc levels) pagetable =
     kseq (kfor [0..<512] (\<lambda>i.
       let slot = pagetable + of_nat (8 * i) in
       kbind (mem_load slot) (\<lambda>pte.
         if pte AND PTE_V \<noteq> 0 \<and> pte AND (PTE_R OR PTE_W OR PTE_X) = 0
         then kseq (freewalk levels (PTE2PA pte)) (mem_mod (\<lambda>m. store64 m slot 0))
         else kcheck (pte AND PTE_V = 0) ''freewalk: leaf'')))
      (kfree pagetable)"

definition uvmfree :: "addr \<Rightarrow> u64 \<Rightarrow> ('x kmem_scheme, unit) kop" where
  "uvmfree pagetable sz =
     kseq (kwhen (sz > 0) (uvmunmap pagetable 0 (PGROUNDUP sz div PGSIZE) True))
      (freewalk 3 pagetable)"

text \<open>
  The body of \<open>uvmcopy\<close> from the label \<open>err\<close> on: the code jumps back to it when the
  mapping cannot be added again. The fuel counts the jumps.
\<close>

primrec uvmcopy_err :: "nat \<Rightarrow> addr \<Rightarrow> u64 \<Rightarrow> u64 \<Rightarrow> u64 \<Rightarrow> ('x kmem_scheme, unit) kop" where
  "uvmcopy_err 0 old i pa flags = kstop Hung"
| "uvmcopy_err (Suc n) old i pa flags =
     kseq (uvmunmap old i PGSIZE False)
    (kbind (mappages old i PGSIZE pa flags) (\<lambda>r.
     if r \<noteq> 0 then uvmcopy_err n old i pa flags else kret ()))"

function uvmcopy_loop :: "addr \<Rightarrow> addr \<Rightarrow> u64 \<Rightarrow> u64 \<Rightarrow> ('x kmem_scheme, int) kop" where
  "uvmcopy_loop old new i sz s =
     (if i < sz then
        kbind (walk old i False) (\<lambda>pte.
          kseq (kcheck (pte \<noteq> 0) ''uvmcopy: pte should exist'')
         (kbind (mem_load pte) (\<lambda>e.
          kseq (kcheck (e AND PTE_V \<noteq> 0) ''uvmcopy: page not present'')
         (let pa = PTE2PA e; flags = (PTE_FLAGS e OR PTE_R) AND NOT PTE_W in
          kseq (mappages new i PGSIZE pa flags)
         (kseq (uvmcopy_err 2 old i pa flags)
          (uvmcopy_loop old new (i + PGSIZE) sz)))))) s
      else Ok (-1) s)"
  by pat_completeness auto
termination
  by (relation "measure (\<lambda>(old, new, i, sz, s). unat (MAXVA + PGSIZE) - unat i)")
    (use page_measure walk_Ok_bound in fastforce)+

declare uvmcopy_loop.simps [simp del]

definition uvmcopy :: "addr \<Rightarrow> addr \<Rightarrow> u64 \<Rightarrow> ('x kmem_scheme, int) kop" where
  "uvmcopy old new sz = uvmcopy_loop old new 0 sz"

definition uvmclear :: "addr \<Rightarrow> u64 \<Rightarrow> ('x kmem_scheme, unit) kop" where
  "uvmclear pagetable va =
     kbind (walk pagetable va False) (\<lambda>pte.
     kseq (kcheck (pte \<noteq> 0) ''uvmclear'')
      (mem_mod (\<lambda>m. store64 m pte (load64 m pte AND NOT PTE_U))))"

text \<open>The bytes from \<open>va\<close> to the end of its page, at least one.\<close>

definition page_room :: "u64 \<Rightarrow> nat" where
  "page_room va = unat (PGSIZE - (va - PGROUNDDOWN va))"

lemma page_room_eq: "page_room va = 4096 - unat va mod 4096"
proof -
  have le: "PGROUNDDOWN va \<le> va" by (simp add: word_le_nat_alt unat_PGROUNDDOWN)
  have "unat (va - PGROUNDDOWN va) = unat va mod 4096"
    by (simp add: unat_diff_le [OF le] unat_PGROUNDDOWN minus_div_mult_eq_mod)
  moreover have "unat va mod 4096 < 4096" by simp
  ultimately show ?thesis
    by (simp add: page_room_def unat_sub_if' del: mod_less_divisor)
qed

lemma page_room_pos: "0 < page_room va"
  by (simp add: page_room_eq)

function copyout :: "addr \<Rightarrow> u64 \<Rightarrow> byte list \<Rightarrow> ('x kmem_scheme, int) kop" where
  "copyout pagetable dstva src s =
     (if src = [] then Ok 0 s
      else let va0 = PGROUNDDOWN dstva; n = min (page_room dstva) (length src) in
        kbind (walkaddr pagetable va0) (\<lambda>pa0.
          if pa0 = 0 then kret (-1)
          else kseq (mem_mod (\<lambda>m. mem_write m (pa0 + (dstva - va0)) (take n src)))
            (copyout pagetable (va0 + PGSIZE) (drop n src))) s)"
  by pat_completeness auto
termination
  by (relation "measure (\<lambda>(pt, va, src, s). length src)") (use page_room_pos in auto)

declare copyout.simps [simp del]

text \<open>The result of \<open>copyin\<close> and the bytes it stored from the start of \<open>dst\<close>.\<close>

function copyin :: "addr \<Rightarrow> u64 \<Rightarrow> nat \<Rightarrow> ('x kmem_scheme, int \<times> byte list) kop" where
  "copyin pagetable srcva len s =
     (if len = 0 then Ok (0, []) s
      else let va0 = PGROUNDDOWN srcva; n = min (page_room srcva) len in
        kbind (walkaddr pagetable va0) (\<lambda>pa0.
          if pa0 = 0 then kret (-1, [])
          else kbind (kget (\<lambda>s. mem_read (mem s) (pa0 + (srcva - va0)) n)) (\<lambda>bs.
            kbind (copyin pagetable (va0 + PGSIZE) (len - n)) (\<lambda>(r, more).
            kret (r, bs @ more)))) s)"
  by pat_completeness auto
termination
  by (relation "measure (\<lambda>(pt, va, len, s). len)") (use page_room_pos in auto)

declare copyin.simps [simp del]

text \<open>
  The inner loop of \<open>copyinstr\<close>: whether it met the NUL within \<open>n\<close> bytes of \<open>p\<close>, and
  the bytes it stored.
\<close>

fun copyinstr_page :: "memory \<Rightarrow> addr \<Rightarrow> nat \<Rightarrow> bool \<times> byte list" where
  "copyinstr_page m p 0 = (False, [])"
| "copyinstr_page m p (Suc n) =
     (if m p = 0 then (True, [0])
      else let (got_null, bs) = copyinstr_page m (p + 1) n in (got_null, m p # bs))"

function copyinstr :: "addr \<Rightarrow> u64 \<Rightarrow> nat \<Rightarrow> ('x kmem_scheme, int \<times> byte list) kop" where
  "copyinstr pagetable srcva mx s =
     (if mx = 0 then Ok (-1, []) s
      else let va0 = PGROUNDDOWN srcva; n = min (page_room srcva) mx in
        kbind (walkaddr pagetable va0) (\<lambda>pa0.
          if pa0 = 0 then kret (-1, [])
          else kbind (kget (\<lambda>s. copyinstr_page (mem s) (pa0 + (srcva - va0)) n)) (\<lambda>(got_null, bs).
            if got_null then kret (0, bs)
            else kbind (copyinstr pagetable (va0 + PGSIZE) (mx - n)) (\<lambda>(r, more).
              kret (r, bs @ more)))) s)"
  by pat_completeness auto
termination
  by (relation "measure (\<lambda>(pt, va, mx, s). mx)") (use page_room_pos in auto)

declare copyinstr.simps [simp del]

section \<open>The kernel's page table\<close>

abbreviation (input) UART0 :: u64 where "UART0 \<equiv> 0x10000000"
abbreviation (input) VIRTIO0 :: u64 where "VIRTIO0 \<equiv> 0x10001000"
abbreviation (input) PLIC :: u64 where "PLIC \<equiv> 0x0c000000"

definition MAKE_SATP :: "addr \<Rightarrow> u64" where
  "MAKE_SATP pagetable = push_bit 60 8 OR drop_bit 12 pagetable"

definition proc_mapstacks :: "addr \<Rightarrow> ('x kmem_scheme, unit) kop" where
  "proc_mapstacks kpgtbl =
     kfor [0..<NPROC] (\<lambda>p.
       kbind kalloc (\<lambda>pa.
       kseq (kcheck (pa \<noteq> 0) ''kalloc'')
        (kvmmap kpgtbl (KSTACK p) pa PGSIZE (PTE_R OR PTE_W))))"

definition kvmmake :: "('x vm_scheme, addr) kop" where
  "kvmmake =
     kbind (kget etext) (\<lambda>et. kbind (kget trampoline) (\<lambda>tr.
     kbind kalloc (\<lambda>kpgtbl.
     kseq (mem_mod (\<lambda>m. memset m kpgtbl 0 (unat PGSIZE)))
    (kseq (kvmmap kpgtbl UART0 UART0 PGSIZE (PTE_R OR PTE_W))
    (kseq (kvmmap kpgtbl VIRTIO0 VIRTIO0 PGSIZE (PTE_R OR PTE_W))
    (kseq (kvmmap kpgtbl PLIC PLIC 0x400000 (PTE_R OR PTE_W))
    (kseq (kvmmap kpgtbl KERNBASE KERNBASE (et - KERNBASE) (PTE_R OR PTE_X))
    (kseq (kvmmap kpgtbl et et (PHYSTOP - et) (PTE_R OR PTE_W))
    (kseq (kvmmap kpgtbl TRAMPOLINE tr PGSIZE (PTE_R OR PTE_X))
    (kseq (proc_mapstacks kpgtbl)
     (kret kpgtbl)))))))))))"

definition kvminit :: "('x vm_scheme, unit) kop" where
  "kvminit = kbind kvmmake (\<lambda>k. kmod (\<lambda>s. s\<lparr>kernel_pagetable := k\<rparr>))"

definition kvminithart :: "('x vm_scheme, unit) kop" where
  "kvminithart =
     kmod (\<lambda>s. s\<lparr>satp := (satp s)(tp (lks s) := MAKE_SATP (kernel_pagetable s))\<rparr>)"

end
