(* ===== verification/Vm_Walk.thy ===== *)
theory Vm_Walk
  imports Vm
begin

text \<open>
  Page tables as trees. A path is the list of indices taken from the root, last index
  first; \<open>tpage\<close> is the table page a path leads to. A well-formed table reaches every
  page by one path only. Its meaning is the function \<open>leafpte\<close> from virtual pages to
  page-table entries, and the lemmas state \<open>walk\<close>, \<open>mappages\<close> and \<open>uvmunmap\<close>
  as operations on that function.
\<close>

section \<open>Tables as trees\<close>

definition entry :: "memory \<Rightarrow> addr \<Rightarrow> nat \<Rightarrow> u64" where
  "entry m p i = load64 m (p + of_nat (8 * i))"

primrec tpage :: "memory \<Rightarrow> addr \<Rightarrow> nat list \<Rightarrow> addr option" where
  "tpage m root [] = Some root"
| "tpage m root (i # is) = (case tpage m root is of
       None \<Rightarrow> None
     | Some p \<Rightarrow> if entry m p i AND PTE_V \<noteq> 0 then Some (PTE2PA (entry m p i)) else None)"

definition paths :: "nat list set" where
  "paths = {is. length is \<le> 2 \<and> set is \<subseteq> {..<512}}"

definition pt_pages :: "memory \<Rightarrow> addr \<Rightarrow> addr set" where
  "pt_pages m root = {p. \<exists>is\<in>paths. tpage m root is = Some p}"

definition pt_wf :: "memory \<Rightarrow> addr \<Rightarrow> bool" where
  "pt_wf m root \<longleftrightarrow> aligned root \<and>
     (\<forall>is\<in>paths. \<forall>js\<in>paths. \<forall>p. tpage m root is = Some p \<longrightarrow> tpage m root js = Some p \<longrightarrow> is = js)"

definition leaf_path :: "u64 \<Rightarrow> nat list" where
  "leaf_path va = [unat (PX 1 va), unat (PX 2 va)]"

definition leafpte :: "memory \<Rightarrow> addr \<Rightarrow> u64 \<Rightarrow> u64" where
  "leafpte m root va = (case tpage m root (leaf_path va) of
     None \<Rightarrow> 0 | Some p \<Rightarrow> entry m p (unat (PX 0 va)))"

lemma leaf_path_paths [simp]: "leaf_path va \<in> paths" "length (leaf_path va) = 2"
  using PX_bound by (auto simp: leaf_path_def paths_def)

lemma Nil_paths [simp]: "[] \<in> paths"
  by (simp add: paths_def)

lemma paths_ConsD: "i # is \<in> paths \<Longrightarrow> is \<in> paths \<and> i < 512 \<and> length is \<le> 1"
  by (auto simp: paths_def)

lemma tpage_aligned: "pt_wf m root \<Longrightarrow> tpage m root is = Some p \<Longrightarrow> aligned p"
  by (cases "is") (auto simp: pt_wf_def split: option.splits if_splits)

lemma pt_pages_aligned: "pt_wf m root \<Longrightarrow> p \<in> pt_pages m root \<Longrightarrow> aligned p"
  by (auto simp: pt_pages_def intro: tpage_aligned)

lemma tpage_pages: "tpage m root is = Some p \<Longrightarrow> is \<in> paths \<Longrightarrow> p \<in> pt_pages m root"
  by (auto simp: pt_pages_def)

lemma root_pages [simp]: "root \<in> pt_pages m root"
  using tpage_pages [of m root "[]" root] by simp

lemma tpage_unique:
  "pt_wf m root \<Longrightarrow> tpage m root is = Some p \<Longrightarrow> tpage m root js = Some p \<Longrightarrow>
   is \<in> paths \<Longrightarrow> js \<in> paths \<Longrightarrow> is = js"
  unfolding pt_wf_def by blast

lemma entry_cong:
  "aligned p \<Longrightarrow> i < 512 \<Longrightarrow> (\<And>x. in_page p x \<Longrightarrow> m x = m' x) \<Longrightarrow> entry m p i = entry m' p i"
  unfolding entry_def by (rule load64_page_cong)

lemma entry_store:
  assumes "aligned p" and "aligned q" and "i < 512" and "j < 512"
  shows "entry (store64 m (p + of_nat (8 * i)) v) q j = (if p = q \<and> i = j then v else entry m q j)"
  using assms load_store_slot [of p q i j m v] by (auto simp: entry_def)

text \<open>Writes outside the table's pages do not change it.\<close>

lemma tpage_frame:
  assumes "pt_wf m root" and "\<And>p x. p \<in> pt_pages m root \<Longrightarrow> in_page p x \<Longrightarrow> m' x = m x"
    and "is \<in> paths"
  shows "tpage m' root is = tpage m root is"
  using assms(3)
proof (induction "is")
  case Nil
  then show ?case by simp
next
  case (Cons i "is")
  note p = paths_ConsD [OF Cons.prems]
  show ?case
  proof (cases "tpage m root is")
    case None
    then show ?thesis using Cons.IH p by simp
  next
    case (Some q)
    have "entry m' q i = entry m q i"
      using tpage_aligned [OF assms(1) Some] assms(2) [OF tpage_pages [OF Some]] p
      by (intro entry_cong) auto
    then show ?thesis using Some Cons.IH p by simp
  qed
qed

lemma pt_frame:
  assumes "pt_wf m root" and "\<And>p x. p \<in> pt_pages m root \<Longrightarrow> in_page p x \<Longrightarrow> m' x = m x"
  shows "pt_wf m' root" and "pt_pages m' root = pt_pages m root" and "leafpte m' root = leafpte m root"
proof -
  have t: "tpage m' root is = tpage m root is" if "is \<in> paths" for "is"
    using tpage_frame [OF assms that] .
  show "pt_wf m' root"
    using assms(1) t unfolding pt_wf_def by simp
  show "pt_pages m' root = pt_pages m root"
    using t by (auto simp: pt_pages_def)
  show "leafpte m' root = leafpte m root"
  proof
    fix va
    show "leafpte m' root va = leafpte m root va"
    proof (cases "tpage m root (leaf_path va)")
      case None
      then show ?thesis by (simp add: leafpte_def t)
    next
      case (Some p)
      have "entry m' p (unat (PX 0 va)) = entry m p (unat (PX 0 va))"
        using tpage_aligned [OF assms(1) Some] assms(2) [OF tpage_pages [OF Some]] PX_bound
        by (intro entry_cong) auto
      with Some show ?thesis by (simp add: leafpte_def t)
    qed
  qed
qed

text \<open>A new zeroed page linked into an empty slot of a directory.\<close>

lemma PA2PTE_valid:
  assumes "aligned x" and "unat x < 2 ^ 56"
  shows "(PA2PTE x OR PTE_V) AND PTE_V \<noteq> 0" and "PTE2PA (PA2PTE x OR PTE_V) = x"
proof -
  have "bit ((PA2PTE x OR 1) AND 1) 0" by (simp add: bit_simps)
  then show "(PA2PTE x OR PTE_V) AND PTE_V \<noteq> 0" by (metis bit_0_eq bot_apply bot_bool_def)
  show "PTE2PA (PA2PTE x OR PTE_V) = x" using assms by (intro PTE2PA_PA2PTE) simp_all
qed

lemma tpage_extend:
  assumes wf: "pt_wf m root" and q: "tpage m root is = Some q" and new: "tpage m root (i # is) = None"
    and path: "i # is \<in> paths" and x: "aligned x" "unat x < 2 ^ 56" "x \<notin> pt_pages m root"
    and zero: "\<And>j. j < 512 \<Longrightarrow> entry m' x j = 0"
    and link: "entry m' q i = PA2PTE x OR PTE_V"
    and rest: "\<And>p j. p \<in> pt_pages m root \<Longrightarrow> j < 512 \<Longrightarrow> p \<noteq> q \<or> j \<noteq> i \<Longrightarrow> entry m' p j = entry m p j"
    and js: "js \<in> paths"
  shows "tpage m' root js = (if js = i # is then Some x else tpage m root js)"
  using js
proof (induction js)
  case Nil
  then show ?case by simp
next
  case (Cons j js)
  note p = paths_ConsD [OF Cons.prems]
  show ?case
  proof (cases "js = i # is")
    case True
    have "tpage m' root js = Some x" "tpage m root js = None"
      using Cons.IH p new by (simp_all only: True simp_thms if_True)
    moreover have "j # js \<noteq> i # is" using True by auto
    ultimately show ?thesis using zero [of j] p by simp
  next
    case False
    note IH = Cons.IH [OF conjunct1 [OF p]]
    show ?thesis
    proof (cases "tpage m root js")
      case None
      then show ?thesis using False IH q by auto
    next
      case (Some r)
      have rp: "r \<in> pt_pages m root" using Some p by (auto intro: tpage_pages)
      have qr: "r = q \<longleftrightarrow> js = is"
        using tpage_unique [OF wf Some, of "is"] q Some p paths_ConsD [OF path] by auto
      show ?thesis
      proof (cases "r = q \<and> j = i")
        case True
        then show ?thesis using qr Some IH False link PA2PTE_valid [OF x(1,2)] by simp
      next
        case F: False
        then show ?thesis using rest [OF rp, of j] qr Some IH False p by auto
      qed
    qed
  qed
qed

lemma pt_extend:
  assumes wf: "pt_wf m root" and q: "tpage m root is = Some q" and new: "tpage m root (i # is) = None"
    and path: "i # is \<in> paths" and x: "aligned x" "unat x < 2 ^ 56" "x \<notin> pt_pages m root"
    and zero: "\<And>j. j < 512 \<Longrightarrow> entry m' x j = 0"
    and link: "entry m' q i = PA2PTE x OR PTE_V"
    and rest: "\<And>p j. p \<in> pt_pages m root \<Longrightarrow> j < 512 \<Longrightarrow> p \<noteq> q \<or> j \<noteq> i \<Longrightarrow> entry m' p j = entry m p j"
  shows "tpage m' root (i # is) = Some x" and "pt_wf m' root"
    and "pt_pages m' root = insert x (pt_pages m root)" and "leafpte m' root = leafpte m root"
proof -
  have tp: "tpage m' root js = (if js = i # is then Some x else tpage m root js)" if "js \<in> paths" for js
    by (rule tpage_extend [OF wf q new path x]) (use zero link rest that in auto)
  show tx: "tpage m' root (i # is) = Some x" using tp [OF path] by simp
  show pp: "pt_pages m' root = insert x (pt_pages m root)"
  proof
    show "pt_pages m' root \<subseteq> insert x (pt_pages m root)"
      using tp by (auto simp: pt_pages_def split: if_splits)
    have "x \<in> pt_pages m' root" using tx path by (rule tpage_pages)
    moreover have "pt_pages m root \<subseteq> pt_pages m' root"
    proof
      fix p assume "p \<in> pt_pages m root"
      then obtain js where js: "js \<in> paths" "tpage m root js = Some p" by (auto simp: pt_pages_def)
      then have "js \<noteq> i # is" using new by auto
      then have "tpage m' root js = Some p" using tp [OF js(1)] js(2) by simp
      then show "p \<in> pt_pages m' root" using js(1) by (rule tpage_pages)
    qed
    ultimately show "insert x (pt_pages m root) \<subseteq> pt_pages m' root" by simp
  qed
  show "pt_wf m' root" unfolding pt_wf_def
  proof (intro conjI ballI allI impI)
    show "aligned root" using wf by (simp add: pt_wf_def)
    fix js ks p assume a: "js \<in> paths" "ks \<in> paths" "tpage m' root js = Some p" "tpage m' root ks = Some p"
    have "p = x \<longleftrightarrow> ls = i # is" if "ls \<in> paths" "tpage m' root ls = Some p" for ls
      using tp [OF that(1)] that x(3) tpage_pages [of m root ls p] by (auto split: if_splits)
    then show "js = ks"
      using a tp [OF a(1)] tp [OF a(2)] tpage_unique [OF wf, of js p ks] by (auto split: if_splits)
  qed
  show "leafpte m' root = leafpte m root"
  proof
    fix va
    have k: "unat (PX 0 va) < 512" by (rule PX_bound)
    show "leafpte m' root va = leafpte m root va"
    proof (cases "leaf_path va = i # is")
      case True
      then show ?thesis
        using tx new zero [OF k] by (simp add: leafpte_def True del: tpage.simps)
    next
      case False
      show ?thesis
      proof (cases "tpage m root (leaf_path va)")
        case None
        then show ?thesis using False tp [OF leaf_path_paths(1)] by (simp add: leafpte_def)
      next
        case (Some p)
        have "is \<noteq> leaf_path va" using paths_ConsD [OF path] leaf_path_paths(2) [of va] by auto
        then have "p \<noteq> q"
          using tpage_unique [OF wf Some, of "is"] q paths_ConsD [OF path] by auto
        then have "entry m' p (unat (PX 0 va)) = entry m p (unat (PX 0 va))"
          using rest [OF tpage_pages [OF Some] k] by simp
        with Some False show ?thesis using tp [OF leaf_path_paths(1)] by (simp add: leafpte_def)
      qed
    qed
  qed
qed

text \<open>A store to a leaf slot changes that entry of \<open>leafpte\<close> and nothing else.\<close>

lemma pt_store:
  fixes v :: u64
  assumes wf: "pt_wf m root" and p: "tpage m root (leaf_path va) = Some p" and va: "unat va < 2 ^ 39" "aligned va"
  defines "m' \<equiv> store64 m (p + of_nat (8 * unat (PX 0 va))) v"
  shows "pt_wf m' root" and "pt_pages m' root = pt_pages m root"
    and "\<And>a. unat a < 2 ^ 39 \<Longrightarrow> aligned a \<Longrightarrow> leafpte m' root a = (if a = va then v else leafpte m root a)"
proof -
  have al: "aligned p" using tpage_aligned [OF wf p] .
  have e: "entry m' q j = (if p = q \<and> unat (PX 0 va) = j then v else entry m q j)"
    if "aligned q" "j < 512" for q j
    unfolding m'_def using entry_store [OF al that(1) PX_bound that(2)] .
  have tp: "tpage m' root js = tpage m root js" if "js \<in> paths" for js
    using that
  proof (induction js)
    case (Cons j js)
    note pc = paths_ConsD [OF Cons.prems]
    show ?case
    proof (cases "tpage m root js")
      case (Some q)
      have "js \<noteq> leaf_path va" using pc leaf_path_paths(2) [of va] by auto
      then have "q \<noteq> p" using tpage_unique [OF wf Some, of "leaf_path va"] p pc by auto
      then show ?thesis using Some Cons.IH pc e [OF tpage_aligned [OF wf Some], of j] by simp
    qed (use Cons.IH pc in simp)
  qed simp
  show "pt_wf m' root" using wf tp unfolding pt_wf_def by simp
  show "pt_pages m' root = pt_pages m root" using tp by (auto simp: pt_pages_def)
  fix a assume a: "unat a < 2 ^ 39" "aligned a"
  show "leafpte m' root a = (if a = va then v else leafpte m root a)"
  proof (cases "tpage m root (leaf_path a)")
    case None
    then show ?thesis using p by (auto simp: leafpte_def tp)
  next
    case (Some q)
    have iff: "p = q \<and> unat (PX 0 va) = unat (PX 0 a) \<longleftrightarrow> a = va"
    proof
      assume "p = q \<and> unat (PX 0 va) = unat (PX 0 a)"
      then have h: "p = q \<and> PX 0 va = PX 0 a" by (metis unsigned_word_eqI)
      then have "leaf_path a = leaf_path va"
        using tpage_unique [OF wf Some, of "leaf_path va"] p by simp
      then have "PX 1 a = PX 1 va" "PX 2 a = PX 2 va"
        unfolding leaf_path_def by (auto intro: unsigned_word_eqI)
      then show "a = va" using PX_inj [OF a(1) va(1) a(2) va(2)] h by simp
    qed (use p Some in auto)
    have "leafpte m' root a = entry m' q (unat (PX 0 a))" "leafpte m root a = entry m q (unat (PX 0 a))"
      by (simp_all add: leafpte_def tp Some)
    then show ?thesis
      unfolding e [OF tpage_aligned [OF wf Some] PX_bound] iff by simp
  qed
qed

section \<open>Walking and extending\<close>

text \<open>
  \<open>vm_ok s root xs\<close>: the table at \<open>root\<close> is well formed, its pages are allocated
  pages, and the free pages are \<open>xs\<close>. \<open>vm_rel root s xs t ys\<close>: from \<open>s\<close> to
  \<open>t\<close> some pages were taken from the front of the free list to extend the table, and
  nothing outside the table was written.
\<close>

definition vm_ok :: "'x kmem_scheme \<Rightarrow> addr \<Rightarrow> addr list \<Rightarrow> bool" where
  "vm_ok s root xs \<longleftrightarrow> kmem_ok s xs \<and> pt_wf (mem s) root \<and> avail LkKmem (lks s) \<and>
     (\<forall>p\<in>pt_pages (mem s) root. page_ok (kend s) p \<and> p \<notin> set xs)"

definition kmem_only :: "'x kmem_scheme \<Rightarrow> 'x kmem_scheme \<Rightarrow> bool" where
  "kmem_only s t \<longleftrightarrow> settle (lks t) = settle (lks s) \<and>
     (\<exists>L m f. t = s\<lparr>lks := L, mem := m, freelist := f\<rparr>)"

definition vm_rel :: "addr \<Rightarrow> 'x kmem_scheme \<Rightarrow> addr list \<Rightarrow> 'x kmem_scheme \<Rightarrow> addr list \<Rightarrow> bool" where
  "vm_rel root s xs t ys \<longleftrightarrow> vm_ok t root ys \<and>
     kmem_only s t \<and>
     (\<exists>zs. xs = zs @ ys \<and> pt_pages (mem t) root = pt_pages (mem s) root \<union> set zs) \<and>
     (\<forall>y. (\<forall>p\<in>pt_pages (mem t) root. \<not> in_page p y) \<longrightarrow> mem t y = mem s y)"

lemma page_ok_addr: "page_ok e p \<Longrightarrow> aligned p \<and> unat p < 2 ^ 56 \<and> p \<noteq> 0"
  by (auto simp: page_ok_def word_less_nat_alt)

lemma slot_nonzero:
  assumes "aligned p" and "p \<noteq> 0" and "i < 512"
  shows "p + of_nat (8 * i) \<noteq> 0"
proof -
  have "unat (p + of_nat (8 * i)) = unat p + 8 * i"
    using aligned_bound [OF assms(1)] assms(3) by (intro unat_off) simp
  moreover have "unat p \<noteq> 0" using assms(2) by (simp add: unat_eq_0)
  ultimately show ?thesis by (metis add_is_0 unat_0)
qed

lemma kmem_ok_frame:
  assumes "kmem_ok s xs" and "freelist t = freelist s" and "kend t = kend s"
    and "\<And>p y. p \<in> set xs \<Longrightarrow> in_page p y \<Longrightarrow> mem t y = mem s y"
  shows "kmem_ok t xs"
proof -
  have "\<forall>q\<in>set xs. aligned q" using assms(1) by (auto simp: kmem_ok_def page_ok_def)
  then show ?thesis
    using assms flist_frame [of "mem s" "freelist s" xs "mem t"] by (auto simp: kmem_ok_def)
qed

lemma kmem_only_refl [simp]: "kmem_only s s"
  unfolding kmem_only_def by (metis kmem.surjective kmem.update_convs(1,2) machine.update_convs(1))

lemma kmem_only_trans: "kmem_only s t \<Longrightarrow> kmem_only t u \<Longrightarrow> kmem_only s u"
  unfolding kmem_only_def by fastforce

lemma kmem_only_kend: "kmem_only s t \<Longrightarrow> kend t = kend s"
  by (auto simp: kmem_only_def)

lemma kmem_only_mem:
  assumes "kmem_only s t"
  shows "kmem_only s (t\<lparr>mem := m\<rparr>)"
proof -
  obtain L m' f where t: "t = s\<lparr>lks := L, mem := m', freelist := f\<rparr>" "settle L = settle (lks s)"
    using assms by (auto simp: kmem_only_def)
  have "t\<lparr>mem := m\<rparr> = s\<lparr>lks := L, mem := m, freelist := f\<rparr>"
    by (simp add: t(1))
  with t(2) show ?thesis by (auto simp: kmem_only_def)
qed

lemma kmem_only_intro:
  "settle L = settle (lks s) \<Longrightarrow> kmem_only s (s\<lparr>lks := L, mem := m, freelist := f\<rparr>)"
  unfolding kmem_only_def by fastforce

lemma vm_rel_refl: "vm_ok s root xs \<Longrightarrow> vm_rel root s xs s xs"
  by (simp add: vm_rel_def)

lemma vm_rel_trans:
  assumes "vm_rel root s xs t ys" and "vm_rel root t ys u zs"
  shows "vm_rel root s xs u zs"
proof -
  obtain as bs where ab: "xs = as @ ys" "ys = bs @ zs"
      "pt_pages (mem t) root = pt_pages (mem s) root \<union> set as"
      "pt_pages (mem u) root = pt_pages (mem t) root \<union> set bs"
    using assms by (auto simp: vm_rel_def)
  have "\<exists>zs'. xs = zs' @ zs \<and> pt_pages (mem u) root = pt_pages (mem s) root \<union> set zs'"
    by (rule exI [of _ "as @ bs"]) (use ab in auto)
  moreover have "mem u y = mem s y" if "\<forall>p\<in>pt_pages (mem u) root. \<not> in_page p y" for y
    using assms that ab(4) by (auto simp: vm_rel_def)
  ultimately show ?thesis
    using assms kmem_only_trans by (auto simp: vm_rel_def)
qed

lemma vm_rel_ok: "vm_rel root s xs t ys \<Longrightarrow> vm_ok t root ys"
  by (simp add: vm_rel_def)

lemma walk_lookup:
  assumes "va < MAXVA"
  shows "walk root va False s = Ok (case tpage (mem s) root (leaf_path va) of
      None \<Rightarrow> 0 | Some p \<Rightarrow> p + of_nat (8 * unat (PX 0 va))) s"
  using assms
  by (simp add: walk_def numeral_2_eq_2 walk_step_def kop_simps leaf_path_def entry_def Let_def not_le
      split: option.split)

lemma entry_zero_page:
  assumes "aligned p" and "i < 512"
  shows "entry (memset m p 0 4096) p i = 0"
proof -
  have "entry (memset m p 0 4096) p i = entry (\<lambda>_. 0) p i"
    by (rule entry_cong [OF assms]) (simp add: memset_page assms(1))
  then show ?thesis by (simp add: entry_def load64_zero)
qed

text \<open>The memory after a directory page \<open>x\<close> was allocated for slot \<open>i\<close> of \<open>q\<close>.\<close>

definition link_page :: "memory \<Rightarrow> addr \<Rightarrow> nat \<Rightarrow> addr \<Rightarrow> memory" where
  "link_page m q i x =
     store64 (memset (memset m x 5 4096) x 0 4096) (q + of_nat (8 * i)) (PA2PTE x OR PTE_V)"

lemma entry_link_page:
  assumes "aligned q" and "aligned x" and "q \<noteq> x" and "i < 512" and "j < 512" and "aligned p"
  shows "entry (link_page m q i x) p j =
    (if p = q \<and> j = i then PA2PTE x OR PTE_V else if p = x then 0 else entry m p j)"
proof -
  have "entry (link_page m q i x) p j = (if q = p \<and> i = j then PA2PTE x OR PTE_V
      else entry (memset (memset m x 5 4096) x 0 4096) p j)"
    unfolding link_page_def using assms by (intro entry_store)
  moreover have "entry (memset (memset m x 5 4096) x 0 4096) p j = entry m p j" if "p \<noteq> x"
  proof (rule entry_cong [OF assms(6,5)])
    fix y assume "in_page p y"
    then have "\<not> in_page x y" using in_page_unique assms(2,6) that by blast
    then show "memset (memset m x 5 4096) x 0 4096 y = m y" by (simp add: memset_page assms(2))
  qed
  ultimately show ?thesis using assms entry_zero_page by auto
qed

lemma link_page_frame:
  assumes "aligned q" and "aligned x" and "i < 512" and "\<not> in_page q y" and "\<not> in_page x y"
  shows "link_page m q i x y = m y"
  using assms by (simp add: link_page_def store64_frame memset_page del: of_nat_mult)

lemma walk_step_alloc:
  assumes ok: "vm_ok s root xs" and q: "tpage (mem s) root is = Some q"
    and path: "i # is \<in> paths" and i: "i = unat (PX level va)"
  obtains t ys r where "walk_step level q va True s = Ok r t" and "vm_rel root s xs t ys"
    and "leafpte (mem t) root = leafpte (mem s) root" and "r = tpage (mem t) root (i # is)"
    and "length xs \<le> Suc (length ys)" and "r = None \<Longrightarrow> xs = []"
proof (cases "tpage (mem s) root (i # is)")
  case (Some p)
  then have "walk_step level q va True s = Ok (Some p) s"
    using q i by (simp add: walk_step_def kop_simps Let_def entry_def split: if_splits)
  then show ?thesis
    using that [of "Some p" s xs] vm_rel_refl [OF ok] Some by simp
next
  case None
  have av: "avail LkKmem (lks s)" and km: "kmem_ok s xs" and wf: "pt_wf (mem s) root"
    using ok by (simp_all add: vm_ok_def)
  have inv: "load64 (mem s) (q + of_nat (8 * i)) AND 1 = 0"
    using None q by (simp add: entry_def split: if_splits)
  have run: "walk_step level q va True s = (case kalloc s of Stop h t \<Rightarrow> Stop h t | Ok p t \<Rightarrow>
      if p = 0 then Ok None t else Ok (Some p) (t\<lparr>mem := store64 (memset (mem t) p 0 4096)
        (q + of_nat (8 * i)) (PA2PTE p OR PTE_V)\<rparr>))"
    using inv i by (simp add: walk_step_def kop_simps Let_def split: kres.split)
  show ?thesis
  proof (cases xs)
    case Nil
    let ?t = "s\<lparr>lks := settle (lks s)\<rparr>"
    have "kmem_only s ?t"
      unfolding kmem_only_def by (auto simp: lock_simps intro!: exI [of _ "settle (lks s)"] exI [of _ "mem s"] exI [of _ "freelist s"])
    then have "vm_rel root s xs ?t xs"
      using ok by (auto simp: vm_rel_def vm_ok_def kmem_ok_def lock_simps)
    then show ?thesis
      using that [of None ?t xs] run kalloc_empty [of s] km av None Nil by simp
  next
    case (Cons x ys)
    let ?m = "link_page (mem s) q i x"
    let ?t = "s\<lparr>lks := settle (lks s), freelist := load64 (mem s) x, mem := ?m\<rparr>"
    have x: "freelist s = x" "x \<noteq> 0" "page_ok (kend s) x" "x \<notin> set ys"
      using km Cons by (auto simp: kmem_ok_def)
    have r: "walk_step level q va True s = Ok (Some x) ?t"
      using run kalloc_eq [OF av] x by (simp add: link_page_def)
    have xp: "x \<notin> pt_pages (mem s) root" using ok Cons by (auto simp: vm_ok_def)
    note pc = paths_ConsD [OF path]
    have qp: "q \<in> pt_pages (mem s) root" using q pc by (auto intro: tpage_pages)
    have al: "aligned q" "aligned x" "unat x < 2 ^ 56" "q \<noteq> x"
      using pt_pages_aligned [OF wf qp] page_ok_addr [OF x(3)] qp xp by auto
    note el = entry_link_page [OF al(1,2,4) conjunct1 [OF conjunct2 [OF pc]]]
    have rest: "entry ?m p j = entry (mem s) p j"
      if "p \<in> pt_pages (mem s) root" "j < 512" "p \<noteq> q \<or> j \<noteq> i" for p j
      using el [OF that(2) pt_pages_aligned [OF wf that(1)]] that xp by auto
    have link: "entry ?m q i = PA2PTE x OR PTE_V" using el [of i q] al pc by simp
    have zero: "entry ?m x j = 0" if "j < 512" for j using el [OF that al(2)] al(4) by simp
    have ext: "tpage ?m root (i # is) = Some x" "pt_wf ?m root"
        "pt_pages ?m root = insert x (pt_pages (mem s) root)" "leafpte ?m root = leafpte (mem s) root"
      by (rule pt_extend [OF wf q None path al(2,3) xp]; use zero link rest in blast)+
    have fr: "?m y = mem s y" if "\<not> in_page q y" "\<not> in_page x y" for y
      using link_page_frame [OF al(1,2) _ that] pc by simp
    have km': "kmem_ok ?t ys"
    proof -
      have "kmem_ok (s\<lparr>lks := settle (lks s), freelist := load64 (mem s) x\<rparr>) ys"
        using km Cons by (auto simp: kmem_ok_def)
      then show ?thesis
      proof (rule kmem_ok_frame)
        fix p y assume p: "p \<in> set ys" "in_page p y"
        have "aligned p" "p \<noteq> q" "p \<noteq> x"
          using km Cons p(1) qp ok x(4) by (auto simp: kmem_ok_def page_ok_def vm_ok_def)
        then show "mem ?t y = mem (s\<lparr>lks := settle (lks s), freelist := load64 (mem s) x\<rparr>) y"
          using fr [of y] pages_disjoint [OF _ al(1) _ p(2)] pages_disjoint [OF _ al(2) _ p(2)] by simp
      qed simp_all
    qed
    have only: "kmem_only s ?t"
      using kmem_only_mem [OF kmem_only_intro [where s = s and L = "settle (lks s)" and m = "mem s"
          and f = "load64 (mem s) x"], of ?m]
      by (simp add: lock_simps)
    have "vm_ok ?t root ys"
      using ok Cons km' ext x by (auto simp: vm_ok_def lock_simps)
    then have "vm_rel root s xs ?t ys"
      using only Cons ext(3) qp fr by (auto simp: vm_rel_def)
    then show ?thesis
      using that [of "Some x" ?t ys] r ext Cons by simp
  qed
qed

lemma walk_alloc:
  assumes ok: "vm_ok s root xs" and va: "va < MAXVA"
  obtains t ys r where "walk root va True s = Ok r t" and "vm_rel root s xs t ys"
    and "leafpte (mem t) root = leafpte (mem s) root" and "length xs \<le> length ys + 2"
    and "r = 0 \<and> ys = [] \<or>
      (\<exists>p. tpage (mem t) root (leaf_path va) = Some p \<and> r = p + of_nat (8 * unat (PX 0 va)) \<and> r \<noteq> 0)"
proof -
  have p2: "unat (PX 2 va) # [] \<in> paths" using PX_bound [of 2 va] by (simp add: paths_def)
  have run: "walk root va True s = (case walk_step 2 root va True s of Stop h t \<Rightarrow> Stop h t
      | Ok None t \<Rightarrow> Ok 0 t | Ok (Some p) t \<Rightarrow> (case walk_step 1 p va True t of Stop h u \<Rightarrow> Stop h u
      | Ok None u \<Rightarrow> Ok 0 u | Ok (Some q) u \<Rightarrow> Ok (q + of_nat (8 * unat (PX 0 va))) u))"
    using va by (simp add: walk_def numeral_2_eq_2 kop_simps not_le split: kres.split option.split)
  obtain t1 ys1 r1 where 1: "walk_step 2 root va True s = Ok r1 t1" "vm_rel root s xs t1 ys1"
      "leafpte (mem t1) root = leafpte (mem s) root" "r1 = tpage (mem t1) root [unat (PX 2 va)]"
      "length xs \<le> Suc (length ys1)" "r1 = None \<Longrightarrow> xs = []"
    using walk_step_alloc [OF ok _ p2 refl] by (metis tpage.simps(1))
  show ?thesis
  proof (cases r1)
    case None
    then have "ys1 = []" using 1 by (auto simp: vm_rel_def)
    moreover have "walk root va True s = Ok 0 t1" using run 1(1) None by simp
    ultimately show ?thesis using that [OF _ 1(2,3)] 1(5) by simp
  next
    case (Some p)
    have q: "tpage (mem t1) root [unat (PX 2 va)] = Some p" using 1(4) Some by simp
    have p1: "[unat (PX 1 va), unat (PX 2 va)] \<in> paths"
      using leaf_path_paths(1) [of va] by (simp add: leaf_path_def)
    obtain t2 ys2 r2 where 2: "walk_step 1 p va True t1 = Ok r2 t2" "vm_rel root t1 ys1 t2 ys2"
        "leafpte (mem t2) root = leafpte (mem t1) root" "r2 = tpage (mem t2) root (leaf_path va)"
        "length ys1 \<le> Suc (length ys2)" "r2 = None \<Longrightarrow> ys1 = []"
      using walk_step_alloc [OF vm_rel_ok [OF 1(2)] q p1 refl] unfolding leaf_path_def by metis
    note rel = vm_rel_trans [OF 1(2) 2(2)]
    have len: "length xs \<le> length ys2 + 2" using 1(5) 2(5) by simp
    show ?thesis
    proof (cases r2)
      case None
      then have "ys2 = []" using 2 by (auto simp: vm_rel_def)
      moreover have "walk root va True s = Ok 0 t2" using run 1(1) 2(1) Some None by simp
      ultimately show ?thesis using that [OF _ rel _ len] 1(3) 2(3) by simp
    next
      case r2: (Some q)
      have "q \<in> pt_pages (mem t2) root" using 2(4) r2 tpage_pages by fastforce
      then have "aligned q" "q \<noteq> 0"
        using vm_rel_ok [OF rel] page_ok_addr by (auto simp: vm_ok_def)
      then have "q + of_nat (8 * unat (PX 0 va)) \<noteq> 0"
        using PX_bound by (intro slot_nonzero)
      moreover have "walk root va True s = Ok (q + of_nat (8 * unat (PX 0 va))) t2"
        using run 1(1) 2(1) Some r2 by simp
      ultimately show ?thesis using that [OF _ rel _ len] 1(3) 2(3,4) r2 by metis
    qed
  qed
qed

section \<open>Mapping\<close>

definition va_ok :: "u64 \<Rightarrow> bool" where
  "va_ok b \<longleftrightarrow> aligned b \<and> b < MAXVA"

lemma va_ok_bound: "va_ok b \<Longrightarrow> unat b < 2 ^ 38 \<and> unat b < 2 ^ 39 \<and> aligned b"
  by (auto simp: va_ok_def word_less_nat_alt)

text \<open>Storing an entry for \<open>va\<close>, once its table exists.\<close>

lemma map_store:
  fixes v :: u64
  assumes ok: "vm_ok s root xs" and p: "tpage (mem s) root (leaf_path va) = Some p" and va: "va_ok va"
  defines "t \<equiv> s\<lparr>mem := store64 (mem s) (p + of_nat (8 * unat (PX 0 va))) v\<rparr>"
  shows "vm_rel root s xs t xs"
    and "\<And>b. va_ok b \<Longrightarrow> leafpte (mem t) root b = (if b = va then v else leafpte (mem s) root b)"
proof -
  have wf: "pt_wf (mem s) root" using ok by (simp add: vm_ok_def)
  note st = pt_store [OF wf p conjunct1 [OF conjunct2 [OF va_ok_bound [OF va]]]
      conjunct2 [OF conjunct2 [OF va_ok_bound [OF va]]], where v = v]
  have mt: "mem t = store64 (mem s) (p + of_nat (8 * unat (PX 0 va))) v" by (simp add: t_def)
  show "\<And>b. va_ok b \<Longrightarrow> leafpte (mem t) root b = (if b = va then v else leafpte (mem s) root b)"
    unfolding mt using st(3) va_ok_bound by blast
  have pp: "p \<in> pt_pages (mem s) root" using tpage_pages [OF p] by simp
  have fr: "mem t y = mem s y" if "\<not> in_page p y" for y
    unfolding mt using store64_frame [OF pt_pages_aligned [OF wf pp] PX_bound that] .
  have pg: "pt_pages (mem t) root = pt_pages (mem s) root" unfolding mt by (rule st(2))
  have "kmem_ok t xs"
  proof (rule kmem_ok_frame)
    show "kmem_ok s xs" using ok by (simp add: vm_ok_def)
    fix q y assume q: "q \<in> set xs" "in_page q y"
    then have "q \<noteq> p" "aligned q" using ok pp by (auto simp: vm_ok_def kmem_ok_def page_ok_def)
    then show "mem t y = mem s y"
      using fr pages_disjoint [OF _ pt_pages_aligned [OF wf pp] _ q(2)] by simp
  qed (simp_all add: t_def)
  moreover have "kmem_only s t" unfolding t_def by (intro kmem_only_mem kmem_only_refl)
  moreover have "pt_wf (mem t) root" unfolding mt by (rule st(1))
  ultimately show "vm_rel root s xs t xs"
    using ok fr pp pg by (auto simp: vm_rel_def vm_ok_def t_def)
qed

end
