(* ===== verification/Vm_Space.thy ===== *)
theory Vm_Space
  imports Vm_Walk
begin

text \<open>
  Address spaces: what \<open>mappages\<close>, \<open>uvmunmap\<close>, \<open>uvmalloc\<close>, \<open>uvmcopy\<close> and the
  user copies of \<open>kernel/vm.c\<close> do to the mapping a page table stands for.
\<close>

section \<open>Mapping a range\<close>

text \<open>The first \<open>k\<close> pages from \<open>a\<close> mapped to the pages from \<open>pa\<close>.\<close>

definition map_range :: "(u64 \<Rightarrow> u64) \<Rightarrow> u64 \<Rightarrow> u64 \<Rightarrow> u64 \<Rightarrow> nat \<Rightarrow> u64 \<Rightarrow> u64" where
  "map_range f a pa perm k b =
     (if unat a \<le> unat b \<and> unat b < unat a + 4096 * k then PA2PTE (pa + (b - a)) OR perm OR PTE_V
      else f b)"

lemma map_range_0 [simp]: "map_range f a pa perm 0 = f"
  by (auto simp: map_range_def fun_eq_iff)

lemma map_range_cong: "f b = g b \<Longrightarrow> map_range f a pa perm k b = map_range g a pa perm k b"
  by (simp add: map_range_def)

lemma unat_next_page:
  assumes "unat a + 4096 \<le> 2 ^ 38"
  shows "unat (a + PGSIZE) = unat a + 4096"
  using assms by (simp add: unat_plus_if')

lemma va_ok_next: "va_ok a \<Longrightarrow> unat a + 4096 < 2 ^ 38 \<Longrightarrow> va_ok (a + PGSIZE)"
  using unat_next_page [of a] by (simp add: va_ok_def aligned_def word_less_nat_alt)

lemma page_gap: "va_ok a \<Longrightarrow> va_ok b \<Longrightarrow> unat a \<le> unat b \<Longrightarrow> unat b < unat a + 4096 \<Longrightarrow> a = b"
  using in_page_unique [of a b b] va_ok_bound by (auto simp: in_page_def)

lemma map_range_Suc:
  assumes "va_ok a" and "va_ok b" and "unat a + 4096 \<le> 2 ^ 38"
  shows "map_range f a pa perm (Suc k) b =
    map_range (\<lambda>c. if c = a then PA2PTE pa OR perm OR PTE_V else f c) (a + PGSIZE) (pa + PGSIZE) perm k b"
  using page_gap [OF assms(1,2)] unat_next_page [OF assms(3)]
  by (auto simp: map_range_def algebra_simps)

lemma mappages_step:
  assumes ok: "vm_ok s root xs" and a: "va_ok a" and free: "leafpte (mem s) root a AND PTE_V = 0"
  obtains (full) t where "walk root a True s = Ok 0 t" "vm_rel root s xs t []"
      "leafpte (mem t) root = leafpte (mem s) root" "length xs \<le> 2"
  | (slot) pte t ys where "walk root a True s = Ok pte t" "pte \<noteq> 0" "load64 (mem t) pte AND PTE_V = 0"
      "vm_rel root s xs (t\<lparr>mem := store64 (mem t) pte v\<rparr>) ys"
      "\<forall>b. va_ok b \<longrightarrow> leafpte (store64 (mem t) pte v) root b = (if b = a then v else leafpte (mem s) root b)"
      "length xs \<le> length ys + 2"
proof -
  have lt: "a < MAXVA" using a by (simp add: va_ok_def)
  obtain t ys r where w: "walk root a True s = Ok r t" "vm_rel root s xs t ys"
      "leafpte (mem t) root = leafpte (mem s) root" "length xs \<le> length ys + 2"
      "r = 0 \<and> ys = [] \<or>
        (\<exists>p. tpage (mem t) root (leaf_path a) = Some p \<and> r = p + of_nat (8 * unat (PX 0 a)) \<and> r \<noteq> 0)"
    using walk_alloc [OF ok lt] by metis
  show ?thesis
  proof (cases "r = 0")
    case True
    with w show ?thesis by (intro full [of t]) auto
  next
    case False
    with w obtain p where p: "tpage (mem t) root (leaf_path a) = Some p"
        "r = p + of_nat (8 * unat (PX 0 a))" by auto
    have "load64 (mem t) r = leafpte (mem t) root a"
      using p by (simp add: leafpte_def entry_def del: of_nat_mult)
    then have e: "load64 (mem t) r AND PTE_V = 0" using free w(3) by simp
    note st = map_store [OF vm_rel_ok [OF w(2)] p(1) a, where v = v, folded p(2)]
    show ?thesis
    proof (rule slot [OF w(1) False e vm_rel_trans [OF w(2) st(1)] _ w(4)])
      show "\<forall>b. va_ok b \<longrightarrow> leafpte (store64 (mem t) r v) root b = (if b = a then v else leafpte (mem s) root b)"
        using st(2) w(3) by simp
    qed
  qed
qed

lemma mappages_loop_ok:
  assumes "vm_ok s root xs" and "va_ok a" and "unat a + 4096 * n < 2 ^ 38"
    and "\<And>b. va_ok b \<Longrightarrow> unat a \<le> unat b \<Longrightarrow> unat b \<le> unat a + 4096 * n \<Longrightarrow>
           leafpte (mem s) root b AND PTE_V = 0"
  shows "\<exists>t ys r k. mappages_loop root a (a + of_nat (4096 * n)) pa perm s = Ok r t \<and>
    vm_rel root s xs t ys \<and> (r = 0 \<and> k = Suc n \<or> r = -1 \<and> k \<le> n \<and> ys = []) \<and>
    (\<forall>b. va_ok b \<longrightarrow> leafpte (mem t) root b = map_range (leafpte (mem s) root) a pa perm k b) \<and>
    length xs \<le> length ys + 2 * Suc n"
  using assms
proof (induction n arbitrary: a pa s xs)
  case 0
  have f: "leafpte (mem s) root a AND PTE_V = 0" using "0.prems"(2,4) by simp
  have one: "map_range (leafpte (mem s) root) a pa perm (Suc 0) b =
      (if b = a then PA2PTE pa OR perm OR PTE_V else leafpte (mem s) root b)" if "va_ok b" for b
    using page_gap [OF "0.prems"(2) that] by (auto simp: map_range_def)
  show ?case
    using "0.prems"(1,2) f
  proof (cases rule: mappages_step [where v = "PA2PTE pa OR perm OR PTE_V"])
    case (full t)
    show ?thesis
      by (rule exI [of _ t], rule exI [of _ "[]"], rule exI [of _ "-1"], rule exI [of _ 0])
        (use full in \<open>simp add: mappages_loop.simps kop_simps\<close>)
  next
    case (slot pte t ys)
    show ?thesis
      by (rule exI [of _ "t\<lparr>mem := store64 (mem t) pte (PA2PTE pa OR perm OR PTE_V)\<rparr>"],
          rule exI [of _ ys], rule exI [of _ 0], rule exI [of _ "Suc 0"])
        (use slot one in \<open>simp add: mappages_loop.simps kop_simps\<close>)
  qed
next
  case (Suc n)
  have f: "leafpte (mem s) root a AND PTE_V = 0" using Suc.prems(2,4) by simp
  let ?v = "PA2PTE pa OR perm OR PTE_V"
  have nx: "unat (a + PGSIZE) = unat a + 4096" "va_ok (a + PGSIZE)"
    using Suc.prems(2,3) by (auto intro!: unat_next_page va_ok_next)
  have la: "a + of_nat (4096 * Suc n) = (a + PGSIZE) + of_nat (4096 * n)" by simp
  have ne: "a \<noteq> a + of_nat (4096 * Suc n)"
  proof -
    have "unat (a + of_nat (4096 * Suc n)) = unat a + 4096 * Suc n"
      using Suc.prems(3) by (intro unat_off) simp
    then show ?thesis by (metis add_eq_self_zero mult_is_0 nat.simps(3) zero_neq_numeral)
  qed
  show ?case
    using Suc.prems(1,2) f
  proof (cases rule: mappages_step [where v = ?v])
    case (full t)
    show ?thesis
      by (rule exI [of _ t], rule exI [of _ "[]"], rule exI [of _ "-1"], rule exI [of _ 0])
        (use full in \<open>simp add: mappages_loop.simps [of root a] kop_simps\<close>)
  next
    case (slot pte t ys)
    let ?t = "t\<lparr>mem := store64 (mem t) pte ?v\<rparr>"
    have "\<exists>u zs r k. mappages_loop root (a + PGSIZE) ((a + PGSIZE) + of_nat (4096 * n)) (pa + PGSIZE) perm ?t = Ok r u \<and>
      vm_rel root ?t ys u zs \<and> (r = 0 \<and> k = Suc n \<or> r = -1 \<and> k \<le> n \<and> zs = []) \<and>
      (\<forall>b. va_ok b \<longrightarrow> leafpte (mem u) root b = map_range (leafpte (mem ?t) root) (a + PGSIZE) (pa + PGSIZE) perm k b) \<and>
      length ys \<le> length zs + 2 * Suc n"
    proof (rule Suc.IH)
      show "vm_ok ?t root ys" using slot(4) by (rule vm_rel_ok)
      show "leafpte (mem ?t) root b AND PTE_V = 0"
        if "va_ok b" "unat (a + PGSIZE) \<le> unat b" "unat b \<le> unat (a + PGSIZE) + 4096 * n" for b
        using that slot(5) Suc.prems(4) [of b] nx(1) by auto
    qed (use nx Suc.prems(3) in auto)
    then obtain u zs r k where u: "mappages_loop root (a + PGSIZE) (a + of_nat (4096 * Suc n)) (pa + PGSIZE) perm ?t = Ok r u"
        "vm_rel root ?t ys u zs" "r = 0 \<and> k = Suc n \<or> r = -1 \<and> k \<le> n \<and> zs = []"
        "\<forall>b. va_ok b \<longrightarrow> leafpte (mem u) root b = map_range (leafpte (mem ?t) root) (a + PGSIZE) (pa + PGSIZE) perm k b"
        "length ys \<le> length zs + 2 * Suc n"
      unfolding la by blast
    have "mappages_loop root a (a + of_nat (4096 * Suc n)) pa perm s = Ok r u"
      using slot u(1) ne by (subst mappages_loop.simps) (simp add: kop_simps del: of_nat_mult of_nat_Suc)
    moreover have "leafpte (mem u) root b = map_range (leafpte (mem s) root) a pa perm (Suc k) b"
      if "va_ok b" for b
    proof -
      have "leafpte (mem u) root b = map_range (\<lambda>c. if c = a then ?v else leafpte (mem s) root c)
          (a + PGSIZE) (pa + PGSIZE) perm k b"
        using u(4) that slot(5) by (auto intro!: map_range_cong)
      then show ?thesis using map_range_Suc [OF Suc.prems(2) that] Suc.prems(3) by simp
    qed
    ultimately show ?thesis
      using vm_rel_trans [OF slot(4) u(2)] u(3,5) slot(6)
      by (intro exI [of _ u] exI [of _ zs] exI [of _ r] exI [of _ "Suc k"]) auto
  qed
qed

section \<open>Unmapping\<close>

lemma leafpte_tpage:
  assumes "leafpte m root a AND PTE_V \<noteq> 0"
  obtains p where "tpage m root (leaf_path a) = Some p"
    and "leafpte m root a = load64 m (p + of_nat (8 * unat (PX 0 a)))"
  using assms by (auto simp: leafpte_def entry_def simp del: of_nat_mult split: option.splits)

lemma vm_ok_page:
  "vm_ok s root xs \<Longrightarrow> p \<in> pt_pages (mem s) root \<Longrightarrow>
   page_ok (kend s) p \<and> p \<notin> set xs \<and> aligned p \<and> unat p < 2 ^ 56 \<and> p \<noteq> 0"
  using page_ok_addr unfolding vm_ok_def by blast

text \<open>Freeing a page that is not part of the table keeps the table.\<close>

lemma vm_ok_kfree:
  assumes ok: "vm_ok s root xs" and pa: "page_ok (kend s) pa" "pa \<notin> set xs" "pa \<notin> pt_pages (mem s) root"
  obtains t where "kfree pa s = Ok () t" and "vm_ok t root (pa # xs)" and "kmem_only s t"
    and "leafpte (mem t) root = leafpte (mem s) root" and "pt_pages (mem t) root = pt_pages (mem s) root"
    and "tpage (mem t) root (leaf_path a) = tpage (mem s) root (leaf_path a)"
    and "\<And>y. \<not> in_page pa y \<Longrightarrow> mem t y = mem s y"
proof -
  have km: "kmem_ok s xs" and av: "avail LkKmem (lks s)" and wf: "pt_wf (mem s) root"
    using ok by (simp_all add: vm_ok_def)
  obtain t where t: "kfree pa s = Ok () t" "kmem_ok t (pa # xs)" "lks t = settle (lks s)"
      "\<And>y. \<not> in_page pa y \<Longrightarrow> mem t y = mem s y"
    using kfree_ok [OF km av pa(1,2)] by metis
  have only: "kmem_only s t"
    using kfree_eq [OF av pa(1)] t(1) kmem_only_intro [of "settle (lks s)" s] by (auto simp: lock_simps)
  have fr: "mem t x = mem s x" if "p \<in> pt_pages (mem s) root" "in_page p x" for p x
    using that pages_disjoint [of p pa x] pa(3) page_ok_addr [OF pa(1)] pt_pages_aligned [OF wf that(1)] t(4)
    by blast
  have pf: "pt_wf (mem t) root" "pt_pages (mem t) root = pt_pages (mem s) root"
      "leafpte (mem t) root = leafpte (mem s) root"
    by (rule pt_frame [OF wf]; use fr in blast)+
  have tp: "tpage (mem t) root (leaf_path a) = tpage (mem s) root (leaf_path a)"
    by (rule tpage_frame [OF wf]) (use fr in auto)
  have "vm_ok t root (pa # xs)"
    using ok t(2,3) pf(1,2) pa(3) kmem_only_kend [OF only] by (auto simp: vm_ok_def lock_simps)
  then show ?thesis
    using that [OF t(1) _ only pf(3,2) tp] t(4) by blast
qed

lemma unmap_step:
  assumes ok: "vm_ok s root xs" and a: "va_ok a" "a < en"
    and e: "e = leafpte (mem s) root a" "e AND PTE_V \<noteq> 0" "PTE_FLAGS e \<noteq> PTE_V"
    and fr: "do_free \<Longrightarrow> page_ok (kend s) (PTE2PA e) \<and> PTE2PA e \<notin> set xs \<and> PTE2PA e \<notin> pt_pages (mem s) root"
  obtains t where "uvmunmap_loop root a en do_free s = uvmunmap_loop root (a + PGSIZE) en do_free t"
    and "vm_ok t root (if do_free then PTE2PA e # xs else xs)" and "kmem_only s t"
    and "pt_pages (mem t) root = pt_pages (mem s) root"
    and "\<And>b. va_ok b \<Longrightarrow> leafpte (mem t) root b = (if b = a then 0 else leafpte (mem s) root b)"
    and "\<And>y. \<lbrakk>\<forall>p\<in>pt_pages (mem s) root. \<not> in_page p y; do_free \<Longrightarrow> \<not> in_page (PTE2PA e) y\<rbrakk> \<Longrightarrow> mem t y = mem s y"
proof -
  obtain p where p: "tpage (mem s) root (leaf_path a) = Some p"
      "e = load64 (mem s) (p + of_nat (8 * unat (PX 0 a)))"
    using leafpte_tpage e(1,2) by metis
  let ?pte = "p + of_nat (8 * unat (PX 0 a))"
  have pp: "p \<in> pt_pages (mem s) root" using tpage_pages [OF p(1)] by simp
  have "?pte \<noteq> 0"
    using vm_ok_page [OF ok pp] PX_bound by (intro slot_nonzero) auto
  then have run: "uvmunmap_loop root a en do_free s =
      kbind (kwhen do_free (kfree (PTE2PA e))) (\<lambda>_. kseq (mem_mod (\<lambda>m. store64 m ?pte 0))
        (uvmunmap_loop root (a + PGSIZE) en do_free)) s"
    using a e(2,3) p by (subst uvmunmap_loop.simps)
      (simp add: va_ok_def walk_lookup kop_simps del: of_nat_mult)
  obtain u ys where u: "kwhen do_free (kfree (PTE2PA e)) s = Ok () u" "vm_ok u root ys"
      "ys = (if do_free then PTE2PA e # xs else xs)" "kmem_only s u"
      "leafpte (mem u) root = leafpte (mem s) root" "pt_pages (mem u) root = pt_pages (mem s) root"
      "tpage (mem u) root (leaf_path a) = Some p"
      "\<And>y. (do_free \<Longrightarrow> \<not> in_page (PTE2PA e) y) \<Longrightarrow> mem u y = mem s y"
  proof (cases do_free)
    case True
    obtain u where "kfree (PTE2PA e) s = Ok () u" "vm_ok u root (PTE2PA e # xs)" "kmem_only s u"
        "leafpte (mem u) root = leafpte (mem s) root" "pt_pages (mem u) root = pt_pages (mem s) root"
        "tpage (mem u) root (leaf_path a) = tpage (mem s) root (leaf_path a)"
        "\<And>y. \<not> in_page (PTE2PA e) y \<Longrightarrow> mem u y = mem s y"
      using vm_ok_kfree [OF ok, of "PTE2PA e" a] fr True by metis
    then show ?thesis using that [of u "PTE2PA e # xs"] True p by (simp add: kop_simps)
  next
    case False
    then show ?thesis using that [of s xs] ok p by (simp add: kop_simps)
  qed
  note st = map_store [OF u(2,7) a(1), where v = 0]
  let ?t = "u\<lparr>mem := store64 (mem u) ?pte 0\<rparr>"
  show ?thesis
  proof (rule that)
    show "uvmunmap_loop root a en do_free s = uvmunmap_loop root (a + PGSIZE) en do_free ?t"
      unfolding run by (simp add: kbind_apply kmod_apply u(1) del: of_nat_mult)
    show "vm_ok ?t root (if do_free then PTE2PA e # xs else xs)"
      using vm_rel_ok [OF st(1)] u(3) by simp
    show "kmem_only s ?t" using u(4) by (rule kmem_only_mem)
    show "pt_pages (mem ?t) root = pt_pages (mem s) root"
      using st(1) u(6) by (auto simp: vm_rel_def)
    show "leafpte (mem ?t) root b = (if b = a then 0 else leafpte (mem s) root b)" if "va_ok b" for b
      using st(2) [OF that] u(5) by simp
    show "mem ?t y = mem s y"
      if "\<forall>p\<in>pt_pages (mem s) root. \<not> in_page p y" "do_free \<Longrightarrow> \<not> in_page (PTE2PA e) y" for y
      using st(1) u(6) u(8) [of y] that by (auto simp: vm_rel_def)
  qed
qed

text \<open>The \<open>n\<close> pages from \<open>a\<close> removed from the mapping.\<close>

definition unmap_range :: "(u64 \<Rightarrow> u64) \<Rightarrow> u64 \<Rightarrow> nat \<Rightarrow> u64 \<Rightarrow> u64" where
  "unmap_range f a n b = (if unat a \<le> unat b \<and> unat b < unat a + 4096 * n then 0 else f b)"

text \<open>The physical pages behind the \<open>n\<close> pages from \<open>a\<close>.\<close>

primrec range_pas :: "(u64 \<Rightarrow> u64) \<Rightarrow> u64 \<Rightarrow> nat \<Rightarrow> addr list" where
  "range_pas f a 0 = []"
| "range_pas f a (Suc n) = PTE2PA (f a) # range_pas f (a + PGSIZE) n"

lemma range_pas_cong:
  assumes "n = 0 \<or> va_ok a" and "unat a + 4096 * n \<le> 2 ^ 38"
    and "\<And>b. va_ok b \<Longrightarrow> unat a \<le> unat b \<Longrightarrow> unat b < unat a + 4096 * n \<Longrightarrow> f b = g b"
  shows "range_pas f a n = range_pas g a n"
  using assms
proof (induction n arbitrary: a)
  case 0
  then show ?case by simp
next
  case (Suc n)
  have u: "unat (a + PGSIZE) = unat a + 4096" using Suc.prems(2) by (intro unat_next_page) simp
  have "range_pas f (a + PGSIZE) n = range_pas g (a + PGSIZE) n"
    using Suc.prems u by (intro Suc.IH) (auto intro: va_ok_next)
  then show ?case using Suc.prems by simp
qed

lemma range_end:
  fixes a :: u64
  assumes "unat a + 4096 * n \<le> 2 ^ 38"
  shows "unat (a + of_nat (4096 * n)) = unat a + 4096 * n"
  using assms by (intro unat_off) simp

lemma uvmunmap_free_ok:
  assumes "vm_ok s root xs" and "n = 0 \<or> va_ok a" and "unat a + 4096 * n \<le> 2 ^ 38"
    and "\<And>b. va_ok b \<Longrightarrow> unat a \<le> unat b \<Longrightarrow> unat b < unat a + 4096 * n \<Longrightarrow>
      f b AND PTE_V \<noteq> 0 \<and> PTE_FLAGS (f b) \<noteq> PTE_V"
    and "distinct (range_pas f a n)"
    and "\<And>p. p \<in> set (range_pas f a n) \<Longrightarrow> page_ok (kend s) p \<and> p \<notin> set xs \<and> p \<notin> pt_pages (mem s) root"
    and "\<And>b. va_ok b \<Longrightarrow> f b = leafpte (mem s) root b"
  shows "\<exists>t. uvmunmap_loop root a (a + of_nat (4096 * n)) True s = Ok () t \<and>
    vm_ok t root (rev (range_pas f a n) @ xs) \<and> kmem_only s t \<and>
    pt_pages (mem t) root = pt_pages (mem s) root \<and>
    (\<forall>b. va_ok b \<longrightarrow> leafpte (mem t) root b = unmap_range f a n b) \<and>
    (\<forall>y. (\<forall>p\<in>pt_pages (mem s) root. \<not> in_page p y) \<longrightarrow> (\<forall>p\<in>set (range_pas f a n). \<not> in_page p y) \<longrightarrow>
       mem t y = mem s y)"
  using assms
proof (induction n arbitrary: a s xs f)
  case 0
  then show ?case by (auto simp: uvmunmap_loop.simps unmap_range_def)
next
  case (Suc n)
  let ?en = "a + of_nat (4096 * Suc n)" and ?g = "\<lambda>b. if b = a then 0 else f b"
  have a: "va_ok a" using Suc.prems(2) by simp
  have u: "unat (a + PGSIZE) = unat a + 4096" using Suc.prems(3) by (intro unat_next_page) simp
  have lt: "a < ?en" using range_end [OF Suc.prems(3)] by (simp only: word_less_nat_alt) simp
  have en: "?en = (a + PGSIZE) + of_nat (4096 * n)" by simp
  have nx: "n = 0 \<or> va_ok (a + PGSIZE)"
    using a Suc.prems(3) by (cases n) (auto intro: va_ok_next)
  have e: "f a = leafpte (mem s) root a" "f a AND PTE_V \<noteq> 0" "PTE_FLAGS (f a) \<noteq> PTE_V"
    using Suc.prems(4) [of a] Suc.prems(7) a by auto
  have pa: "page_ok (kend s) (PTE2PA (f a)) \<and> PTE2PA (f a) \<notin> set xs \<and> PTE2PA (f a) \<notin> pt_pages (mem s) root"
    using Suc.prems(6) [of "PTE2PA (f a)"] by simp
  obtain t where t: "uvmunmap_loop root a ?en True s = uvmunmap_loop root (a + PGSIZE) ?en True t"
      "vm_ok t root (PTE2PA (f a) # xs)" "kmem_only s t" "pt_pages (mem t) root = pt_pages (mem s) root"
      "\<And>b. va_ok b \<Longrightarrow> leafpte (mem t) root b = (if b = a then 0 else leafpte (mem s) root b)"
      "\<And>y. \<lbrakk>\<forall>p\<in>pt_pages (mem s) root. \<not> in_page p y; \<not> in_page (PTE2PA (f a)) y\<rbrakk> \<Longrightarrow> mem t y = mem s y"
    using unmap_step [OF Suc.prems(1) a lt e, of True] pa by (auto split: if_splits)
  have tg: "leafpte (mem t) root b = ?g b" if "va_ok b" for b
    using t(5) Suc.prems(7) that by simp
  have rg: "range_pas ?g (a + PGSIZE) n = range_pas f (a + PGSIZE) n"
    using nx Suc.prems(3) u by (intro range_pas_cong) auto
  have "\<exists>v. uvmunmap_loop root (a + PGSIZE) ((a + PGSIZE) + of_nat (4096 * n)) True t = Ok () v \<and>
    vm_ok v root (rev (range_pas ?g (a + PGSIZE) n) @ PTE2PA (f a) # xs) \<and> kmem_only t v \<and>
    pt_pages (mem v) root = pt_pages (mem t) root \<and>
    (\<forall>b. va_ok b \<longrightarrow> leafpte (mem v) root b = unmap_range ?g (a + PGSIZE) n b) \<and>
    (\<forall>y. (\<forall>p\<in>pt_pages (mem t) root. \<not> in_page p y) \<longrightarrow>
       (\<forall>p\<in>set (range_pas ?g (a + PGSIZE) n). \<not> in_page p y) \<longrightarrow> mem v y = mem t y)"
  proof (rule Suc.IH [OF t(2) nx])
    show "?g b AND PTE_V \<noteq> 0 \<and> PTE_FLAGS (?g b) \<noteq> PTE_V"
      if "va_ok b" "unat (a + PGSIZE) \<le> unat b" "unat b < unat (a + PGSIZE) + 4096 * n" for b
      using that Suc.prems(4) [of b] u by auto
    show "page_ok (kend t) p \<and> p \<notin> set (PTE2PA (f a) # xs) \<and> p \<notin> pt_pages (mem t) root"
      if "p \<in> set (range_pas ?g (a + PGSIZE) n)" for p
      using that Suc.prems(5) Suc.prems(6) [of p] t(4) kmem_only_kend [OF t(3)] unfolding rg by auto
  qed (use Suc.prems(3,5) u tg rg in auto)
  then obtain v where v: "uvmunmap_loop root (a + PGSIZE) ?en True t = Ok () v"
      "vm_ok v root (rev (range_pas f (a + PGSIZE) n) @ PTE2PA (f a) # xs)" "kmem_only t v"
      "pt_pages (mem v) root = pt_pages (mem t) root"
      "\<forall>b. va_ok b \<longrightarrow> leafpte (mem v) root b = unmap_range ?g (a + PGSIZE) n b"
      "\<forall>y. (\<forall>p\<in>pt_pages (mem t) root. \<not> in_page p y) \<longrightarrow>
       (\<forall>p\<in>set (range_pas f (a + PGSIZE) n). \<not> in_page p y) \<longrightarrow> mem v y = mem t y"
    unfolding en rg by blast
  have "leafpte (mem v) root b = unmap_range f a (Suc n) b" if "va_ok b" for b
    using v(5) that u page_gap [OF a that] by (auto simp: unmap_range_def)
  then show ?case
    using t v kmem_only_trans [OF t(3) v(3)] by (intro exI [of _ v]) (auto simp del: of_nat_mult of_nat_Suc)
qed

lemma uvmunmap_stop:
  assumes "va_ok a" and "a < en"
    and "leafpte (mem s) root a AND PTE_V = 0 \<or> PTE_FLAGS (leafpte (mem s) root a) = PTE_V"
  shows "\<exists>msg. uvmunmap_loop root a en f s = Stop (Panicked msg) s"
proof (cases "tpage (mem s) root (leaf_path a)")
  case None
  have "uvmunmap_loop root a en f s = Stop (Panicked ''uvmunmap: walk'') s"
    using assms(1,2) None by (subst uvmunmap_loop.simps) (simp add: va_ok_def walk_lookup kop_simps)
  then show ?thesis by blast
next
  case (Some p)
  define slot where "slot = p + of_nat (8 * unat (PX 0 a))"
  have "leafpte (mem s) root a = load64 (mem s) slot"
    using Some by (simp add: leafpte_def entry_def slot_def del: of_nat_mult)
  with assms(3) have e: "load64 (mem s) slot AND 1 = 0 \<or> PTE_FLAGS (load64 (mem s) slot) = 1" by simp
  have w: "walk root a False s = Ok slot s"
    using assms(1) Some by (simp add: va_ok_def walk_lookup slot_def del: of_nat_mult)
  show ?thesis
    using assms(2) w e by (subst uvmunmap_loop.simps) (auto simp: kop_simps)
qed

text \<open>A page without a mapping in the range makes \<open>uvmunmap\<close> panic.\<close>

lemma uvmunmap_hole:
  assumes "vm_ok s root xs" and "va_ok a" and "va_ok b" and "unat a \<le> unat b" and "b < en"
    and "leafpte (mem s) root b AND PTE_V = 0"
  shows "\<exists>msg t. uvmunmap_loop root a en False s = Stop (Panicked msg) t"
proof -
  obtain k where k: "unat b = unat a + 4096 * k"
  proof -
    have "unat b = 4096 * (unat b div 4096)" "unat a = 4096 * (unat a div 4096)"
      using assms(2,3) by (auto simp: va_ok_def aligned_def)
    then have "unat b = unat a + 4096 * (unat b div 4096 - unat a div 4096)"
      using assms(4) by (simp add: diff_mult_distrib2)
    then show ?thesis by (rule that)
  qed
  show ?thesis using assms k
  proof (induction k arbitrary: a s)
    case 0
    then have "a = b" by (metis add_0_right mult_0_right unsigned_word_eqI)
    then show ?case using uvmunmap_stop "0.prems" by blast
  next
    case (Suc k)
    let ?e = "leafpte (mem s) root a"
    have lt: "a < en" using Suc.prems by (simp add: word_less_nat_alt)
    show ?case
    proof (cases "?e AND PTE_V \<noteq> 0 \<and> PTE_FLAGS ?e \<noteq> PTE_V")
      case True
      have u: "unat (a + PGSIZE) = unat a + 4096"
        using Suc.prems va_ok_bound [of b] by (intro unat_next_page) simp
      obtain t where t: "uvmunmap_loop root a en False s = uvmunmap_loop root (a + PGSIZE) en False t"
          "vm_ok t root xs" "\<And>b. va_ok b \<Longrightarrow> leafpte (mem t) root b = (if b = a then 0 else leafpte (mem s) root b)"
        by (rule unmap_step [OF Suc.prems(1,2) lt refl, of False]) (use True that in auto)
      have "\<exists>msg v. uvmunmap_loop root (a + PGSIZE) en False t = Stop (Panicked msg) v"
        using Suc.prems u t va_ok_bound [of b] by (intro Suc.IH) (auto intro: va_ok_next)
      then show ?thesis using t by simp
    next
      case False
      then show ?thesis using uvmunmap_stop Suc.prems(2) lt by blast
    qed
  qed
qed

end
