(* ===== verification/Vm_Copy.thy ===== *)
theory Vm_Copy
  imports Vm_Space
begin

text \<open>
  Copies between kernel and user memory, \<open>copyout\<close>, \<open>copyin\<close> and \<open>copyinstr\<close> of
  \<open>kernel/vm.c\<close>, against user memory as a function of virtual addresses: \<open>uaddr\<close> is
  the physical address behind a virtual one.
\<close>

section \<open>User memory\<close>

definition uaddr :: "memory \<Rightarrow> addr \<Rightarrow> u64 \<Rightarrow> addr" where
  "uaddr m root va = PTE2PA (leafpte m root va) + (va - PGROUNDDOWN va)"

text \<open>\<open>va\<close> belongs to a page the user may access.\<close>

definition umapped :: "memory \<Rightarrow> addr \<Rightarrow> u64 \<Rightarrow> bool" where
  "umapped m root va \<longleftrightarrow> va < MAXVA \<and> leafpte m root va AND PTE_V \<noteq> 0 \<and>
     leafpte m root va AND PTE_U \<noteq> 0 \<and> PTE2PA (leafpte m root va) \<noteq> 0"

text \<open>
  User pages are separate: different virtual pages lie on different physical pages, and
  none of them is a page of the table. No table page is at address 0.
\<close>

definition user_wf :: "memory \<Rightarrow> addr \<Rightarrow> bool" where
  "user_wf m root \<longleftrightarrow> pt_wf m root \<and> 0 \<notin> pt_pages m root \<and>
     (\<forall>a. umapped m root a \<longrightarrow> PTE2PA (leafpte m root a) \<notin> pt_pages m root) \<and>
     (\<forall>a b. umapped m root a \<longrightarrow> umapped m root b \<longrightarrow>
        PTE2PA (leafpte m root a) = PTE2PA (leafpte m root b) \<longrightarrow> PGROUNDDOWN a = PGROUNDDOWN b)"

lemma PX_PGROUNDDOWN: "PX level (PGROUNDDOWN va) = PX level va"
proof -
  have "unat va div 4096 * 4096 div 2 ^ (12 + 9 * level) = unat va div 2 ^ (12 + 9 * level)"
  proof -
    have "(2::nat) ^ (12 + 9 * level) = 4096 * 2 ^ (9 * level)" by (simp add: power_add)
    then show ?thesis by (simp add: div_mult2_eq)
  qed
  then have "unat (PX level (PGROUNDDOWN va)) = unat (PX level va)"
    by (simp add: unat_PX unat_PGROUNDDOWN PXSHIFT_def)
  then show ?thesis by (rule unsigned_word_eqI)
qed

lemma leafpte_PGROUNDDOWN [simp]: "leafpte m root (PGROUNDDOWN va) = leafpte m root va"
  by (simp add: leafpte_def leaf_path_def PX_PGROUNDDOWN)

lemma PGROUNDDOWN_less: "PGROUNDDOWN va < MAXVA \<longleftrightarrow> va < MAXVA"
proof -
  have "unat va div 4096 * 4096 < 4096 * 67108864 \<longleftrightarrow> unat va < 4096 * 67108864"
    by (metis div_less_iff_less_mult mult.commute mult_less_cancel2 zero_less_numeral)
  then show ?thesis by (simp add: word_less_nat_alt unat_PGROUNDDOWN)
qed

lemma walkaddr_lookup:
  "walkaddr root va s = Ok (if va < MAXVA \<and> leafpte (mem s) root va AND PTE_V \<noteq> 0 \<and>
     leafpte (mem s) root va AND PTE_U \<noteq> 0 \<and>
     (case tpage (mem s) root (leaf_path va) of None \<Rightarrow> 0 | Some p \<Rightarrow> p + of_nat (8 * unat (PX 0 va))) \<noteq> 0
     then PTE2PA (leafpte (mem s) root va) else 0) s"
  by (auto simp: walkaddr_def walk_lookup kop_simps leafpte_def entry_def not_le
      simp del: of_nat_mult split: option.split)

lemma walkaddr_umapped:
  assumes "user_wf (mem s) root" and "umapped (mem s) root va"
  shows "walkaddr root (PGROUNDDOWN va) s = Ok (PTE2PA (leafpte (mem s) root va)) s"
proof -
  have v: "leafpte (mem s) root va AND PTE_V \<noteq> 0" using assms(2) by (simp add: umapped_def)
  obtain p where p: "tpage (mem s) root (leaf_path va) = Some p"
    using leafpte_tpage [OF v] by metis
  have wf: "pt_wf (mem s) root" using assms(1) by (simp add: user_wf_def)
  have "p \<in> pt_pages (mem s) root" using tpage_pages [OF p] by simp
  then have "p \<noteq> 0" using assms(1) by (auto simp: user_wf_def)
  then have "p + of_nat (8 * unat (PX 0 va)) \<noteq> 0"
    using tpage_aligned [OF wf p] PX_bound by (intro slot_nonzero)
  moreover have "leaf_path (PGROUNDDOWN va) = leaf_path va"
    by (simp add: leaf_path_def PX_PGROUNDDOWN)
  ultimately show ?thesis
    using assms(2) p
    by (simp add: walkaddr_lookup umapped_def PGROUNDDOWN_less PX_PGROUNDDOWN del: of_nat_mult)
qed

text \<open>Within a page, consecutive virtual addresses lie at consecutive physical ones.\<close>

lemma same_page:
  assumes "i < page_room va" and "unat va + i < 2 ^ 64"
  shows "PGROUNDDOWN (va + of_nat i) = PGROUNDDOWN va"
proof -
  have u: "unat (va + of_nat i) = unat va + i" using assms(2) by (intro unat_off) simp
  define q r where "q = unat va div 4096" and "r = unat va mod 4096"
  have "unat va = q * 4096 + r" "r + i < 4096"
    using assms(1) by (simp_all add: q_def r_def page_room_eq less_diff_conv add.commute)
  then have "(unat va + i) div 4096 = q" by simp
  then have "unat (PGROUNDDOWN (va + of_nat i)) = unat (PGROUNDDOWN va)"
    unfolding unat_PGROUNDDOWN u q_def by simp
  then show ?thesis by (rule unsigned_word_eqI)
qed

lemma uaddr_off:
  assumes "i < page_room va" and "unat va + i < 2 ^ 64"
  shows "uaddr m root (va + of_nat i) = uaddr m root va + of_nat i"
proof -
  note sp = same_page [OF assms]
  have "leafpte m root (va + of_nat i) = leafpte m root va"
    by (metis leafpte_PGROUNDDOWN sp)
  then show ?thesis unfolding uaddr_def sp by (simp add: algebra_simps)
qed

lemma next_page:
  assumes "page_room va < len" and "unat va + len \<le> 2 ^ 38"
  shows "PGROUNDDOWN va + PGSIZE = va + of_nat (page_room va)"
    and "unat (va + of_nat (page_room va)) = unat va + page_room va"
proof -
  show u: "unat (va + of_nat (page_room va)) = unat va + page_room va"
    using assms by (intro unat_off) simp
  have r: "unat va div 4096 * 4096 + 4096 = unat va + page_room va"
    using div_mult_mod_eq [of "unat va" 4096] mod_less_divisor [of 4096 "unat va"]
    unfolding page_room_eq by linarith
  have "unat (PGROUNDDOWN va + PGSIZE) = unat va + page_room va"
  proof -
    have "unat (PGROUNDDOWN va) + 4096 < 2 ^ 64"
      using r assms by (simp add: unat_PGROUNDDOWN)
    then have "unat (PGROUNDDOWN va + PGSIZE) = unat (PGROUNDDOWN va) + 4096"
      by (simp add: unat_plus_if')
    then show ?thesis using r by (simp add: unat_PGROUNDDOWN)
  qed
  then show "PGROUNDDOWN va + PGSIZE = va + of_nat (page_room va)"
    unfolding u [symmetric] by (rule unsigned_word_eqI)
qed

section \<open>copyin\<close>

definition uread :: "memory \<Rightarrow> addr \<Rightarrow> u64 \<Rightarrow> nat \<Rightarrow> byte list" where
  "uread m root va n = map (\<lambda>i. m (uaddr m root (va + of_nat i))) [0..<n]"

lemma uread_split:
  assumes "k \<le> n"
  shows "uread m root va n = uread m root va k @ uread m root (va + of_nat k) (n - k)"
proof -
  have "[0..<n] = [0..<k] @ map (\<lambda>i. i + k) [0..<n - k]"
    using assms upt_add_eq_append [of 0 k "n - k"] by (simp add: map_add_upt)
  then show ?thesis by (simp add: uread_def o_def algebra_simps)
qed

lemma uread_page:
  assumes "n \<le> page_room va" and "unat va + n \<le> 2 ^ 38"
  shows "mem_read m (uaddr m root va) n = uread m root va n"
  unfolding mem_read_def uread_def
  by (rule map_cong [OF refl]) (use assms in \<open>simp add: uaddr_off\<close>)

lemma copyin_ok:
  assumes "user_wf (mem s) root" and "unat va + len \<le> 2 ^ 38"
    and "\<And>i. i < len \<Longrightarrow> umapped (mem s) root (va + of_nat i)"
  shows "copyin root va len s = Ok (0, uread (mem s) root va len) s"
  using assms(2,3)
proof (induction len arbitrary: va rule: less_induct)
  case (less len)
  show ?case
  proof (cases "len = 0")
    case True
    then show ?thesis by (simp add: copyin.simps uread_def)
  next
    case False
    let ?n = "min (page_room va) len"
    have m0: "umapped (mem s) root va" using less.prems(2) [of 0] False by simp
    then have pa: "PTE2PA (leafpte (mem s) root va) \<noteq> 0" by (simp add: umapped_def)
    have step: "copyin root va len s = kbind (copyin root (PGROUNDDOWN va + PGSIZE) (len - ?n))
        (\<lambda>(r, more). kret (r, mem_read (mem s) (uaddr (mem s) root va) ?n @ more)) s"
      using False pa by (subst copyin.simps)
        (simp add: Let_def kop_simps walkaddr_umapped [OF assms(1) m0] uaddr_def split: prod.split)
    have chunk: "mem_read (mem s) (uaddr (mem s) root va) ?n = uread (mem s) root va ?n"
      using less.prems(1) by (intro uread_page) auto
    show ?thesis
    proof (cases "page_room va < len")
      case True
      note np = next_page [OF True less.prems(1)]
      have "copyin root (va + of_nat (page_room va)) (len - page_room va) s =
          Ok (0, uread (mem s) root (va + of_nat (page_room va)) (len - page_room va)) s"
      proof (rule less.IH)
        show "len - page_room va < len" using page_room_pos [of va] False by simp
        show "umapped (mem s) root (va + of_nat (page_room va) + of_nat i)"
          if "i < len - page_room va" for i
          using less.prems(2) [of "page_room va + i"] that by (simp add: algebra_simps)
      qed (use np less.prems True in simp)
      then show ?thesis
        using step chunk True np(1) uread_split [of "page_room va" len "mem s" root va]
        by (simp add: kop_simps)
    next
      case F: False
      then have "?n = len" by simp
      moreover have "copyin root x 0 s = Ok (0, []) s" for x by (simp add: copyin.simps)
      ultimately show ?thesis using step chunk by (simp add: kop_simps)
    qed
  qed
qed

section \<open>copyout\<close>

text \<open>The bytes \<open>bs\<close> stored at the virtual addresses from \<open>va\<close> under the translation \<open>A\<close>.\<close>

primrec uwrite :: "(u64 \<Rightarrow> addr) \<Rightarrow> memory \<Rightarrow> u64 \<Rightarrow> byte list \<Rightarrow> memory" where
  "uwrite A m va [] = m"
| "uwrite A m va (b # bs) = uwrite A (m(A va := b)) (va + 1) bs"

lemma uwrite_other:
  "(\<And>i. i < length bs \<Longrightarrow> x \<noteq> A (va + of_nat i)) \<Longrightarrow> uwrite A m va bs x = m x"
proof (induction bs arbitrary: m va)
  case (Cons b bs)
  have "x \<noteq> A va" using Cons.prems [of 0] by simp
  moreover have "x \<noteq> A (va + 1 + of_nat i)" if "i < length bs" for i
    using Cons.prems [of "Suc i"] that by (simp add: algebra_simps)
  ultimately show ?case using Cons.IH [of "va + 1" "m(A va := b)"] by (simp add: fun_upd_def)
qed simp

lemma uwrite_at:
  assumes "inj_on (\<lambda>i. A (va + of_nat i)) {..<length bs}" and "i < length bs"
  shows "uwrite A m va bs (A (va + of_nat i)) = bs ! i"
  using assms
proof (induction bs arbitrary: m va i)
  case (Cons b bs)
  have inj: "inj_on (\<lambda>i. A (va + 1 + of_nat i)) {..<length bs}"
  proof (rule inj_onI)
    fix j k assume "j \<in> {..<length bs}" "k \<in> {..<length bs}" "A (va + 1 + of_nat j) = A (va + 1 + of_nat k)"
    then show "j = k" using inj_onD [OF Cons.prems(1), of "Suc j" "Suc k"] by (simp add: algebra_simps)
  qed
  show ?case
  proof (cases i)
    case 0
    have "A va \<noteq> A (va + 1 + of_nat j)" if "j < length bs" for j
      using inj_onD [OF Cons.prems(1), of 0 "Suc j"] that by (auto simp: algebra_simps)
    then show ?thesis using 0 by (simp add: uwrite_other)
  next
    case (Suc j)
    have "va + of_nat i = va + 1 + of_nat j" by (simp add: Suc algebra_simps)
    then show ?thesis using Cons.IH [OF inj, of j "m(A va := b)"] Cons.prems(2) Suc by (simp add: fun_upd_def add.assoc)
  qed
qed simp

lemma uwrite_append:
  "uwrite A m va (xs @ ys) = uwrite A (uwrite A m va xs) (va + of_nat (length xs)) ys"
  by (induction xs arbitrary: m va) (simp_all add: algebra_simps)

lemma of_nat_u64_inj:
  assumes "(of_nat j :: u64) = of_nat k" and "j < 2 ^ 38" and "k < 2 ^ 38"
  shows "j = k"
proof -
  have "unat (of_nat j :: u64) = j" "unat (of_nat k :: u64) = k"
    using assms(2,3) by (intro unat_of_nat_small; simp)+
  then show ?thesis using assms(1) by metis
qed

lemma mem_write_uwrite:
  assumes "length bs \<le> 2 ^ 38" and "\<And>i. i < length bs \<Longrightarrow> A (va + of_nat i) = a + of_nat i"
  shows "mem_write m a bs = uwrite A m va bs"
proof
  fix x
  show "mem_write m a bs x = uwrite A m va bs x"
  proof (cases "unat (x - a) < length bs")
    case True
    let ?i = "unat (x - a)"
    have "inj_on (\<lambda>i. A (va + of_nat i)) {..<length bs}"
    proof (rule inj_onI)
      fix j k assume "j \<in> {..<length bs}" "k \<in> {..<length bs}" "A (va + of_nat j) = A (va + of_nat k)"
      then have "a + (of_nat j :: u64) = a + of_nat k" "j < 2 ^ 38" "k < 2 ^ 38"
        using assms(1) assms(2) [of j] assms(2) [of k] by auto
      then show "j = k" by (metis add_left_cancel of_nat_u64_inj)
    qed
    then have "uwrite A m va bs (A (va + of_nat ?i)) = bs ! ?i" using True by (rule uwrite_at)
    then show ?thesis using assms(2) [OF True] True by (simp add: mem_write_def)
  next
    case False
    have "uwrite A m va bs x = m x"
    proof (rule uwrite_other)
      fix i assume "i < length bs"
      moreover have "unat (a + of_nat i - a) = i"
        using assms(1) \<open>i < length bs\<close> by (simp add: unat_of_nat_small)
      ultimately show "x \<noteq> A (va + of_nat i)" using False assms(2) by auto
    qed
    with False show ?thesis by (simp add: mem_write_def)
  qed
qed

lemma uaddr_in_page: "in_page (PTE2PA (leafpte m root va)) (uaddr m root va)"
proof -
  have "unat (va - PGROUNDDOWN va) < 4096"
    using in_page_PGROUNDDOWN [of va] by (simp add: in_page_diff)
  then show ?thesis by (simp add: in_page_diff uaddr_def)
qed

lemma uaddr_inj:
  assumes "user_wf m root" and "umapped m root a" and "umapped m root b" and "uaddr m root a = uaddr m root b"
  shows "a = b"
proof -
  have eq: "PTE2PA (leafpte m root a) = PTE2PA (leafpte m root b)"
    using in_page_unique [OF uaddr_in_page [of m root a]] uaddr_in_page [of m root b] assms(4) by simp
  then have "PGROUNDDOWN a = PGROUNDDOWN b" using assms(1-3) unfolding user_wf_def by blast
  with eq assms(4) show ?thesis by (simp add: uaddr_def)
qed

lemma uwrite_frame:
  assumes wf: "user_wf m root" and um: "\<And>i. i < length bs \<Longrightarrow> umapped m root (va + of_nat i)"
    and m': "m' = uwrite (uaddr m root) m va bs"
  shows "leafpte m' root = leafpte m root" and "user_wf m' root" and "umapped m' root = umapped m root"
    and "uaddr m' root = uaddr m root"
proof -
  have fr: "m' x = m x" if "p \<in> pt_pages m root" "in_page p x" for p x
    unfolding m'
  proof (rule uwrite_other)
    fix i assume "i < length bs"
    then have "PTE2PA (leafpte m root (va + of_nat i)) \<noteq> p"
      using wf um that(1) by (auto simp: user_wf_def)
    moreover have "aligned p" using wf that(1) pt_pages_aligned by (auto simp: user_wf_def)
    ultimately show "x \<noteq> uaddr m root (va + of_nat i)"
      using that(2) pages_disjoint [of p _ x] uaddr_in_page by (metis aligned_PTE2PA)
  qed
  have ptwf: "pt_wf m root" using wf by (simp add: user_wf_def)
  have pf: "pt_wf m' root" "pt_pages m' root = pt_pages m root" and lp: "leafpte m' root = leafpte m root"
    by (rule pt_frame [OF ptwf]; use fr in blast)+
  show "leafpte m' root = leafpte m root" by (rule lp)
  show u: "umapped m' root = umapped m root" by (intro ext) (simp only: umapped_def lp)
  show "user_wf m' root" using wf pf(1) unfolding user_wf_def lp u pf(2) by blast
  show "uaddr m' root = uaddr m root" by (intro ext) (simp only: uaddr_def lp)
qed

lemma copyout_ok:
  assumes "user_wf (mem s) root" and "unat va + length src \<le> 2 ^ 38"
    and "\<And>i. i < length src \<Longrightarrow> umapped (mem s) root (va + of_nat i)"
  shows "copyout root va src s = Ok 0 (s\<lparr>mem := uwrite (uaddr (mem s) root) (mem s) va src\<rparr>)"
  using assms
proof (induction src arbitrary: va s rule: length_induct)
  case (1 src)
  show ?case
  proof (cases "src = []")
    case True
    then show ?thesis by (subst copyout.simps) simp
  next
    case False
    let ?n = "min (page_room va) (length src)" and ?A = "uaddr (mem s) root"
    let ?m = "uwrite ?A (mem s) va (take ?n src)"
    have m0: "umapped (mem s) root va" using "1.prems"(3) [of 0] False by simp
    then have pa: "PTE2PA (leafpte (mem s) root va) \<noteq> 0" by (simp add: umapped_def)
    have w: "mem_write (mem s) (?A va) (take ?n src) = ?m"
      using "1.prems"(2) by (intro mem_write_uwrite) (auto simp: uaddr_off)
    have step: "copyout root va src s =
        copyout root (PGROUNDDOWN va + PGSIZE) (drop ?n src) (s\<lparr>mem := ?m\<rparr>)"
      using False pa w by (subst copyout.simps)
        (simp add: Let_def kop_simps walkaddr_umapped [OF "1.prems"(1) m0] uaddr_def)
    have fr: "user_wf ?m root" "umapped ?m root = umapped (mem s) root" "uaddr ?m root = ?A"
      by (rule uwrite_frame [OF "1.prems"(1) _ refl]; use "1.prems"(3) in simp)+
    show ?thesis
    proof (cases "page_room va < length src")
      case True
      note np = next_page [OF True "1.prems"(2)]
      have "copyout root (va + of_nat (page_room va)) (drop (page_room va) src) (s\<lparr>mem := ?m\<rparr>) =
          Ok 0 (s\<lparr>mem := ?m, mem := uwrite ?A ?m (va + of_nat (page_room va)) (drop (page_room va) src)\<rparr>)"
      proof -
        have l: "length (drop (page_room va) src) < length src"
          using page_room_pos [of va] False by simp
        have u: "umapped (mem s) root (va + of_nat (page_room va) + of_nat i)"
          if "i < length (drop (page_room va) src)" for i
          using "1.prems"(3) [of "page_room va + i"] that by (simp add: algebra_simps)
        show ?thesis
          using "1.IH" [rule_format, OF l, of "s\<lparr>mem := ?m\<rparr>" "va + of_nat (page_room va)"] fr u np(2) "1.prems"(2) True
          by simp
      qed
      moreover have "uwrite ?A ?m (va + of_nat (page_room va)) (drop (page_room va) src) = uwrite ?A (mem s) va src"
        using uwrite_append [of ?A "mem s" va "take (page_room va) src" "drop (page_room va) src"] True by simp
      ultimately show ?thesis using step np(1) True by simp
    next
      case F: False
      moreover have "copyout root x [] t = Ok 0 t" for x t by (subst copyout.simps) simp
      ultimately show ?thesis using step by simp
    qed
  qed
qed

lemma copyout_uread:
  assumes "user_wf m root" and "\<And>i. i < length bs \<Longrightarrow> umapped m root (va + of_nat i)"
    and "length bs \<le> 2 ^ 38"
  shows "uread (uwrite (uaddr m root) m va bs) root va (length bs) = bs"
proof -
  have inj: "inj_on (\<lambda>i. uaddr m root (va + of_nat i)) {..<length bs}"
  proof (rule inj_onI)
    fix i j assume a: "i \<in> {..<length bs}" "j \<in> {..<length bs}" "uaddr m root (va + of_nat i) = uaddr m root (va + of_nat j)"
    then have "va + of_nat i = va + of_nat j" using uaddr_inj [OF assms(1) assms(2) assms(2)] by simp
    moreover have "i < 2 ^ 38" "j < 2 ^ 38" using a assms(3) by auto
    ultimately show "i = j" by (metis add_left_cancel of_nat_u64_inj)
  qed
  have "uaddr (uwrite (uaddr m root) m va bs) root = uaddr m root"
    by (rule uwrite_frame [OF assms(1) _ refl]) (use assms(2) in simp)
  then show ?thesis
    by (intro nth_equalityI) (simp_all add: uread_def uwrite_at [OF inj])
qed

end
