(* ===== verification/Vm_Props.thy ===== *)
theory Vm_Props
  imports Vm_Copy
begin

text \<open>
  The properties of virtual memory, with a small page table on which they are instantiated:
  one user page at address 0 behind a root, a middle and a leaf table.
\<close>

section \<open>Page ranges\<close>

lemma mappages_range:
  assumes "va_ok a" and "0 < n" and "unat a + 4096 * n \<le> 2 ^ 38"
  shows "mappages root a (of_nat (4096 * n)) pa perm s =
    mappages_loop root a (a + of_nat (4096 * (n - 1))) pa perm s"
proof -
  have lt: "4096 * n < 2 ^ 64" using assms(3) by simp
  have sz: "(of_nat (4096 * n) :: u64) \<noteq> 0"
  proof -
    have "unat (of_nat (4096 * n) :: u64) = 4096 * n" using lt by (intro unat_of_nat_small) simp
    then show ?thesis using assms(2) by (metis mult_is_0 not_less_zero unat_0 zero_neq_numeral)
  qed
  obtain k where n: "n = Suc k" using assms(2) by (cases n) auto
  have la: "a + of_nat (4096 * n) - 1 = (a + of_nat (4096 * k)) + of_nat 4095"
    by (simp add: n algebra_simps)
  have u: "unat (a + of_nat (4096 * k)) = unat a + 4096 * k"
    using assms(3) n by (intro range_end) simp
  have b: "unat (a + of_nat (4096 * k)) + 4095 < 2 ^ LENGTH(64)"
    unfolding u using assms(3) n by simp
  have u2: "unat ((a + of_nat (4096 * k)) + of_nat 4095) = unat a + 4096 * k + 4095"
    by (simp only: unat_off [OF b] u)
  have al: "unat a mod 4096 = 0" using assms(1) by (simp add: va_ok_def aligned_def)
  have "unat (PGROUNDDOWN (a + of_nat (4096 * n) - 1)) = unat (a + of_nat (4096 * k))"
  proof -
    obtain j where j: "unat a = 4096 * j" using al by auto
    have "(unat a + 4096 * k + 4095) div 4096 = j + k" unfolding j by (intro div_nat_eqI) simp_all
    then show ?thesis unfolding la unat_PGROUNDDOWN u2 u by (simp add: j)
  qed
  then have "PGROUNDDOWN (a + of_nat (4096 * n) - 1) = a + of_nat (4096 * (n - 1))"
    by (simp add: n unsigned_word_eqI del: of_nat_mult)
  moreover have "PGROUNDDOWN a = a" using assms(1) by (simp add: va_ok_def PGROUNDDOWN_aligned)
  ultimately show ?thesis
    using sz by (simp add: mappages_def kop_simps del: of_nat_mult)
qed

section \<open>A small page table\<close>

abbreviation (input) pgA :: addr where "pgA \<equiv> 0x80001000"
abbreviation (input) pgB :: addr where "pgB \<equiv> 0x80002000"
abbreviation (input) pgC :: addr where "pgC \<equiv> 0x80003000"
abbreviation (input) pgD :: addr where "pgD \<equiv> 0x80004000"

definition demo_mem :: memory where
  "demo_mem = store64 (store64 (store64 (\<lambda>_. 0) pgA (PA2PTE pgB OR PTE_V)) pgB (PA2PTE pgC OR PTE_V))
     pgC (PA2PTE pgD OR 0x17)"

lemma demo_aligned: "aligned pgA" "aligned pgB" "aligned pgC" "aligned pgD"
  by (simp_all add: aligned_def)

lemma demo_entry:
  assumes "aligned p" and "i < 512"
  shows "entry demo_mem p i = (if i = 0 \<and> p = pgA then PA2PTE pgB OR PTE_V
    else if i = 0 \<and> p = pgB then PA2PTE pgC OR PTE_V
    else if i = 0 \<and> p = pgC then PA2PTE pgD OR 0x17 else 0)"
proof -
  have z: "entry (\<lambda>_. 0) p i = 0" by (simp add: entry_def load64_zero)
  have st: "entry (store64 m q v) p i = (if q = p \<and> i = 0 then v else entry m p i)"
    if "aligned q" for m q v
    using entry_store [OF that assms(1) _ assms(2), of 0 m v] by auto
  show ?thesis
    unfolding demo_mem_def st [OF demo_aligned(3)] st [OF demo_aligned(2)] st [OF demo_aligned(1)] z
    by auto
qed

lemma demo_ptes:
  "(PA2PTE pgB OR PTE_V) AND PTE_V \<noteq> 0" "PTE2PA (PA2PTE pgB OR PTE_V) = pgB"
  "(PA2PTE pgC OR PTE_V) AND PTE_V \<noteq> 0" "PTE2PA (PA2PTE pgC OR PTE_V) = pgC"
  "(PA2PTE pgD OR 0x17) AND PTE_V \<noteq> 0" "(PA2PTE pgD OR 0x17) AND PTE_U \<noteq> 0"
  "PTE2PA (PA2PTE pgD OR 0x17) = pgD" "PTE_FLAGS (PA2PTE pgD OR 0x17) = 0x17"
  by (simp_all add: PA2PTE_def PTE2PA_def PTE_FLAGS_def push_bit_eq_mult drop_bit_eq_div)

lemma demo_tpage:
  assumes "is \<in> paths"
  shows "tpage demo_mem pgA is =
    (if is = [] then Some pgA else if is = [0] then Some pgB else if is = [0, 0] then Some pgC else None)"
  using assms
proof (induction "is")
  case (Cons i "is")
  note p = paths_ConsD [OF Cons.prems]
  then show ?case
    using Cons.IH demo_aligned by (auto simp: demo_entry demo_ptes)
qed simp

lemma demo_pages: "pt_pages demo_mem pgA = {pgA, pgB, pgC}"
proof -
  have "[0] \<in> paths" "[0, 0] \<in> paths" by (simp_all add: paths_def)
  then have "tpage demo_mem pgA [0] = Some pgB" "tpage demo_mem pgA [0, 0] = Some pgC"
    by (simp_all only: demo_tpage) simp_all
  then have "pgA \<in> pt_pages demo_mem pgA" "pgB \<in> pt_pages demo_mem pgA" "pgC \<in> pt_pages demo_mem pgA"
    using \<open>[0] \<in> paths\<close> \<open>[0, 0] \<in> paths\<close> tpage_pages by (simp, blast, blast)
  moreover have "pt_pages demo_mem pgA \<subseteq> {pgA, pgB, pgC}"
    by (auto simp: pt_pages_def demo_tpage split: if_splits)
  ultimately show ?thesis by blast
qed

lemma demo_wf: "pt_wf demo_mem pgA"
  by (auto simp: pt_wf_def demo_tpage demo_aligned split: if_splits)

lemma demo_leafpte:
  "leafpte demo_mem pgA va = (if PX 2 va = 0 \<and> PX 1 va = 0 \<and> PX 0 va = 0 then PA2PTE pgD OR 0x17 else 0)"
proof -
  have "tpage demo_mem pgA (leaf_path va) = (if PX 2 va = 0 \<and> PX 1 va = 0 then Some pgC else None)"
    by (simp add: demo_tpage) (auto simp: leaf_path_def unat_eq_0)
  then show ?thesis
    using PX_bound by (simp add: leafpte_def demo_entry demo_aligned unat_eq_0)
qed

lemma PX_small: "unat va < 4096 \<Longrightarrow> PX level va = 0"
proof -
  assume a: "unat va < 4096"
  have "(4096::nat) \<le> 2 ^ (12 + 9 * level)" by (simp add: power_add)
  then have "unat (PX level va) = 0" using a by (simp add: unat_PX PXSHIFT_def)
  then show ?thesis by (simp add: unat_eq_0)
qed

lemma demo_page0:
  assumes "PX 2 va = 0" and "PX 1 va = 0" and "PX 0 va = 0" and "va < MAXVA"
  shows "PGROUNDDOWN va = 0"
proof -
  have "unat va < 2 ^ 39" using assms(4) by (simp add: word_less_nat_alt)
  then have "unat (PGROUNDDOWN va) < 2 ^ 39" by (simp add: unat_PGROUNDDOWN)
  then show ?thesis
    using assms(1-3) by - (rule PX_inj, simp_all add: PX_PGROUNDDOWN aligned_def PX_small unat_PGROUNDDOWN)
qed

lemma demo_user_wf: "user_wf demo_mem pgA"
  unfolding user_wf_def demo_pages
  by (auto simp: demo_wf umapped_def demo_leafpte demo_ptes demo_page0 split: if_splits)

lemma demo_umapped: "unat va < 4096 \<Longrightarrow> umapped demo_mem pgA va"
  by (simp add: umapped_def demo_leafpte PX_small demo_ptes word_less_nat_alt)

text \<open>A machine with that table, whose free memory is the pages \<open>xs\<close> from \<open>0x87f00000\<close>.\<close>

lemma demo_page_ok: "page_ok 0x80000123 pgA" "page_ok 0x80000123 pgB" "page_ok 0x80000123 pgC" "page_ok 0x80000123 pgD"
  by (simp_all add: page_ok_def aligned_def)

definition demo_state :: "memory \<Rightarrow> addr \<Rightarrow> kmem" where
  "demo_state m fl = \<lparr>lks = boot_locks, panicked = False, uart_out = [], pr_locking = False,
     mem = m, freelist = fl, kend = 0x80000123\<rparr>"

lemma demo_avail: "avail LkKmem (lks (demo_state m fl))"
  by (simp add: demo_state_def boot_locks_def avail_def cpu_ok_def)

lemma demo_vm_ok: "vm_ok (demo_state demo_mem 0) pgA []"
  using demo_wf demo_avail [of demo_mem 0] demo_page_ok
  by (auto simp: vm_ok_def demo_pages kmem_ok_def demo_state_def)

text \<open>An empty table on the page after the small one, and three free pages.\<close>

abbreviation (input) pgE :: addr where "pgE \<equiv> 0x80005000"

lemma demo_empty_table: "pt_wf demo_mem pgE" "pt_pages demo_mem pgE = {pgE}" "leafpte demo_mem pgE va = 0"
proof -
  have al: "aligned pgE" by (simp add: aligned_def)
  have tp: "tpage demo_mem pgE is = (if is = [] then Some pgE else None)" if "is \<in> paths" for "is"
    using that
  proof (induction "is")
    case (Cons i "is")
    then show ?case using paths_ConsD [OF Cons.prems] al by (auto simp: demo_entry)
  qed simp
  show "pt_wf demo_mem pgE" using al by (auto simp: pt_wf_def tp split: if_splits)
  show "pt_pages demo_mem pgE = {pgE}" using Nil_paths by (auto simp: pt_pages_def tp split: if_splits intro!: bexI [of _ "[]"])
  show "leafpte demo_mem pgE va = 0" by (simp add: leafpte_def tp) (simp add: leaf_path_def)
qed

definition demo_mem3 :: memory where
  "demo_mem3 = store64 (store64 demo_mem 0x87f00000 0x87f01000) 0x87f01000 0x87f02000"

lemma demo_mem3_frame: "p \<in> {pgA, pgB, pgC} \<Longrightarrow> in_page p x \<Longrightarrow> demo_mem3 x = demo_mem x"
proof -
  assume "p \<in> {pgA, pgB, pgC}" "in_page p x"
  then have "unat x < 0x80006000" by (auto simp: in_page_def)
  then have "\<not> in_page 0x87f00000 x" "\<not> in_page 0x87f01000 x" by (auto simp: in_page_def)
  then show ?thesis by (simp add: demo_mem3_def store64_page_frame aligned_def)
qed

lemma demo_vm_ok3: "vm_ok (demo_state demo_mem3 0x87f00000) pgA [0x87f00000, 0x87f01000, 0x87f02000]"
proof -
  have pf: "pt_wf demo_mem3 pgA" "pt_pages demo_mem3 pgA = {pgA, pgB, pgC}"
    using pt_frame [OF demo_wf, of demo_mem3] demo_mem3_frame by (auto simp: demo_pages)
  have l: "load64 demo_mem3 0x87f00000 = 0x87f01000" "load64 demo_mem3 0x87f01000 = 0x87f02000"
      "load64 demo_mem3 0x87f02000 = 0"
    using entry_store [of "0x87f01000" "0x87f00000" 0 0] entry_store [of "0x87f01000" "0x87f02000" 0 0]
      entry_store [of "0x87f00000" "0x87f02000" 0 0] demo_entry [of "0x87f02000" 0]
    by (simp_all add: demo_mem3_def entry_def aligned_def)
  show ?thesis
    using pf l demo_avail [of demo_mem3 "0x87f00000"] demo_page_ok
    by (auto simp: vm_ok_def kmem_ok_def demo_state_def page_ok_def aligned_def)
qed

lemma demo_leafpte3: "leafpte demo_mem3 pgA = leafpte demo_mem pgA"
  using pt_frame(3) [OF demo_wf, of demo_mem3] demo_mem3_frame by (auto simp: demo_pages)

section \<open>Properties\<close>

text \<open>
  C13: What the kernel copies out to user memory it reads back: if the pages of the range are
  mapped for the user, \<open>copyout\<close> succeeds, and \<open>copyin\<close> from the same address then returns
  the same bytes, across page boundaries too.
\<close>

theorem copyout_copyin_roundtrip:
  assumes "user_wf (mem s) root" and "unat va + length bs \<le> unat MAXVA"
    and "\<And>i. i < length bs \<Longrightarrow> umapped (mem s) root (va + of_nat i)"
  shows "\<exists>t. copyout root va bs s = Ok 0 t \<and> copyin root va (length bs) t = Ok (0, bs) t"
proof -
  let ?t = "s\<lparr>mem := uwrite (uaddr (mem s) root) (mem s) va bs\<rparr>"
  have b: "unat va + length bs \<le> 2 ^ 38" using assms(2) by simp
  have f: "user_wf (mem ?t) root" "umapped (mem ?t) root = umapped (mem s) root"
    using uwrite_frame [OF assms(1) _ refl, of bs va] assms(3) by simp_all
  have "copyin root va (length bs) ?t = Ok (0, bs) ?t"
    using copyin_ok [OF f(1) b] assms f(2) copyout_uread [OF assms(1), of bs va] b by simp
  with copyout_ok [OF assms(1) b] assms(3) show ?thesis by auto
qed

theorem copyout_copyin_roundtrip_witness:
  "\<exists>t. copyout pgA 16 (bytes ''xv6'') (demo_state demo_mem 0) = Ok 0 t \<and>
       copyin pgA 16 3 t = Ok (0, bytes ''xv6'') t"
proof -
  have "umapped demo_mem pgA (16 + of_nat i)" if "i < 3" for i
  proof (rule demo_umapped)
    have "unat (16 + of_nat i :: u64) = 16 + i"
      using unat_off [of "16 :: u64" i] that by simp
    then show "unat (16 + of_nat i :: u64) < 4096" using that by simp
  qed
  then show ?thesis
    using copyout_copyin_roundtrip [of "demo_state demo_mem 0" pgA 16 "bytes ''xv6''"] demo_user_wf
    by (simp add: demo_state_def bytes_def numeral_3_eq_3)
qed

text \<open>
  C14: \<open>mappages\<close> on a range that is not mapped yet, with enough free pages for the tables,
  maps every page of the range to its physical page and leaves every other virtual page as
  it was; the table stays well formed and the pages it took came from the free list.
\<close>

theorem mappages_maps_range:
  assumes "vm_ok s root xs" and "va_ok a" and "0 < n" and "unat a + 4096 * n \<le> unat MAXVA"
    and "2 * n < length xs"
    and "\<And>b. va_ok b \<Longrightarrow> unat a \<le> unat b \<Longrightarrow> unat b < unat a + 4096 * n \<Longrightarrow>
           leafpte (mem s) root b AND PTE_V = 0"
  shows "\<exists>t ys. mappages root a (of_nat (4096 * n)) pa perm s = Ok 0 t \<and> vm_rel root s xs t ys \<and>
    (\<forall>b. va_ok b \<longrightarrow> leafpte (mem t) root b = map_range (leafpte (mem s) root) a pa perm n b)"
proof -
  obtain k where n: "n = Suc k" using assms(3) by (cases n) auto
  have b: "unat a + 4096 * n \<le> 2 ^ 38" using assms(4) by simp
  have "\<exists>t ys r j. mappages_loop root a (a + of_nat (4096 * k)) pa perm s = Ok r t \<and>
    vm_rel root s xs t ys \<and> (r = 0 \<and> j = Suc k \<or> r = -1 \<and> j \<le> k \<and> ys = []) \<and>
    (\<forall>b. va_ok b \<longrightarrow> leafpte (mem t) root b = map_range (leafpte (mem s) root) a pa perm j b) \<and>
    length xs \<le> length ys + 2 * Suc k"
    using assms(6) b n by (intro mappages_loop_ok [OF assms(1,2)]) auto
  then show ?thesis
    using mappages_range [OF assms(2,3) b, of root pa perm s] assms(5) n by auto
qed

theorem mappages_maps_range_witness:
  "\<exists>t ys. mappages pgA 0x1000 0x1000 pgD 0x17 (demo_state demo_mem3 0x87f00000) = Ok 0 t \<and>
    vm_rel pgA (demo_state demo_mem3 0x87f00000) [0x87f00000, 0x87f01000, 0x87f02000] t ys \<and>
    leafpte (mem t) pgA 0x1000 = PA2PTE pgD OR 0x17 OR PTE_V"
proof -
  have free: "leafpte demo_mem3 pgA b AND PTE_V = 0"
    if "va_ok b" "unat (0x1000 :: u64) \<le> unat b" "unat b < unat (0x1000 :: u64) + 4096 * 1" for b
  proof -
    have "PGROUNDDOWN b \<noteq> 0" using that by (auto simp: va_ok_def PGROUNDDOWN_aligned)
    then show ?thesis using demo_page0 [of b] that(1) by (auto simp: demo_leafpte3 demo_leafpte va_ok_def)
  qed
  have v: "va_ok 0x1000" by (simp add: va_ok_def aligned_def)
  obtain t ys where "mappages pgA 0x1000 0x1000 pgD 0x17 (demo_state demo_mem3 0x87f00000) = Ok 0 t"
      "vm_rel pgA (demo_state demo_mem3 0x87f00000) [0x87f00000, 0x87f01000, 0x87f02000] t ys"
      "\<forall>b. va_ok b \<longrightarrow> leafpte (mem t) pgA b = map_range (leafpte demo_mem3 pgA) 0x1000 pgD 0x17 1 b"
    using mappages_maps_range [OF demo_vm_ok3 v, of 1 pgD "0x17"] free by (auto simp: demo_state_def)
  then show ?thesis using v by (auto simp: map_range_def)
qed

text \<open>
  C15: Unmapping with \<open>do_free\<close>: the pages behind the range go back to the free list, the
  range is no longer mapped, the rest of the mapping and of memory is unchanged.
\<close>

theorem uvmunmap_frees_range:
  assumes "vm_ok s root xs" and "va_ok a" and "unat a + 4096 * n \<le> unat MAXVA"
    and "\<And>b. va_ok b \<Longrightarrow> unat a \<le> unat b \<Longrightarrow> unat b < unat a + 4096 * n \<Longrightarrow>
      leafpte (mem s) root b AND PTE_V \<noteq> 0 \<and> PTE_FLAGS (leafpte (mem s) root b) \<noteq> PTE_V"
    and "distinct (range_pas (leafpte (mem s) root) a n)"
    and "\<And>p. p \<in> set (range_pas (leafpte (mem s) root) a n) \<Longrightarrow>
      page_ok (kend s) p \<and> p \<notin> set xs \<and> p \<notin> pt_pages (mem s) root"
  shows "\<exists>t. uvmunmap root a (of_nat n) True s = Ok () t \<and>
    vm_ok t root (rev (range_pas (leafpte (mem s) root) a n) @ xs) \<and>
    (\<forall>b. va_ok b \<longrightarrow> leafpte (mem t) root b = unmap_range (leafpte (mem s) root) a n b)"
proof -
  have "a mod PGSIZE = 0" using assms(2) by (simp add: va_ok_def aligned_mod)
  then have "uvmunmap root a (of_nat n) True s = uvmunmap_loop root a (a + of_nat (4096 * n)) True s"
    by (simp add: uvmunmap_def kop_simps mult.commute)
  then show ?thesis
    using uvmunmap_free_ok [OF assms(1) disjI2 [OF assms(2)] _ assms(4,5,6) refl] assms(3) by auto
qed

theorem uvmunmap_frees_range_witness:
  "\<exists>t. uvmunmap pgA 0 1 True (demo_state demo_mem 0) = Ok () t \<and> vm_ok t pgA [pgD] \<and>
    leafpte (mem t) pgA 0 = 0"
proof -
  have v: "va_ok 0" by (simp add: va_ok_def aligned_def)
  have l: "leafpte demo_mem pgA 0 = PA2PTE pgD OR 0x17" by (simp add: demo_leafpte PX_small)
  have b0: "b = 0" if "unat b < 4096" "va_ok b" for b
    using page_gap [OF v that(2)] that(1) by simp
  have ok: "leafpte demo_mem pgA b AND PTE_V \<noteq> 0 \<and> PTE_FLAGS (leafpte demo_mem pgA b) \<noteq> PTE_V"
    if "va_ok b" "unat b < 4096" for b
    using b0 [OF that(2,1)] l demo_ptes(5,8) by simp
  obtain t where "uvmunmap pgA 0 (of_nat 1) True (demo_state demo_mem 0) = Ok () t" "vm_ok t pgA [pgD]"
      "\<forall>b. va_ok b \<longrightarrow> leafpte (mem t) pgA b = unmap_range (leafpte demo_mem pgA) 0 1 b"
    using uvmunmap_frees_range [OF demo_vm_ok v, of 1] l ok demo_ptes(7) demo_page_ok(4)
    by (auto simp: demo_state_def demo_pages)
  then show ?thesis using v by (auto simp: unmap_range_def)
qed

text \<open>
  C28: \<open>uvmcopy\<close>, as changed for copy-on-write, cannot copy an address space: it asks
  \<open>uvmunmap\<close> to remove 4096 pages of the parent instead of one, so it panics whenever one
  of the parent's first 4096 pages is not mapped.
\<close>

theorem uvmcopy_panics:
  assumes old: "vm_ok s old xs" and new: "vm_ok s new xs"
    and disj: "pt_pages (mem s) old \<inter> pt_pages (mem s) new = {}"
    and sz: "0 < sz" and empty: "leafpte (mem s) new 0 AND PTE_V = 0"
    and hole: "va_ok b" "unat b < 4096 * 4096" "leafpte (mem s) old b AND PTE_V = 0"
  shows "\<exists>msg t. uvmcopy old new sz s = Stop (Panicked msg) t"
proof (cases "leafpte (mem s) old 0 AND PTE_V = 0")
  case True
  then show ?thesis
    using sz by (cases "tpage (mem s) old (leaf_path 0)")
      (auto simp: uvmcopy_def uvmcopy_loop.simps walk_lookup kop_simps leafpte_def entry_def
        simp del: of_nat_mult)
next
  case False
  define e where "e = leafpte (mem s) old 0"
  define flags where "flags = (PTE_FLAGS e OR PTE_R) AND NOT PTE_W"
  have v0: "va_ok 0" by (simp add: va_ok_def aligned_def)
  obtain p where p: "tpage (mem s) old (leaf_path 0) = Some p" "e = load64 (mem s) (p + of_nat (8 * unat (PX 0 0)))"
    using leafpte_tpage [OF False] e_def by metis
  have "p + of_nat (8 * unat (PX 0 0)) \<noteq> 0"
    using vm_ok_page [OF old tpage_pages [OF p(1)]] PX_bound by (intro slot_nonzero) auto
  then have run: "uvmcopy old new sz s = kseq (mappages new 0 PGSIZE (PTE2PA e) flags)
      (kseq (uvmcopy_err 2 old 0 (PTE2PA e) flags) (uvmcopy_loop old new PGSIZE sz)) s"
    using sz False p by (simp add: uvmcopy_def uvmcopy_loop.simps [of old new 0] walk_lookup kop_simps
        flags_def e_def Let_def del: of_nat_mult)
  have only0: "leafpte (mem s) new c AND PTE_V = 0" if "va_ok c" "unat c \<le> 0" for c
    using empty that by (simp add: unat_eq_0)
  obtain t ys r where t: "mappages new 0 PGSIZE (PTE2PA e) flags s = Ok r t" "vm_rel new s xs t ys"
    using mappages_loop_ok [OF new v0, of 0 "PTE2PA e" flags] mappages_range [OF v0, of 1 new "PTE2PA e" flags s]
      only0 by auto
  obtain zs where zs: "xs = zs @ ys" "pt_pages (mem t) new = pt_pages (mem s) new \<union> set zs"
    and fr: "\<And>y. (\<forall>p\<in>pt_pages (mem t) new. \<not> in_page p y) \<Longrightarrow> mem t y = mem s y"
    and tok: "vm_ok t new ys" and ke: "kend t = kend s"
    using t(2) kmem_only_kend [of s t] by (auto simp: vm_rel_def)
  have wf: "pt_wf (mem s) old" using old by (simp add: vm_ok_def)
  have same: "mem t x = mem s x" if "q \<in> pt_pages (mem s) old" "in_page q x" for q x
  proof (rule fr, rule ballI)
    fix q' assume q': "q' \<in> pt_pages (mem t) new"
    have "q \<noteq> q'" using that(1) q' disj zs vm_ok_page [OF old that(1)] by auto
    then show "\<not> in_page q' x"
      using that vm_ok_page [OF old that(1)] vm_ok_page [OF tok q'] pages_disjoint by blast
  qed
  have pf: "pt_wf (mem t) old" "pt_pages (mem t) old = pt_pages (mem s) old" "leafpte (mem t) old = leafpte (mem s) old"
    by (rule pt_frame [OF wf]; use same in blast)+
  have "vm_ok t old ys"
    using tok old pf zs(1) ke by (auto simp: vm_ok_def)
  then obtain msg u where "uvmunmap_loop old 0 (PGSIZE * PGSIZE) False t = Stop (Panicked msg) u"
    using uvmunmap_hole [of t old ys 0 b "PGSIZE * PGSIZE"] v0 hole pf(3) by (auto simp: word_less_nat_alt)
  then show ?thesis
    unfolding run by (simp add: kop_simps t(1) numeral_2_eq_2 uvmunmap_def)
qed

theorem uvmcopy_panics_witness:
  "\<exists>msg t. uvmcopy pgA pgE 0x1000 (demo_state demo_mem 0) = Stop (Panicked msg) t"
proof -
  have "vm_ok (demo_state demo_mem 0) pgE []"
    using demo_empty_table demo_avail [of demo_mem 0] 
    by (auto simp: vm_ok_def kmem_ok_def demo_state_def page_ok_def aligned_def)
  moreover have "leafpte demo_mem pgA 0x1000 AND PTE_V = 0"
    using demo_page0 [of "0x1000"] by (auto simp: demo_leafpte PGROUNDDOWN_aligned aligned_def)
  ultimately show ?thesis
    using uvmcopy_panics [OF demo_vm_ok, of pgE "0x1000" "0x1000"] demo_empty_table
    by (simp add: demo_state_def demo_pages va_ok_def aligned_def)
qed

end
