(* ===== verification/Proc.thy ===== *)
theory Proc
  imports Vm
begin

text \<open>
  Processes, \<open>kernel/proc.c\<close> and \<open>kernel/proc.h\<close>: the process table, allocation and
  reclamation of slots, the scheduler, sleep and wakeup, kill and wait. A pointer to a
  process is its index in \<open>proc[]\<close>; \<open>None\<close> is the null pointer, and dereferencing
  it is the outcome \<open>Faulted\<close>.

  A process that calls \<open>swtch\<close> leaves the CPU until the scheduler switches back to it.
  What the rest of the system does in between is an argument \<open>away\<close> of \<open>sched\<close> and
  \<open>sleep\<close>; \<open>blocked\<close> is the case in which the process is not resumed.
\<close>

section \<open>State\<close>

datatype procstate = UNUSED | USED | SLEEPING | RUNNABLE | RUNNING | ZOMBIE

record kcontext =
  cra :: u64
  csp :: u64
  cs_regs :: "nat \<Rightarrow> u64"      \<comment> \<open>\<open>s0\<close> to \<open>s11\<close>\<close>

record proc =
  pstate :: procstate
  pchan :: "chan option"
  pkilled :: int
  pxstate :: int
  ppid :: int
  pparent :: "nat option"
  pkstack :: u64
  psz :: u64
  ppagetable :: addr
  ptrapframe :: addr
  pcontext :: kcontext
  pofile :: "nat \<Rightarrow> nat option"   \<comment> \<open>\<open>ofile[NOFILE]\<close>: indices into \<open>ftable.file\<close>\<close>
  pcwd :: "nat option"           \<comment> \<open>index into \<open>itable.inode\<close>\<close>
  pname :: "nat \<Rightarrow> byte"

text \<open>
  \<open>forkret_pc\<close> is the address of \<open>forkret\<close>. A trap frame lives in the page the
  process owns for it; its fields are 64-bit words at the offsets written in \<open>proc.h\<close>.
\<close>

record ptable = vm +
  procs :: "nat \<Rightarrow> proc"
  nextpid :: int
  initproc :: "nat option"
  ticks :: u32
  forkret_pc :: u64

abbreviation (input) tf_kernel_satp :: u64 where "tf_kernel_satp \<equiv> 0"
abbreviation (input) tf_kernel_sp :: u64 where "tf_kernel_sp \<equiv> 8"
abbreviation (input) tf_kernel_trap :: u64 where "tf_kernel_trap \<equiv> 16"
abbreviation (input) tf_epc :: u64 where "tf_epc \<equiv> 24"
abbreviation (input) tf_kernel_hartid :: u64 where "tf_kernel_hartid \<equiv> 32"
abbreviation (input) tf_sp :: u64 where "tf_sp \<equiv> 48"
abbreviation (input) tf_a0 :: u64 where "tf_a0 \<equiv> 112"
abbreviation (input) tf_a1 :: u64 where "tf_a1 \<equiv> 120"
abbreviation (input) tf_a7 :: u64 where "tf_a7 \<equiv> 168"

definition trapframe_size :: nat where
  "trapframe_size = 288"

definition tf_get :: "nat \<Rightarrow> u64 \<Rightarrow> ('x ptable_scheme, u64) kop" where
  "tf_get p off = kget (\<lambda>s. load64 (mem s) (ptrapframe (procs s p) + off))"

definition tf_set :: "nat \<Rightarrow> u64 \<Rightarrow> u64 \<Rightarrow> ('x ptable_scheme, unit) kop" where
  "tf_set p off v = kmod (\<lambda>s. s\<lparr>mem := store64 (mem s) (ptrapframe (procs s p) + off) v\<rparr>)"

abbreviation pupd :: "nat \<Rightarrow> (proc \<Rightarrow> proc) \<Rightarrow> ('x ptable_scheme, unit) kop" where
  "pupd p f \<equiv> kmod (\<lambda>s. s\<lparr>procs := (procs s)(p := f (procs s p))\<rparr>)"

abbreviation pget :: "nat \<Rightarrow> (proc \<Rightarrow> 'a) \<Rightarrow> ('x ptable_scheme, 'a) kop" where
  "pget p f \<equiv> kget (\<lambda>s. f (procs s p))"

section \<open>The current process\<close>

definition myproc :: "('x machine_scheme, nat option) kop" where
  "myproc =
     kseq push_off
    (kbind mycpu (\<lambda>c.
     kbind (kget (\<lambda>s. cproc (cpus (lks s) c))) (\<lambda>p.
     kseq pop_off (kret p))))"

definition deref :: "'a option \<Rightarrow> ('s, 'a) kop" where
  "deref x = (case x of None \<Rightarrow> kstop (Faulted ''null pointer'') | Some v \<Rightarrow> kret v)"

definition curproc :: "('x machine_scheme, nat) kop" where
  "curproc = kbind myproc deref"

definition procinit :: "('x ptable_scheme, unit) kop" where
  "procinit =
     kseq (initlock LkPid ''nextpid'')
    (kseq (initlock LkWait ''wait_lock'')
     (kfor [0..<NPROC] (\<lambda>p.
        kseq (initlock (LkProc p) ''proc'')
         (pupd p (\<lambda>q. q\<lparr>pstate := UNUSED, pkstack := KSTACK p\<rparr>)))))"

text \<open>Incrementing the C \<open>int\<close> beyond its range is undefined.\<close>

definition allocpid :: "('x ptable_scheme, int) kop" where
  "allocpid =
     kseq (acquire LkPid)
    (kbind (kget nextpid) (\<lambda>pid.
     if pid = 0x7fffffff then kstop (Faulted ''signed overflow'')
     else kseq (kmod (\<lambda>s. s\<lparr>nextpid := pid + 1\<rparr>))
         (kseq (release LkPid) (kret pid))))"

section \<open>Address spaces of processes\<close>

definition proc_pagetable :: "nat \<Rightarrow> ('x ptable_scheme, addr) kop" where
  "proc_pagetable p =
     kbind uvmcreate (\<lambda>pagetable.
     if pagetable = 0 then kret 0
     else kbind (kget trampoline) (\<lambda>tr.
       kbind (mappages pagetable TRAMPOLINE PGSIZE tr (PTE_R OR PTE_X)) (\<lambda>r.
       if r < 0 then kseq (uvmfree pagetable 0) (kret 0)
       else kbind (pget p ptrapframe) (\<lambda>tf.
         kbind (mappages pagetable TRAPFRAME PGSIZE tf (PTE_R OR PTE_W)) (\<lambda>r.
         if r < 0 then kseq (uvmunmap pagetable TRAMPOLINE 1 False) (kseq (uvmfree pagetable 0) (kret 0))
         else kret pagetable)))))"

definition proc_freepagetable :: "addr \<Rightarrow> u64 \<Rightarrow> ('x ptable_scheme, unit) kop" where
  "proc_freepagetable pagetable sz =
     kseq (uvmunmap pagetable TRAMPOLINE 1 False)
    (kseq (uvmunmap pagetable TRAPFRAME 1 False)
     (uvmfree pagetable sz))"

definition freeproc :: "nat \<Rightarrow> ('x ptable_scheme, unit) kop" where
  "freeproc p =
     kbind (pget p ptrapframe) (\<lambda>tf.
     kseq (kwhen (tf \<noteq> 0) (kfree tf))
    (kseq (pupd p (\<lambda>q. q\<lparr>ptrapframe := 0\<rparr>))
    (kbind (pget p ppagetable) (\<lambda>pt. kbind (pget p psz) (\<lambda>sz.
     kseq (kwhen (pt \<noteq> 0) (proc_freepagetable pt sz))
      (pupd p (\<lambda>q. q\<lparr>ppagetable := 0, psz := 0, ppid := 0, pparent := None,
         pname := (pname q)(0 := 0), pchan := None, pkilled := 0, pxstate := 0,
         pstate := UNUSED\<rparr>)))))))"

text \<open>The scan of \<open>allocproc\<close>: the slot it finds is returned with its lock held.\<close>

definition allocproc_scan :: "('x ptable_scheme, nat option) kop" where
  "allocproc_scan =
     kscan [0..<NPROC] (\<lambda>p.
       kseq (acquire (LkProc p))
      (kbind (pget p pstate) (\<lambda>st.
       if st = UNUSED then kret (Some p)
       else kseq (release (LkProc p)) (kret None))))"

definition allocproc :: "('x ptable_scheme, nat option) kop" where
  "allocproc =
     kbind allocproc_scan (\<lambda>r. case r of
       None \<Rightarrow> kret None
     | Some p \<Rightarrow>
         kbind allocpid (\<lambda>pid.
         kseq (pupd p (\<lambda>q. q\<lparr>ppid := pid, pstate := USED\<rparr>))
        (kbind kalloc (\<lambda>tf.
         kseq (pupd p (\<lambda>q. q\<lparr>ptrapframe := tf\<rparr>))
        (if tf = 0 then kseq (freeproc p) (kseq (release (LkProc p)) (kret None))
         else kbind (proc_pagetable p) (\<lambda>pt.
           kseq (pupd p (\<lambda>q. q\<lparr>ppagetable := pt\<rparr>))
          (if pt = 0 then kseq (freeproc p) (kseq (release (LkProc p)) (kret None))
           else kbind (kget forkret_pc) (\<lambda>pc.
             kseq (pupd p (\<lambda>q. q\<lparr>pcontext := \<lparr>cra = pc, csp = pkstack q + PGSIZE, cs_regs = (\<lambda>_. 0)\<rparr>\<rparr>))
             (kret (Some p))))))))))"

definition growproc :: "int \<Rightarrow> ('x ptable_scheme, int) kop" where
  "growproc n =
     kbind curproc (\<lambda>p.
     kbind (pget p psz) (\<lambda>sz. kbind (pget p ppagetable) (\<lambda>pt.
     if n > 0 then
       kbind (uvmalloc pt sz (sz + of_int n) PTE_W) (\<lambda>sz'.
       if sz' = 0 then kret (-1)
       else kseq (pupd p (\<lambda>q. q\<lparr>psz := sz'\<rparr>)) (kret 0))
     else if n < 0 then
       kbind (uvmdealloc pt sz (sz + of_int n)) (\<lambda>sz'.
       kseq (pupd p (\<lambda>q. q\<lparr>psz := sz'\<rparr>)) (kret 0))
     else kseq (pupd p (\<lambda>q. q\<lparr>psz := sz\<rparr>)) (kret 0))))"

section \<open>Scheduling\<close>

text \<open>
  \<open>sched\<close>: the checks, the switch to the scheduler (\<open>away\<close>), and the restored
  \<open>intena\<close> once the process runs again, possibly on another hart.
\<close>

definition sched :: "('x ptable_scheme, unit) kop \<Rightarrow> ('x ptable_scheme, unit) kop" where
  "sched away =
     kbind curproc (\<lambda>p.
     kbind (holding (LkProc p)) (\<lambda>h.
     kseq (kcheck h ''sched p->lock'')
    (kbind (kget (\<lambda>s. noff (thiscpu (lks s)))) (\<lambda>n.
     kseq (kcheck (n = 1) ''sched locks'')
    (kbind (pget p pstate) (\<lambda>st.
     kseq (kcheck (st \<noteq> RUNNING) ''sched running'')
    (kbind intr_get (\<lambda>i.
     kseq (kcheck (\<not> i) ''sched interruptible'')
    (kbind (kget (\<lambda>s. intena (thiscpu (lks s)))) (\<lambda>ie.
     kseq away
      (lks_mod (cpu_upd (\<lambda>c. c\<lparr>intena := ie\<rparr>)))))))))))))"

definition yield :: "('x ptable_scheme, unit) kop \<Rightarrow> ('x ptable_scheme, unit) kop" where
  "yield away =
     kbind curproc (\<lambda>p.
     kseq (acquire (LkProc p))
    (kseq (pupd p (\<lambda>q. q\<lparr>pstate := RUNNABLE\<rparr>))
    (kseq (sched away)
     (release (LkProc p)))))"

definition sleep :: "('x ptable_scheme, unit) kop \<Rightarrow> chan \<Rightarrow> lockid \<Rightarrow> ('x ptable_scheme, unit) kop" where
  "sleep away ch lk =
     kbind curproc (\<lambda>p.
     kseq (acquire (LkProc p))
    (kseq (release lk)
    (kseq (pupd p (\<lambda>q. q\<lparr>pchan := Some ch, pstate := SLEEPING\<rparr>))
    (kseq (sched away)
    (kseq (pupd p (\<lambda>q. q\<lparr>pchan := None\<rparr>))
    (kseq (release (LkProc p))
     (acquire lk)))))))"

abbreviation blocked :: "chan \<Rightarrow> ('s, unit) kop" where
  "blocked ch \<equiv> kstop (Asleep ch)"

text \<open>
  \<open>while(cond) sleep(ch, lk)\<close>. The list gives, for each time the process sleeps, what
  the system does until it runs again; when the list is used up the process stays asleep.
\<close>

primrec sleep_while ::
    "('x ptable_scheme, unit) kop list \<Rightarrow> ('x ptable_scheme \<Rightarrow> bool) \<Rightarrow> chan \<Rightarrow> lockid \<Rightarrow>
     ('x ptable_scheme, unit) kop" where
  "sleep_while [] cond ch lk =
     kbind (kget cond) (\<lambda>c. kwhen c (sleep (blocked ch) ch lk))"
| "sleep_while (away # env) cond ch lk =
     kbind (kget cond) (\<lambda>c. kwhen c (kseq (sleep away ch lk) (sleep_while env cond ch lk)))"

definition wakeup_slot :: "chan \<Rightarrow> nat \<Rightarrow> ('x ptable_scheme, unit) kop" where
  "wakeup_slot ch p =
     kbind myproc (\<lambda>me.
     kwhen (me \<noteq> Some p)
      (kseq (acquire (LkProc p))
      (kbind (kget (\<lambda>s. pstate (procs s p) = SLEEPING \<and> pchan (procs s p) = Some ch)) (\<lambda>b.
       kseq (kwhen b (pupd p (\<lambda>q. q\<lparr>pstate := RUNNABLE\<rparr>)))
        (release (LkProc p))))))"

definition wakeup :: "chan \<Rightarrow> ('x ptable_scheme, unit) kop" where
  "wakeup ch = kfor [0..<NPROC] (wakeup_slot ch)"

text \<open>
  One slot of the scheduler's pass over the table. \<open>run p\<close> is what happens from the
  switch to process \<open>p\<close> until the switch back.
\<close>

definition scheduler_slot :: "(nat \<Rightarrow> ('x ptable_scheme, unit) kop) \<Rightarrow> nat \<Rightarrow> ('x ptable_scheme, unit) kop" where
  "scheduler_slot run p =
     kseq (acquire (LkProc p))
    (kbind (pget p pstate) (\<lambda>st.
     kseq (kwhen (st = RUNNABLE)
        (kseq (pupd p (\<lambda>q. q\<lparr>pstate := RUNNING\<rparr>))
        (kseq (lks_mod (cpu_upd (\<lambda>c. c\<lparr>cproc := Some p\<rparr>)))
        (kseq (run p)
         (lks_mod (cpu_upd (\<lambda>c. c\<lparr>cproc := None\<rparr>)))))))
      (release (LkProc p))))"

definition scheduler_pass :: "(nat \<Rightarrow> ('x ptable_scheme, unit) kop) \<Rightarrow> ('x ptable_scheme, unit) kop" where
  "scheduler_pass run = kseq intr_on (kfor [0..<NPROC] (scheduler_slot run))"

text \<open>\<open>scheduler\<close> never returns; \<open>n\<close> counts passes.\<close>

primrec scheduler_passes :: "nat \<Rightarrow> (nat \<Rightarrow> ('x ptable_scheme, unit) kop) \<Rightarrow> ('x ptable_scheme, unit) kop" where
  "scheduler_passes 0 run = kret ()"
| "scheduler_passes (Suc n) run = kseq (scheduler_pass run) (scheduler_passes n run)"

definition scheduler :: "nat \<Rightarrow> (nat \<Rightarrow> ('x ptable_scheme, unit) kop) \<Rightarrow> ('x ptable_scheme, unit) kop" where
  "scheduler n run =
     kseq (lks_mod (cpu_upd (\<lambda>c. c\<lparr>cproc := None\<rparr>))) (scheduler_passes n run)"

section \<open>Kill and wait\<close>

definition kill :: "int \<Rightarrow> ('x ptable_scheme, int) kop" where
  "kill pid =
     kbind (kscan [0..<NPROC] (\<lambda>p.
       kseq (acquire (LkProc p))
      (kbind (pget p ppid) (\<lambda>q.
       if q = pid then
         kseq (pupd p (\<lambda>q. q\<lparr>pkilled := 1\<rparr>))
        (kbind (pget p pstate) (\<lambda>st.
         kseq (kwhen (st = SLEEPING) (pupd p (\<lambda>q. q\<lparr>pstate := RUNNABLE\<rparr>)))
        (kseq (release (LkProc p)) (kret (Some 0)))))
       else kseq (release (LkProc p)) (kret None)))))
      (\<lambda>r. kret (case r of None \<Rightarrow> -1 | Some v \<Rightarrow> v))"

definition setkilled :: "nat \<Rightarrow> ('x ptable_scheme, unit) kop" where
  "setkilled p =
     kseq (acquire (LkProc p))
    (kseq (pupd p (\<lambda>q. q\<lparr>pkilled := 1\<rparr>))
     (release (LkProc p)))"

definition killed :: "nat \<Rightarrow> ('x ptable_scheme, int) kop" where
  "killed p =
     kseq (acquire (LkProc p))
    (kbind (pget p pkilled) (\<lambda>k.
     kseq (release (LkProc p)) (kret k)))"

definition reparent :: "nat \<Rightarrow> ('x ptable_scheme, unit) kop" where
  "reparent p =
     kfor [0..<NPROC] (\<lambda>pp.
       kbind (pget pp pparent) (\<lambda>par.
       kwhen (par = Some p)
        (kbind (kget initproc) (\<lambda>ip.
         kseq (pupd pp (\<lambda>q. q\<lparr>pparent := ip\<rparr>))
          (kbind (deref ip) (\<lambda>i. wakeup (ChProc i)))))))"

definition int_bytes :: "int \<Rightarrow> byte list" where
  "int_bytes x = map (le_byte (word_of_int x :: u32)) [0..<4]"

text \<open>
  One pass of \<open>wait\<close> over the table: \<open>Inl\<close> the value it returns, or \<open>Inr\<close> whether
  it saw a child.
\<close>

primrec wait_scan :: "nat list \<Rightarrow> bool \<Rightarrow> nat \<Rightarrow> u64 \<Rightarrow> ('x ptable_scheme, int + bool) kop" where
  "wait_scan [] havekids p addr = kret (Inr havekids)"
| "wait_scan (pp # pps) havekids p addr =
     kbind (pget pp pparent) (\<lambda>par.
     if par \<noteq> Some p then wait_scan pps havekids p addr
     else kseq (acquire (LkProc pp))
      (kbind (pget pp pstate) (\<lambda>st.
       if st = ZOMBIE then
         kbind (pget pp ppid) (\<lambda>pid. kbind (pget pp pxstate) (\<lambda>xs. kbind (pget p ppagetable) (\<lambda>pt.
         kbind (if addr \<noteq> 0 then copyout pt addr (int_bytes xs) else kret 0) (\<lambda>r.
         if r < 0 then
           kseq (release (LkProc pp)) (kseq (release LkWait) (kret (Inl (-1))))
         else
           kseq (freeproc pp)
          (kseq (release (LkProc pp))
          (kseq (release LkWait) (kret (Inl pid))))))))
       else kseq (release (LkProc pp)) (wait_scan pps True p addr))))"

definition wait_round :: "nat \<Rightarrow> u64 \<Rightarrow> ('x ptable_scheme, int) kop \<Rightarrow> ('x ptable_scheme, int) kop" where
  "wait_round p addr again =
     kbind (wait_scan [0..<NPROC] False p addr) (\<lambda>r. case r of
       Inl v \<Rightarrow> kret v
     | Inr havekids \<Rightarrow>
         kbind (if havekids then killed p else kret 0) (\<lambda>k.
         if \<not> havekids \<or> k \<noteq> 0 then kseq (release LkWait) (kret (-1)) else again))"

primrec wait_loop :: "('x ptable_scheme, unit) kop list \<Rightarrow> nat \<Rightarrow> u64 \<Rightarrow> ('x ptable_scheme, int) kop" where
  "wait_loop [] p addr =
     wait_round p addr (kseq (sleep (blocked (ChProc p)) (ChProc p) LkWait) (kret 0))"
| "wait_loop (away # env) p addr =
     wait_round p addr (kseq (sleep away (ChProc p) LkWait) (wait_loop env p addr))"

definition wait :: "('x ptable_scheme, unit) kop list \<Rightarrow> u64 \<Rightarrow> ('x ptable_scheme, int) kop" where
  "wait env addr =
     kbind curproc (\<lambda>p.
     kseq (acquire LkWait) (wait_loop env p addr))"

section \<open>Copies to and from user or kernel\<close>

text \<open>
  A destination in the kernel is an object of the caller: the bytes moved to it are
  returned. A source in the kernel is given by its bytes.
\<close>

datatype udst = ToUser u64 | ToKernel
datatype usrc = FromUser u64 | FromKernel "byte list"

definition either_copyout :: "udst \<Rightarrow> byte list \<Rightarrow> ('x ptable_scheme, int \<times> byte list) kop" where
  "either_copyout dst src =
     kbind myproc (\<lambda>me. case dst of
       ToUser a \<Rightarrow> kbind (deref me) (\<lambda>p. kbind (pget p ppagetable) (\<lambda>pt.
         kbind (copyout pt a src) (\<lambda>r. kret (r, []))))
     | ToKernel \<Rightarrow> kret (0, src))"

definition either_copyin :: "usrc \<Rightarrow> nat \<Rightarrow> ('x ptable_scheme, int \<times> byte list) kop" where
  "either_copyin src len =
     kbind myproc (\<lambda>me. case src of
       FromUser a \<Rightarrow> kbind (deref me) (\<lambda>p. kbind (pget p ppagetable) (\<lambda>pt. copyin pt a len))
     | FromKernel bs \<Rightarrow> kret (0, take len bs))"

section \<open>Process listing\<close>

fun state_name :: "procstate \<Rightarrow> string" where
  "state_name UNUSED = ''unused''"
| "state_name USED = ''used''"
| "state_name SLEEPING = ''sleep ''"
| "state_name RUNNABLE = ''runble''"
| "state_name RUNNING = ''run   ''"
| "state_name ZOMBIE = ''zombie''"

text \<open>The characters of a NUL-terminated name of at most \<open>n\<close> bytes.\<close>

definition name_bytes :: "nat \<Rightarrow> (nat \<Rightarrow> byte) \<Rightarrow> byte list" where
  "name_bytes n f = takeWhile (\<lambda>c. c \<noteq> 0) (map f [0..<n])"

definition procdump :: "('x ptable_scheme, unit) kop" where
  "procdump =
     kseq (printf [10] [])
     (kfor [0..<NPROC] (\<lambda>p.
       kbind (kget (\<lambda>s. procs s p)) (\<lambda>q.
       kwhen (pstate q \<noteq> UNUSED)
        (kseq (printf (bytes ''%d %s %s'')
            [PInt (word_of_int (ppid q)), PStr (Some (bytes (state_name (pstate q)))),
             PStr (Some (name_bytes 16 (pname q)))])
          (printf [10] [])))))"

end
