(* ===== verification/Proc_Sched.thy ===== *)
theory Proc_Sched
  imports Proc
begin

text \<open>
  Sleep, wakeup and the scheduler: their effect on the process table and on the lock
  state, and the properties that follow: no wakeup is lost, and a process runs on at most
  one hart.
\<close>

section \<open>The current process\<close>

lemma myproc_ok [lock_simps]:
  "cpu_ok (lks s) \<Longrightarrow> myproc s = Ok (cproc (thiscpu (lks s))) (s\<lparr>lks := settle (lks s)\<rparr>)"
proof -
  assume ok: "cpu_ok (lks s)"
  have c: "cproc (cpus (poff (lks s)) (tp (lks s))) = cproc (thiscpu (lks s))" "tp (poff (lks s)) = tp (lks s)"
    by (simp_all add: lock_effects)
  show ?thesis
    using ok cpu_ok_poff [OF ok] c
    by (simp add: myproc_def kop_simps push_off_ok mycpu_def cpuid_def r_tp_def pop_off_ok qoff_poff)
qed

lemma curproc_ok [lock_simps]:
  "cpu_ok (lks s) \<Longrightarrow> cproc (thiscpu (lks s)) = Some p \<Longrightarrow>
   curproc s = Ok p (s\<lparr>lks := settle (lks s)\<rparr>)"
  by (simp add: curproc_def kop_simps myproc_ok deref_def)

lemma avail_cpu_ok: "avail lk L \<Longrightarrow> cpu_ok L"
  by (simp add: avail_def)

lemma held_cpu_ok: "held lk L \<Longrightarrow> cpu_ok L"
  by (simp add: held_def)

section \<open>wakeup\<close>

text \<open>The processes of \<open>A\<close> that sleep on \<open>ch\<close> become runnable.\<close>

definition wake :: "chan \<Rightarrow> nat set \<Rightarrow> (nat \<Rightarrow> proc) \<Rightarrow> nat \<Rightarrow> proc" where
  "wake ch A ps = (\<lambda>i. if i \<in> A \<and> pstate (ps i) = SLEEPING \<and> pchan (ps i) = Some ch
     then (ps i)\<lparr>pstate := RUNNABLE\<rparr> else ps i)"

lemma wake_empty [simp]: "wake ch {} ps = ps"
  by (simp add: wake_def fun_eq_iff)

lemma wake_wake: "wake ch A (wake ch B ps) = wake ch (A \<union> B) ps"
  by (auto simp: wake_def fun_eq_iff)

definition others :: "nat option \<Rightarrow> nat set" where
  "others me = {i. i < 64 \<and> me \<noteq> Some i}"

lemma wakeup_slot_ok:
  assumes "cpu_ok (lks s)" and "me = cproc (thiscpu (lks s))" and "me \<noteq> Some p \<Longrightarrow> avail (LkProc p) (lks s)"
  shows "wakeup_slot ch p s =
    Ok () (s\<lparr>lks := settle (lks s), procs := wake ch ({p} - {i. me = Some i}) (procs s)\<rparr>)"
proof (cases "me = Some p")
  case True
  then have "{p} - {i. me = Some i} = {}" by auto
  then show ?thesis
    using assms(1,2) True by (simp add: wakeup_slot_def kop_simps myproc_ok)
next
  case False
  then have d: "{p} - {i. me = Some i} = {p}" by auto
  have av: "avail (LkProc p) (settle (lks s))" using assms(3) False by (simp add: lock_simps)
  show ?thesis
  proof (cases "pstate (procs s p) = SLEEPING \<and> pchan (procs s p) = Some ch")
    case True
    then have "(procs s)(p := (procs s p)\<lparr>pstate := RUNNABLE\<rparr>) = wake ch {p} (procs s)"
      by (auto simp: wake_def fun_eq_iff)
    then show ?thesis
      using assms(1,2) False av d True
      by (simp add: wakeup_slot_def kop_simps myproc_ok lock_simps)
  next
    case F: False
    then have "wake ch {p} (procs s) = procs s" by (auto simp: wake_def fun_eq_iff)
    then show ?thesis
      using assms(1,2) False av d F
      by (auto simp: wakeup_slot_def kop_simps myproc_ok lock_simps)
  qed
qed

lemma wakeup_loop:
  assumes "cpu_ok (lks s)" and "me = cproc (thiscpu (lks s))"
    and "\<And>i. i \<in> set xs \<Longrightarrow> me \<noteq> Some i \<Longrightarrow> avail (LkProc i) (lks s)" and "xs \<noteq> []"
  shows "kfor xs (wakeup_slot ch) s =
    Ok () (s\<lparr>lks := settle (lks s), procs := wake ch (set xs - {i. me = Some i}) (procs s)\<rparr>)"
  using assms
proof (induction xs arbitrary: s)
  case (Cons x xs)
  let ?t = "s\<lparr>lks := settle (lks s), procs := wake ch ({x} - {i. me = Some i}) (procs s)\<rparr>"
  have 1: "wakeup_slot ch x s = Ok () ?t"
    using Cons.prems by (intro wakeup_slot_ok) auto
  show ?case
  proof (cases "xs = []")
    case True
    then show ?thesis using 1 by (simp add: kop_simps)
  next
    case False
    have "kfor xs (wakeup_slot ch) ?t = Ok () (?t\<lparr>lks := settle (lks ?t),
        procs := wake ch (set xs - {i. me = Some i}) (procs ?t)\<rparr>)"
      using Cons.prems False by (intro Cons.IH) (auto simp: lock_simps)
    moreover have "(set xs - {i. me = Some i}) \<union> ({x} - {i. me = Some i}) = set (x # xs) - {i. me = Some i}"
      by auto
    ultimately show ?thesis using 1 by (simp add: kop_simps wake_wake lock_simps)
  qed
qed simp

lemma wakeup_ok [lock_simps]:
  assumes "cpu_ok (lks s)" and "\<forall>i\<in>others (cproc (thiscpu (lks s))). avail (LkProc i) (lks s)"
  shows "wakeup ch s = Ok () (s\<lparr>lks := settle (lks s),
    procs := wake ch (others (cproc (thiscpu (lks s)))) (procs s)\<rparr>)"
proof -
  have "set [0..<64] - {i. cproc (thiscpu (lks s)) = Some i} = others (cproc (thiscpu (lks s)))"
    by (auto simp: others_def)
  then show ?thesis
    using wakeup_loop [OF assms(1) refl, of "[0..<64]" ch] assms(2) by (auto simp: wakeup_def others_def)
qed

section \<open>Switching\<close>

text \<open>
  The scheduler's two halves around a process: \<open>scheduler_enter\<close> from taking the
  process's lock to the switch into it, \<open>scheduler_leave\<close> from the switch back to
  releasing that lock.
\<close>

definition scheduler_enter :: "nat \<Rightarrow> ('x ptable_scheme, unit) kop" where
  "scheduler_enter p =
     kseq (acquire (LkProc p))
    (kbind (pget p pstate) (\<lambda>st.
     if st = RUNNABLE then
       kseq (pupd p (\<lambda>q. q\<lparr>pstate := RUNNING\<rparr>)) (lks_mod (cpu_upd (\<lambda>c. c\<lparr>cproc := Some p\<rparr>)))
     else kstop Descheduled))"

definition scheduler_leave :: "nat \<Rightarrow> ('x ptable_scheme, unit) kop" where
  "scheduler_leave p =
     kseq (lks_mod (cpu_upd (\<lambda>c. c\<lparr>cproc := None\<rparr>))) (release (LkProc p))"

lemma scheduler_slot_halves:
  assumes "pstate (procs s p) = RUNNABLE" and "avail (LkProc p) (lks s)"
  shows "scheduler_slot run p s =
    kseq (scheduler_enter p) (kseq (run p) (scheduler_leave p)) s"
  using assms
  by (simp add: scheduler_slot_def scheduler_enter_def scheduler_leave_def kop_simps lock_simps
      split: kres.split)

definition off_cpu :: "nat \<Rightarrow> ('x ptable_scheme, unit) kop \<Rightarrow> ('x ptable_scheme, unit) kop" where
  "off_cpu p mid = kseq (scheduler_leave p) (kseq mid (scheduler_enter p))"

lemma sched_ok:
  assumes "held (LkProc p) (lks s)" and "cproc (thiscpu (lks s)) = Some p"
    and "noff (thiscpu (lks s)) = 1" and "pstate (procs s p) \<noteq> RUNNING"
  shows "sched away s =
    kseq away (lks_mod (cpu_upd (\<lambda>c. c\<lparr>intena := intena (thiscpu (lks s))\<rparr>))) s"
proof -
  have "settle (lks s) = lks s" using assms(1) by (simp add: lock_simps)
  moreover have "\<not> sie (lks s) (tp (lks s))" "cpu_ok (lks s)"
    using assms(1) by (auto simp: held_def cpu_ok_def)
  moreover have "locked (locks (lks s) (LkProc p)) \<noteq> 0" "lcpu (locks (lks s) (LkProc p)) = Some (tp (lks s))"
    using assms(1) by (auto simp: held_def)
  ultimately show ?thesis
    using assms(2-4)
    by (simp add: sched_def kop_simps curproc_ok holding_def mycpu_def cpuid_def r_tp_def intr_get_def)
qed

text \<open>The lock state of a hart when its current process is \<open>x\<close>.\<close>

definition on_cpu :: "nat option \<Rightarrow> lockstate \<Rightarrow> lockstate" where
  "on_cpu x = cpu_upd (\<lambda>c. c\<lparr>cproc := x\<rparr>)"

lemma on_cpu_simps [simp]:
  "tp (on_cpu x L) = tp L" "sie (on_cpu x L) = sie L" "locks (on_cpu x L) = locks L"
  "cproc (cpus (on_cpu x L) (tp L)) = x" "noff (cpus (on_cpu x L) h) = noff (cpus L h)"
  "intena (cpus (on_cpu x L) h) = intena (cpus L h)"
  "on_cpu x (on_cpu y L) = on_cpu x L" "cpu_ok (on_cpu x L) = cpu_ok L"
  "avail lk (on_cpu x L) = avail lk L" "held lk (on_cpu x L) = held lk L"
  by (simp_all add: on_cpu_def cpu_upd_def lock_preds)

lemma on_cpu_acq: "on_cpu x (acq lk L) = acq lk (on_cpu x L)"
  by (rule lockstate.equality) (auto simp: on_cpu_def lock_effects fun_eq_iff)

lemma on_cpu_settle: "on_cpu x (settle L) = settle (on_cpu x L)"
  by (rule lockstate.equality) (auto simp: on_cpu_def lock_effects fun_eq_iff)

lemma on_cpu_same: "cproc (thiscpu L) = x \<Longrightarrow> on_cpu x L = L"
  by (rule lockstate.equality) (auto simp: on_cpu_def cpu_upd_def fun_eq_iff)

lemma noff_acq [simp]: "noff (cpus (acq lk L) (tp L)) = noff (thiscpu L) + 1"
  by (simp add: lock_effects)

lemma scheduler_leave_ok:
  assumes "avail (LkProc p) L" and "lks s = acq (LkProc p) L"
  shows "scheduler_leave p s = Ok () (s\<lparr>lks := settle (on_cpu None L)\<rparr>)"
  using assms
  by (simp add: scheduler_leave_def kop_simps on_cpu_acq lock_simps flip: on_cpu_def)

lemma scheduler_enter_ok:
  assumes "avail (LkProc p) (lks s)" and "pstate (procs s p) = RUNNABLE"
  shows "scheduler_enter p s = Ok () (s\<lparr>lks := acq (LkProc p) (on_cpu (Some p) (lks s)),
    procs := (procs s)(p := (procs s p)\<lparr>pstate := RUNNING\<rparr>)\<rparr>)"
  using assms
  by (simp add: scheduler_enter_def kop_simps lock_simps on_cpu_acq flip: on_cpu_def)

text \<open>The restored \<open>intena\<close> after a switch.\<close>

definition with_intena :: "bool \<Rightarrow> lockstate \<Rightarrow> lockstate" where
  "with_intena b = cpu_upd (\<lambda>c. c\<lparr>intena := b\<rparr>)"

text \<open>
  A process that holds only \<open>lk\<close> goes to sleep: when the scheduler takes over, \<open>lk\<close>
  is free, and the process is asleep on \<open>ch\<close> under its own lock.
\<close>

lemma sleep_enter:
  assumes "avail lk L" and "lks s = acq lk L" and "noff (thiscpu L) = 0"
    and "cproc (thiscpu L) = Some p" and "avail (LkProc p) L" and "lk \<noteq> LkProc p"
  shows "sleep away ch lk s =
    kseq away
      (kseq (lks_mod (with_intena (sie L (tp L))))
      (kseq (pupd p (\<lambda>q. q\<lparr>pchan := None\<rparr>)) (kseq (release (LkProc p)) (acquire lk))))
     (s\<lparr>lks := acq (LkProc p) L, procs := (procs s)(p := (procs s p)\<lparr>pchan := Some ch, pstate := SLEEPING\<rparr>)\<rparr>)"
proof -
  have ok: "cpu_ok L" using assms(1) by (rule avail_cpu_ok)
  have c: "cproc (thiscpu (acq lk L)) = Some p" "cproc (thiscpu (acq (LkProc p) L)) = Some p"
    using assms(4) by simp_all
  have h: "held lk (acq (LkProc p) (acq lk L))"
    using held_acq_other [of lk "LkProc p" "acq lk L"] assms by (simp add: lock_simps)
  have r: "rel lk (acq (LkProc p) (acq lk L)) = acq (LkProc p) L"
    using assms by (intro rel_acq_acq) auto
  have a: "avail (LkProc p) (acq lk L)"
    using avail_acq [of "LkProc p" lk L] assms by auto
  have st: "settle (acq lk L) = acq lk L" using ok by (simp add: lock_simps)
  have ie: "intena (thiscpu (acq (LkProc p) L)) = sie L (tp L)"
    using assms(3) by (simp add: lock_effects)
  let ?u = "s\<lparr>lks := acq (LkProc p) L,
    procs := (procs s)(p := (procs s p)\<lparr>pchan := Some ch, pstate := SLEEPING\<rparr>)\<rparr>"
  have sc: "sched away ?u = kseq away (lks_mod (cpu_upd (\<lambda>c. c\<lparr>intena := intena (thiscpu (lks ?u))\<rparr>))) ?u"
    using assms by (intro sched_ok) (auto simp: lock_simps)
  show ?thesis
    using assms(2) c st a h r sc ie ok
    by (simp add: sleep_def kop_simps curproc_ok lock_simps with_intena_def)
      (simp add: kbind_def kmod_def split: kres.split)
qed

lemma acq_settle [lock_simps]: "acq lk (settle L) = acq lk L"
  by (rule lockstate.equality) (auto simp: lock_effects fun_eq_iff)

lemma with_intena_acq:
  "noff (thiscpu L) = 0 \<Longrightarrow> with_intena (sie L (tp L)) (acq lk L) = acq lk L"
  by (rule lockstate.equality) (auto simp: with_intena_def lock_effects fun_eq_iff)

text \<open>
  If the rest of the system makes the process runnable and its scheduler picks it again,
  \<open>sleep\<close> returns: the caller holds \<open>lk\<close> as before.
\<close>

lemma sleep_off_cpu:
  assumes "avail lk L" and "lks s = acq lk L" and "noff (thiscpu L) = 0"
    and "cproc (thiscpu L) = Some p" and "avail (LkProc p) L" and "lk \<noteq> LkProc p"
    and mid: "mid (s\<lparr>lks := settle (on_cpu None L),
      procs := (procs s)(p := (procs s p)\<lparr>pchan := Some ch, pstate := SLEEPING\<rparr>)\<rparr>) = Ok () v"
    and v: "lks v = settle (on_cpu None L)" "pstate (procs v p) = RUNNABLE"
  shows "sleep (off_cpu p mid) ch lk s = Ok () (v\<lparr>lks := acq lk L,
    procs := (procs v)(p := (procs v p)\<lparr>pstate := RUNNING, pchan := None\<rparr>)\<rparr>)"
proof -
  let ?u = "s\<lparr>lks := acq (LkProc p) L,
    procs := (procs s)(p := (procs s p)\<lparr>pchan := Some ch, pstate := SLEEPING\<rparr>)\<rparr>"
  have "avail (LkProc p) (lks v)" using assms(5) v(1) by (simp add: lock_simps)
  then have en: "scheduler_enter p v = Ok () (v\<lparr>lks := acq (LkProc p) (on_cpu (Some p) (lks v)),
      procs := (procs v)(p := (procs v p)\<lparr>pstate := RUNNING\<rparr>)\<rparr>)"
    using v(2) by (rule scheduler_enter_ok)
  have l: "acq (LkProc p) (on_cpu (Some p) (lks v)) = acq (LkProc p) L"
    using assms(4) by (simp add: v(1) on_cpu_settle on_cpu_same lock_simps)
  have lv: "scheduler_leave p ?u = Ok () (s\<lparr>lks := settle (on_cpu None L),
      procs := (procs s)(p := (procs s p)\<lparr>pchan := Some ch, pstate := SLEEPING\<rparr>)\<rparr>)"
    using scheduler_leave_ok [OF assms(5), of ?u] by simp
  have off: "off_cpu p mid ?u = Ok () (v\<lparr>lks := acq (LkProc p) L,
      procs := (procs v)(p := (procs v p)\<lparr>pstate := RUNNING\<rparr>)\<rparr>)"
    using lv mid en l by (simp add: off_cpu_def kop_simps)
  show ?thesis
    unfolding sleep_enter [OF assms(1-6)]
    using off assms(1,3,5) by (simp add: kop_simps with_intena_acq lock_simps)
qed

text \<open>If nothing wakes the process, it stays off the processor.\<close>

lemma sleep_not_woken:
  assumes "avail lk L" and "lks s = acq lk L" and "noff (thiscpu L) = 0"
    and "cproc (thiscpu L) = Some p" and "avail (LkProc p) L" and "lk \<noteq> LkProc p"
    and mid: "mid (s\<lparr>lks := settle (on_cpu None L),
      procs := (procs s)(p := (procs s p)\<lparr>pchan := Some ch, pstate := SLEEPING\<rparr>)\<rparr>) = Ok () v"
    and v: "lks v = settle (on_cpu None L)" "pstate (procs v p) \<noteq> RUNNABLE"
  shows "\<exists>l. sleep (off_cpu p mid) ch lk s = Stop Descheduled (v\<lparr>lks := l\<rparr>)"
proof -
  let ?u = "s\<lparr>lks := acq (LkProc p) L,
    procs := (procs s)(p := (procs s p)\<lparr>pchan := Some ch, pstate := SLEEPING\<rparr>)\<rparr>"
  have "avail (LkProc p) (lks v)" using assms(5) v(1) by (simp add: lock_simps)
  then have en: "scheduler_enter p v = Stop Descheduled (v\<lparr>lks := acq (LkProc p) (lks v)\<rparr>)"
    using v(2) by (simp add: scheduler_enter_def kop_simps lock_simps)
  have lv: "scheduler_leave p ?u = Ok () (s\<lparr>lks := settle (on_cpu None L),
      procs := (procs s)(p := (procs s p)\<lparr>pchan := Some ch, pstate := SLEEPING\<rparr>)\<rparr>)"
    using scheduler_leave_ok [OF assms(5), of ?u] by simp
  have "off_cpu p mid ?u = Stop Descheduled (v\<lparr>lks := acq (LkProc p) (lks v)\<rparr>)"
    using lv mid en by (simp add: off_cpu_def kop_simps)
  then show ?thesis unfolding sleep_enter [OF assms(1-6)] by (auto simp: kop_simps)
qed

lemma sleep_wakeup_eq:
  assumes "avail lk L" and "lks s = acq lk L" and "noff (thiscpu L) = 0"
    and "cproc (thiscpu L) = Some p" and "\<forall>i<64. avail (LkProc i) L" and "lk \<noteq> LkProc p" and "p < 64"
  shows "sleep (off_cpu p (wakeup ch)) ch lk s = Ok () (s\<lparr>
    procs := (wake ch (others None) (procs s))(p := (procs s p)\<lparr>pstate := RUNNING, pchan := None\<rparr>)\<rparr>)"
proof -
  let ?ps = "(procs s)(p := (procs s p)\<lparr>pchan := Some ch, pstate := SLEEPING\<rparr>)"
  let ?m = "s\<lparr>lks := settle (on_cpu None L), procs := ?ps\<rparr>"
  have w: "wakeup ch ?m = Ok () (s\<lparr>lks := settle (on_cpu None L), procs := wake ch (others None) ?ps\<rparr>)"
    using wakeup_ok [of ?m ch] assms(1,5) avail_cpu_ok
    by (auto simp: lock_simps others_def)
  have "wake ch (others None) ?ps p = (procs s p)\<lparr>pchan := Some ch, pstate := RUNNABLE\<rparr>"
    using assms(7) by (simp add: wake_def others_def)
  moreover have "(wake ch (others None) ?ps)(p := x) = (wake ch (others None) (procs s))(p := x)" for x
    by (auto simp: wake_def fun_eq_iff)
  moreover have "s\<lparr>lks := acq lk L, procs := P\<rparr> = s\<lparr>procs := P\<rparr>" for P
    using assms(2) by (metis machine.surjective machine.update_convs(1))
  ultimately show ?thesis
    using sleep_off_cpu [OF assms(1-4) _ assms(6), of "wakeup ch" ch] w assms(2,5,7) by simp
qed

section \<open>One hart per process\<close>

text \<open>
  The steps of the scheduler and of the processes on the table, taken by the hart \<open>tp\<close>
  while it holds no process lock: a hart without a process picks one, a running process
  yields or goes to sleep (holding the lock \<open>lk\<close> it sleeps with), somebody calls
  \<open>wakeup\<close> or \<open>kill\<close>, and another hart takes over.
\<close>

definition off_cpu_for_good :: "nat \<Rightarrow> ('x ptable_scheme, unit) kop" where
  "off_cpu_for_good p = kseq (scheduler_leave p) (kstop Descheduled)"

inductive sched_step :: "'x ptable_scheme \<Rightarrow> 'x ptable_scheme \<Rightarrow> bool" where
  pick: "avail (LkProc p) (lks s) \<Longrightarrow> cproc (thiscpu (lks s)) = None \<Longrightarrow>
    kseq (scheduler_enter p) (release (LkProc p)) s = Ok () t \<Longrightarrow> sched_step s t"
| yield: "avail (LkProc p) (lks s) \<Longrightarrow> noff (thiscpu (lks s)) = 0 \<Longrightarrow> cproc (thiscpu (lks s)) = Some p \<Longrightarrow>
    yield (off_cpu_for_good p) s = Stop Descheduled t \<Longrightarrow> sched_step s t"
| sleep: "avail lk (lks s) \<Longrightarrow> avail (LkProc p) (lks s) \<Longrightarrow> lk \<noteq> LkProc p \<Longrightarrow>
    noff (thiscpu (lks s)) = 0 \<Longrightarrow> cproc (thiscpu (lks s)) = Some p \<Longrightarrow>
    kseq (acquire lk) (sleep (off_cpu_for_good p) ch lk) s = Stop Descheduled t \<Longrightarrow> sched_step s t"
| wakeup: "\<forall>i<64. avail (LkProc i) (lks s) \<Longrightarrow> wakeup ch s = Ok () t \<Longrightarrow> sched_step s t"
| kill: "\<forall>i<64. avail (LkProc i) (lks s) \<Longrightarrow> kill pid s = Ok r t \<Longrightarrow> sched_step s t"
| hart: "sched_step s (s\<lparr>lks := (lks s)\<lparr>tp := h\<rparr>\<rparr>)"

inductive sched_reach :: "'x ptable_scheme \<Rightarrow> bool" where
  start: "\<forall>h. cproc (cpus (lks s) h) = None \<Longrightarrow> \<forall>p. pstate (procs s p) \<noteq> RUNNING \<Longrightarrow> sched_reach s"
| step: "sched_reach s \<Longrightarrow> sched_step s t \<Longrightarrow> sched_reach t"

text \<open>
  The invariant: the processes that are \<open>RUNNING\<close> are exactly those some hart has as its
  current process, and no two harts have the same one.
\<close>

definition runs_once :: "'x ptable_scheme \<Rightarrow> bool" where
  "runs_once s \<longleftrightarrow>
     (\<forall>p. pstate (procs s p) = RUNNING \<longleftrightarrow> (\<exists>h. cproc (cpus (lks s) h) = Some p)) \<and>
     (\<forall>h k p. cproc (cpus (lks s) h) = Some p \<longrightarrow> cproc (cpus (lks s) k) = Some p \<longrightarrow> h = k)"

text \<open>Updates that neither start nor stop a process keep it.\<close>

lemma runs_once_cong:
  assumes "runs_once s" and "\<And>h. cproc (cpus (lks t) h) = cproc (cpus (lks s) h)"
    and "\<And>p. pstate (procs t p) = RUNNING \<longleftrightarrow> pstate (procs s p) = RUNNING"
  shows "runs_once t"
  using assms by (simp add: runs_once_def)

lemma cproc_on_cpu: "cproc (cpus (on_cpu x L) h) = (if h = tp L then x else cproc (cpus L h))"
  by (simp add: on_cpu_def cpu_upd_def)

lemma runs_once_pick:
  assumes "runs_once s" and "cproc (thiscpu (lks s)) = None" and "pstate (procs s p) \<noteq> RUNNING"
    and "\<And>h. cproc (cpus (lks t) h) = (if h = tp (lks s) then Some p else cproc (cpus (lks s) h))"
    and "\<And>q. pstate (procs t q) = (if q = p then RUNNING else pstate (procs s q))"
  shows "runs_once t"
  using assms unfolding runs_once_def by (auto split: if_splits) (metis option.distinct(1))+

lemma runs_once_leave:
  assumes "runs_once s" and "cproc (thiscpu (lks s)) = Some p" and "st \<noteq> RUNNING"
    and "\<And>h. cproc (cpus (lks t) h) = (if h = tp (lks s) then None else cproc (cpus (lks s) h))"
    and "\<And>q. pstate (procs t q) = (if q = p then st else pstate (procs s q))"
  shows "runs_once t"
  using assms unfolding runs_once_def by (auto split: if_splits) (metis option.inject)+

section \<open>Scans of the table\<close>

lemma kscan_find:
  assumes "\<And>i. i \<in> set xs \<Longrightarrow> body i s = (if P i then Ok (Some (v i)) (g i) else Ok None s')"
    and "\<And>i. i \<in> set xs \<Longrightarrow> body i s' = (if P i then Ok (Some (v i)) (g i) else Ok None s')"
    and "xs \<noteq> []"
  shows "kscan xs body s = (case find P xs of None \<Rightarrow> Ok None s' | Some i \<Rightarrow> Ok (Some (v i)) (g i))"
proof -
  have tail: "kscan ys body s' = (case find P ys of None \<Rightarrow> Ok None s' | Some i \<Rightarrow> Ok (Some (v i)) (g i))"
    if "set ys \<subseteq> set xs" for ys
    using that
  proof (induction ys)
    case (Cons y ys)
    then show ?case using assms(2) [of y] by (auto simp: kop_simps)
  qed (simp add: kop_simps)
  obtain y ys where xs: "xs = y # ys" using assms(3) by (cases xs) auto
  then show ?thesis
    using assms(1) [of y] tail [of ys] by (auto simp: kop_simps)
qed

definition mark_killed :: "proc \<Rightarrow> proc" where
  "mark_killed q = (if pstate q = SLEEPING then q\<lparr>pkilled := 1, pstate := RUNNABLE\<rparr> else q\<lparr>pkilled := 1\<rparr>)"

lemma kill_ok:
  assumes "\<forall>i<64. avail (LkProc i) (lks s)"
  shows "kill pid s = (case find (\<lambda>i. ppid (procs s i) = pid) [0..<64] of
      None \<Rightarrow> Ok (-1) (s\<lparr>lks := settle (lks s)\<rparr>)
    | Some p \<Rightarrow> Ok 0 (s\<lparr>lks := settle (lks s), procs := (procs s)(p := mark_killed (procs s p))\<rparr>))"
proof -
  let ?body = "\<lambda>p. kseq (acquire (LkProc p))
      (kbind (pget p ppid) (\<lambda>q.
       if q = pid then
         kseq (pupd p (\<lambda>q. q\<lparr>pkilled := 1\<rparr>))
        (kbind (pget p pstate) (\<lambda>st.
         kseq (kwhen (st = SLEEPING) (pupd p (\<lambda>q. q\<lparr>pstate := RUNNABLE\<rparr>)))
        (kseq (release (LkProc p)) (kret (Some (0 :: int))))))
       else kseq (release (LkProc p)) (kret None)))"
  let ?s' = "s\<lparr>lks := settle (lks s)\<rparr>"
  let ?g = "\<lambda>p. s\<lparr>lks := settle (lks s), procs := (procs s)(p := mark_killed (procs s p))\<rparr>"
  have body: "?body i u = (if ppid (procs s i) = pid then Ok (Some 0) (?g i) else Ok None ?s')"
    if "i < 64" "u = s \<or> u = ?s'" for i u
    using that assms by (auto simp: kop_simps lock_simps mark_killed_def)
  have "kscan [0..<64] ?body s = (case find (\<lambda>i. ppid (procs s i) = pid) [0..<64] of
      None \<Rightarrow> Ok None ?s' | Some p \<Rightarrow> Ok (Some 0) (?g p))"
    by (rule kscan_find [where v = "\<lambda>_. 0"]) (use body in auto)
  then show ?thesis by (simp add: kill_def kbind_apply kret_apply split: option.split)
qed

lemma sched_step_runs_once:
  assumes "runs_once s" and "sched_step s t"
  shows "runs_once t"
  using assms(2)
proof cases
  case (pick p)
  have r: "pstate (procs s p) = RUNNABLE"
    using pick by (auto simp: scheduler_enter_def kop_simps lock_simps split: if_splits)
  have "t = s\<lparr>lks := settle (on_cpu (Some p) (lks s)), procs := (procs s)(p := (procs s p)\<lparr>pstate := RUNNING\<rparr>)\<rparr>"
    using pick scheduler_enter_ok [OF pick(1) r] by (auto simp: kop_simps lock_simps)
  then show ?thesis
    using pick(2) r by (intro runs_once_pick [OF assms(1), of p]) (auto simp: cproc_on_cpu)
next
  case (yield p)
  let ?u = "s\<lparr>lks := acq (LkProc p) (lks s), procs := (procs s)(p := (procs s p)\<lparr>pstate := RUNNABLE\<rparr>)\<rparr>"
  have "sched (off_cpu_for_good p) ?u =
      Stop Descheduled (?u\<lparr>lks := settle (on_cpu None (lks s))\<rparr>)"
    using yield scheduler_leave_ok [OF yield(1), of ?u]
    by (subst sched_ok [of p]) (auto simp: off_cpu_for_good_def kop_simps lock_simps)
  then have "t = ?u\<lparr>lks := settle (on_cpu None (lks s))\<rparr>"
    using yield avail_cpu_ok [OF yield(1)] by (auto simp: yield_def kop_simps lock_simps)
  then show ?thesis
    using yield(3) by (intro runs_once_leave [OF assms(1), of p RUNNABLE]) (auto simp: cproc_on_cpu)
next
  case (sleep lk p ch)
  let ?u = "s\<lparr>lks := acq (LkProc p) (lks s),
    procs := (procs s)(p := (procs s p)\<lparr>pchan := Some ch, pstate := SLEEPING\<rparr>)\<rparr>"
  have "t = ?u\<lparr>lks := settle (on_cpu None (lks s))\<rparr>"
    using sleep sleep_enter [of lk "lks s" "s\<lparr>lks := acq lk (lks s)\<rparr>" p "off_cpu_for_good p" ch]
      scheduler_leave_ok [OF sleep(2), of ?u]
    by (auto simp: off_cpu_for_good_def kop_simps lock_simps)
  then show ?thesis
    using sleep(5) by (intro runs_once_leave [OF assms(1), of p SLEEPING]) (auto simp: cproc_on_cpu)
next
  case (wakeup ch)
  have "cpu_ok (lks s)" using avail_cpu_ok [of "LkProc 0" "lks s"] wakeup(1) by simp
  then have "t = s\<lparr>lks := settle (lks s), procs := wake ch (others (cproc (thiscpu (lks s)))) (procs s)\<rparr>"
    using wakeup wakeup_ok [of s ch] by (simp add: others_def)
  then show ?thesis by (intro runs_once_cong [OF assms(1)]) (auto simp: wake_def)
next
  case (kill pid r)
  then show ?thesis
    using kill_ok [OF kill(1), of pid]
    by (intro runs_once_cong [OF assms(1)]) (auto simp: mark_killed_def split: option.splits if_splits)
next
  case (hart h)
  then show ?thesis by (intro runs_once_cong [OF assms(1)]) auto
qed

lemma sched_reach_runs_once: "sched_reach s \<Longrightarrow> runs_once s"
proof (induction rule: sched_reach.induct)
  case (start s)
  then show ?case by (simp add: runs_once_def)
next
  case (step s t)
  then show ?case by (blast intro: sched_step_runs_once)
qed

section \<open>A small machine\<close>

definition empty_proc :: proc where
  "empty_proc = \<lparr>pstate = UNUSED, pchan = None, pkilled = 0, pxstate = 0, ppid = 0, pparent = None,
     pkstack = 0, psz = 0, ppagetable = 0, ptrapframe = 0,
     pcontext = \<lparr>cra = 0, csp = 0, cs_regs = (\<lambda>_. 0)\<rparr>, pofile = (\<lambda>_. None), pcwd = None,
     pname = (\<lambda>_. 0)\<rparr>"

definition boot_ptable :: "lockstate \<Rightarrow> (nat \<Rightarrow> proc) \<Rightarrow> ptable" where
  "boot_ptable L ps = \<lparr>lks = L, panicked = False, uart_out = [], pr_locking = False,
     mem = (\<lambda>_. 0), freelist = 0, kend = 0x80000123, kernel_pagetable = 0, etext = 0,
     trampoline = 0, satp = (\<lambda>_. 0), procs = ps, nextpid = 1, initproc = None, ticks = 0,
     forkret_pc = 0\<rparr>"

lemma boot_avail: "avail lk boot_locks"
  by (simp add: boot_locks_def lock_preds)

section \<open>Properties\<close>





text \<open>
  C30: \<open>kill\<close> marks the first slot with the given pid, wakes it if it sleeps, and fails if
  no slot has that pid. The scan does not look at the slot's state, so \<open>kill(0)\<close> finds an
  unused slot and marks it.
\<close>

theorem kill_marks_first_match:
  assumes "\<forall>i<NPROC. avail (LkProc i) (lks s)"
  shows "if \<exists>i<NPROC. ppid (procs s i) = pid
    then (\<exists>t p. kill pid s = Ok 0 t \<and> p < NPROC \<and> ppid (procs s p) = pid \<and>
        (\<forall>i<p. ppid (procs s i) \<noteq> pid) \<and> pkilled (procs t p) = 1 \<and>
        pstate (procs t p) = (if pstate (procs s p) = SLEEPING then RUNNABLE else pstate (procs s p)) \<and>
        (\<forall>i. i \<noteq> p \<longrightarrow> procs t i = procs s i))
    else kill pid s = Ok (-1) (s\<lparr>lks := settle (lks s)\<rparr>)"
proof (cases "find (\<lambda>i. ppid (procs s i) = pid) [0..<64]")
  case None
  then have "kill pid s = Ok (-1) (s\<lparr>lks := settle (lks s)\<rparr>)" using kill_ok [OF assms, of pid] by simp
  moreover have "\<not> (\<exists>i<64. ppid (procs s i) = pid)" using None by (simp add: find_upt_None)
  ultimately show ?thesis by simp
next
  case (Some p)
  then have p: "p < 64" "ppid (procs s p) = pid" "\<forall>i<p. ppid (procs s i) \<noteq> pid"
    by (auto simp: find_upt_Some)
  have "\<exists>i<64. ppid (procs s i) = pid" using p by blast
  then show ?thesis
    using kill_ok [OF assms, of pid] Some p by (auto simp: mark_killed_def intro!: exI [of _ p])
qed

theorem kill_marks_first_match_witness:
  "\<exists>t p. kill 0 (boot_ptable boot_locks (\<lambda>_. empty_proc)) = Ok 0 t \<and> pkilled (procs t p) = 1 \<and>
    pstate (procs t p) = UNUSED"
proof -
  let ?s = "boot_ptable boot_locks (\<lambda>_. empty_proc)"
  have "\<exists>i<64. ppid (procs ?s i) = 0" "\<forall>i. pstate (procs ?s i) = UNUSED"
    by (auto simp: boot_ptable_def empty_proc_def intro: exI [of _ 0])
  moreover have "\<forall>i<64. avail (LkProc i) (lks ?s)" by (simp add: boot_ptable_def boot_avail)
  ultimately show ?thesis using kill_marks_first_match [of ?s 0] by auto
qed

end
