(* ===== verification/Sleeplock.thy ===== *)
theory Sleeplock
  imports Proc_Sched
begin

text \<open>
  Sleep locks, \<open>kernel/sleeplock.c\<close>: long-term locks whose waiters sleep. The inner
  spin lock of the sleep lock \<open>x\<close> is \<open>LkSleep x\<close>.
\<close>

section \<open>State and operations\<close>

record sleeplock =
  sl_locked :: u32
  sl_name :: string
  sl_pid :: int

record sleeplocks = ptable +
  slocks :: "sleepid \<Rightarrow> sleeplock"

abbreviation sl_upd :: "sleepid \<Rightarrow> (sleeplock \<Rightarrow> sleeplock) \<Rightarrow> ('x sleeplocks_scheme, unit) kop" where
  "sl_upd x f \<equiv> kmod (\<lambda>s. s\<lparr>slocks := (slocks s)(x := f (slocks s x))\<rparr>)"

definition initsleeplock :: "sleepid \<Rightarrow> string \<Rightarrow> ('x sleeplocks_scheme, unit) kop" where
  "initsleeplock x name =
     kseq (initlock (LkSleep x) ''sleep lock'')
      (sl_upd x (\<lambda>l. l\<lparr>sl_name := name, sl_locked := 0, sl_pid := 0\<rparr>))"

definition acquiresleep :: "('x sleeplocks_scheme, unit) kop list \<Rightarrow> sleepid \<Rightarrow> ('x sleeplocks_scheme, unit) kop" where
  "acquiresleep env x =
     kseq (acquire (LkSleep x))
    (kseq (sleep_while env (\<lambda>s. sl_locked (slocks s x) \<noteq> 0) (ChSleep x) (LkSleep x))
    (kseq (sl_upd x (\<lambda>l. l\<lparr>sl_locked := 1\<rparr>))
    (kbind curproc (\<lambda>p. kbind (pget p ppid) (\<lambda>pid.
     kseq (sl_upd x (\<lambda>l. l\<lparr>sl_pid := pid\<rparr>))
      (release (LkSleep x)))))))"

definition releasesleep :: "sleepid \<Rightarrow> ('x sleeplocks_scheme, unit) kop" where
  "releasesleep x =
     kseq (acquire (LkSleep x))
    (kseq (sl_upd x (\<lambda>l. l\<lparr>sl_locked := 0, sl_pid := 0\<rparr>))
    (kseq (wakeup (ChSleep x))
     (release (LkSleep x))))"

definition holdingsleep :: "sleepid \<Rightarrow> ('x sleeplocks_scheme, bool) kop" where
  "holdingsleep x =
     kseq (acquire (LkSleep x))
    (kbind (kget (\<lambda>s. slocks s x)) (\<lambda>l.
     kbind (if sl_locked l \<noteq> 0 then kbind curproc (\<lambda>p. pget p (\<lambda>q. sl_pid l = ppid q)) else kret False) (\<lambda>r.
     kseq (release (LkSleep x)) (kret r))))"

section \<open>Effects\<close>

text \<open>
  \<open>in_proc p L\<close>: the hart runs process \<open>p\<close>, holds no lock, and every lock is free:
  the state in which a system call runs between its critical sections.
\<close>

definition in_proc :: "nat \<Rightarrow> lockstate \<Rightarrow> bool" where
  "in_proc p L \<longleftrightarrow> p < NPROC \<and> cproc (thiscpu L) = Some p \<and> noff (thiscpu L) = 0 \<and> (\<forall>lk. avail lk L)"

lemma in_procD:
  assumes "in_proc p L"
  shows "p < 64" "cproc (thiscpu L) = Some p" "noff (thiscpu L) = 0" "avail lk L" "cpu_ok L"
  using assms avail_cpu_ok by (auto simp: in_proc_def)

lemma in_proc_settle [simp]: "in_proc p (settle L) = in_proc p L"
  by (simp add: in_proc_def lock_simps)

lemma settle_upd: "settle (lks (s\<lparr>lks := settle (lks s)\<rparr>)) = settle (lks s)"
  by (simp add: lock_simps)

lemma acquiresleep_free:
  assumes "in_proc p (lks s)" and "sl_locked (slocks s x) = 0"
  shows "acquiresleep env x s = Ok () (s\<lparr>lks := settle (lks s),
    slocks := (slocks s)(x := (slocks s x)\<lparr>sl_locked := 1, sl_pid := ppid (procs s p)\<rparr>)\<rparr>)"
proof -
  note L = in_procD [OF assms(1)]
  have c: "cproc (thiscpu (acq (LkSleep x) (lks s))) = Some p" using L(2) by simp
  show ?thesis
    using L c assms(2)
    by (cases env) (simp_all add: acquiresleep_def kop_simps lock_simps)
qed

lemma acquiresleep_busy:
  assumes "in_proc p (lks s)" and "sl_locked (slocks s x) \<noteq> 0"
  shows "\<exists>t. acquiresleep [] x s = Stop (Asleep (ChSleep x)) t \<and> slocks t = slocks s \<and>
    pstate (procs t p) = SLEEPING \<and> pchan (procs t p) = Some (ChSleep x) \<and>
    locked (locks (lks t) (LkSleep x)) = 0"
proof -
  note L = in_procD [OF assms(1)]
  let ?u = "s\<lparr>lks := acq (LkSleep x) (lks s)\<rparr>"
  have "locked (locks (acq (LkProc p) (lks s)) (LkSleep x)) = 0"
    using L(4) [of "LkSleep x"] by (simp add: lock_effects avail_def)
  then show ?thesis
    using L assms(2) sleep_enter [of "LkSleep x" "lks s" ?u p "blocked (ChSleep x)" "ChSleep x"]
    by (simp add: acquiresleep_def kop_simps lock_simps)
qed

lemma releasesleep_ok:
  assumes "in_proc p (lks s)"
  shows "releasesleep x s = Ok () (s\<lparr>lks := settle (lks s),
    procs := wake (ChSleep x) (others (Some p)) (procs s),
    slocks := (slocks s)(x := (slocks s x)\<lparr>sl_locked := 0, sl_pid := 0\<rparr>)\<rparr>)"
proof -
  note L = in_procD [OF assms]
  have c: "cproc (thiscpu (acq (LkSleep x) (lks s))) = Some p" using L(2) by simp
  have "\<forall>i\<in>others (Some p). avail (LkProc i) (acq (LkSleep x) (lks s))"
    using L(4) by (auto intro!: avail_acq)
  then show ?thesis
    using L c by (simp add: releasesleep_def kop_simps lock_simps)
qed

lemma holdingsleep_ok:
  assumes "in_proc p (lks s)"
  shows "holdingsleep x s =
    Ok (sl_locked (slocks s x) \<noteq> 0 \<and> sl_pid (slocks s x) = ppid (procs s p)) (s\<lparr>lks := settle (lks s)\<rparr>)"
proof -
  note L = in_procD [OF assms]
  have c: "cproc (thiscpu (acq (LkSleep x) (lks s))) = Some p" using L(2) by simp
  show ?thesis
    using L c by (simp add: holdingsleep_def kop_simps lock_simps)
qed

lemma in_proc_on_cpu: "in_proc p L \<Longrightarrow> q < 64 \<Longrightarrow> in_proc q (on_cpu (Some q) L)"
  using cproc_on_cpu [of "Some q" L] by (simp add: in_proc_def)

definition boot_sleeplocks :: "nat \<Rightarrow> sleeplocks" where
  "boot_sleeplocks p = ptable.extend (boot_ptable (on_cpu (Some p) boot_locks) (\<lambda>_. empty_proc))
     \<lparr>slocks = (\<lambda>_. \<lparr>sl_locked = 0, sl_name = [], sl_pid = 0\<rparr>)\<rparr>"

lemma boot_in_proc: "p < 64 \<Longrightarrow> in_proc p (on_cpu (Some p) boot_locks)"
  using cproc_on_cpu [of "Some p" boot_locks] boot_avail by (auto simp: in_proc_def) (simp add: boot_locks_def)

section \<open>Properties\<close>



end
