(* ===== verification/Virtio.thy ===== *)
theory Virtio
  imports Sleeplock
begin

text \<open>
  The disk driver, \<open>kernel/virtio_disk.c\<close> and \<open>kernel/virtio.h\<close>, with the buffers of
  \<open>kernel/buf.h\<close> it transfers. The descriptor table and the two rings are memory shared
  with the device; their entries are records here, and the addresses stored in them name
  the C object they point to. The platter is the byte array the device stores.

  The device itself is hardware. Its reaction to the driver's requests is a component
  \<open>device\<close> of the machine state: a function on the shared memory, the data of the buffers
  and the platter. What the driver relies on is stated as a hypothesis about that function.
\<close>

section \<open>State\<close>

type_synonym block = "nat \<Rightarrow> byte"

abbreviation (input) BSIZE :: nat where "BSIZE \<equiv> 1024"
abbreviation (input) NUM :: nat where "NUM \<equiv> 8"

record buf =
  valid :: bool
  bdisk :: bool             \<comment> \<open>does disk "own" buf?\<close>
  bdev :: u32
  blockno :: u32
  refcnt :: u32
  bprev :: nat              \<comment> \<open>index of a buffer; \<open>NBUF\<close> is the list head\<close>
  bnext :: nat
  bdata :: block

datatype dmaptr = DNull | DReq nat | DData nat | DStatus nat

record virtq_desc =
  d_addr :: dmaptr
  d_len :: u32
  d_flags :: u16
  d_next :: u16

record virtio_blk_req =
  r_type :: u32
  r_reserved :: u32
  r_sector :: u64

record vinfo =
  i_b :: "nat option"
  i_status :: byte

record vdisk =
  desc :: "nat \<Rightarrow> virtq_desc"
  avail_idx :: u16
  avail_ring :: "nat \<Rightarrow> u16"
  used_ring_idx :: u16           \<comment> \<open>\<open>used->idx\<close>\<close>
  used_ring :: "nat \<Rightarrow> u32"      \<comment> \<open>\<open>used->ring[i].id\<close>\<close>
  dfree :: "nat \<Rightarrow> bool"
  used_idx :: u16
  info :: "nat \<Rightarrow> vinfo"
  ops :: "nat \<Rightarrow> virtio_blk_req"

type_synonym io = "vdisk \<times> (nat \<Rightarrow> block) \<times> (nat \<Rightarrow> byte)"

record diskstate = sleeplocks +
  vd :: vdisk
  vregs :: "nat \<Rightarrow> u32"          \<comment> \<open>memory-mapped control registers\<close>
  vpages :: "addr \<times> addr \<times> addr" \<comment> \<open>pages of \<open>desc\<close>, \<open>avail\<close> and \<open>used\<close>\<close>
  bufs :: "nat \<Rightarrow> buf"
  platter :: "nat \<Rightarrow> byte"
  device :: "io \<Rightarrow> io"

abbreviation vd_mod :: "(vdisk \<Rightarrow> vdisk) \<Rightarrow> ('x diskstate_scheme, unit) kop" where
  "vd_mod f \<equiv> kmod (\<lambda>s. s\<lparr>vd := f (vd s)\<rparr>)"

abbreviation buf_upd :: "nat \<Rightarrow> (buf \<Rightarrow> buf) \<Rightarrow> ('x diskstate_scheme, unit) kop" where
  "buf_upd b f \<equiv> kmod (\<lambda>s. s\<lparr>bufs := (bufs s)(b := f (bufs s b))\<rparr>)"

abbreviation bget_field :: "nat \<Rightarrow> (buf \<Rightarrow> 'a) \<Rightarrow> ('x diskstate_scheme, 'a) kop" where
  "bget_field b f \<equiv> kget (\<lambda>s. f (bufs s b))"

abbreviation (input) VRING_DESC_F_NEXT :: u16 where "VRING_DESC_F_NEXT \<equiv> 1"
abbreviation (input) VRING_DESC_F_WRITE :: u16 where "VRING_DESC_F_WRITE \<equiv> 2"
abbreviation (input) VIRTIO_BLK_T_IN :: u32 where "VIRTIO_BLK_T_IN \<equiv> 0"
abbreviation (input) VIRTIO_BLK_T_OUT :: u32 where "VIRTIO_BLK_T_OUT \<equiv> 1"

section \<open>Descriptors\<close>

definition alloc_desc :: "('x diskstate_scheme, nat option) kop" where
  "alloc_desc =
     kbind (kget (\<lambda>s. find (dfree (vd s)) [0..<NUM])) (\<lambda>r. case r of
       None \<Rightarrow> kret None
     | Some i \<Rightarrow> kseq (vd_mod (\<lambda>v. v\<lparr>dfree := (dfree v)(i := False)\<rparr>)) (kret (Some i)))"

definition free_desc :: "nat \<Rightarrow> ('x diskstate_scheme, unit) kop" where
  "free_desc i =
     kseq (kcheck (\<not> i \<ge> NUM) ''free_desc 1'')
    (kbind (kget (\<lambda>s. dfree (vd s) i)) (\<lambda>f.
     kseq (kcheck (\<not> f) ''free_desc 2'')
    (kseq (vd_mod (\<lambda>v. v\<lparr>desc := (desc v)(i := \<lparr>d_addr = DNull, d_len = 0, d_flags = 0, d_next = 0\<rparr>),
       dfree := (dfree v)(i := True)\<rparr>))
     (wakeup ChDiskFree))))"

text \<open>
  The loop of \<open>free_chain\<close> frees a descriptor that was in use in every round and panics
  on one that is free, so it makes at most \<open>NUM + 1\<close> rounds.
\<close>

primrec free_chain_loop :: "nat \<Rightarrow> nat \<Rightarrow> ('x diskstate_scheme, unit) kop" where
  "free_chain_loop 0 i = kstop Hung"
| "free_chain_loop (Suc n) i =
     kbind (kget (\<lambda>s. d_flags (desc (vd s) i))) (\<lambda>flag.
     kbind (kget (\<lambda>s. d_next (desc (vd s) i))) (\<lambda>nxt.
     kseq (free_desc i)
     (if flag AND VRING_DESC_F_NEXT \<noteq> 0 then free_chain_loop n (unat nxt) else kret ())))"

definition free_chain :: "nat \<Rightarrow> ('x diskstate_scheme, unit) kop" where
  "free_chain i = free_chain_loop (Suc NUM) i"

definition alloc3_desc :: "('x diskstate_scheme, (nat \<times> nat \<times> nat) option) kop" where
  "alloc3_desc =
     kbind alloc_desc (\<lambda>r0. case r0 of None \<Rightarrow> kret None | Some i0 \<Rightarrow>
     kbind alloc_desc (\<lambda>r1. case r1 of None \<Rightarrow> kseq (free_desc i0) (kret None) | Some i1 \<Rightarrow>
     kbind alloc_desc (\<lambda>r2. case r2 of
         None \<Rightarrow> kseq (free_desc i0) (kseq (free_desc i1) (kret None))
       | Some i2 \<Rightarrow> kret (Some (i0, i1, i2)))))"

text \<open>The loop that waits for three free descriptors, with what happens while it sleeps.\<close>

primrec alloc3_wait :: "('x diskstate_scheme, unit) kop list \<Rightarrow> ('x diskstate_scheme, nat \<times> nat \<times> nat) kop" where
  "alloc3_wait [] =
     kbind alloc3_desc (\<lambda>r. case r of
       Some idx \<Rightarrow> kret idx
     | None \<Rightarrow> kseq (sleep (blocked ChDiskFree) ChDiskFree LkVdisk) (kstop Hung))"
| "alloc3_wait (away # env) =
     kbind alloc3_desc (\<lambda>r. case r of
       Some idx \<Rightarrow> kret idx
     | None \<Rightarrow> kseq (sleep away ChDiskFree LkVdisk) (alloc3_wait env))"

section \<open>Requests and completion\<close>

definition format_request :: "nat \<Rightarrow> bool \<Rightarrow> u64 \<Rightarrow> nat \<times> nat \<times> nat \<Rightarrow> vdisk \<Rightarrow> vdisk" where
  "format_request b write sector idx v =
     (let (i0, i1, i2) = idx in
      v\<lparr>ops := (ops v)(i0 := \<lparr>r_type = (if write then VIRTIO_BLK_T_OUT else VIRTIO_BLK_T_IN),
                            r_reserved = 0, r_sector = sector\<rparr>),
        desc := (desc v)(
          i0 := \<lparr>d_addr = DReq i0, d_len = 16, d_flags = VRING_DESC_F_NEXT, d_next = of_nat i1\<rparr>,
          i1 := \<lparr>d_addr = DData b, d_len = of_nat BSIZE,
                 d_flags = (if write then 0 else VRING_DESC_F_WRITE) OR VRING_DESC_F_NEXT, d_next = of_nat i2\<rparr>,
          i2 := \<lparr>d_addr = DStatus i0, d_len = 1, d_flags = VRING_DESC_F_WRITE, d_next = 0\<rparr>),
        info := (info v)(i0 := \<lparr>i_b = Some b, i_status = 0xff\<rparr>),
        avail_ring := (avail_ring v)(unat (avail_idx v) mod NUM := of_nat i0),
        avail_idx := avail_idx v + 1\<rparr>)"

text \<open>
  The interrupt handler. Acknowledging the interrupt is a write to a device register. The
  number of completions is the difference of two 16-bit counters, so the loop makes that
  many rounds.
\<close>

primrec intr_loop :: "nat \<Rightarrow> ('x diskstate_scheme, unit) kop" where
  "intr_loop 0 = kret ()"
| "intr_loop (Suc n) =
     kbind (kget (\<lambda>s. used_idx (vd s) \<noteq> used_ring_idx (vd s))) (\<lambda>c.
     kwhen c
      (kbind (kget (\<lambda>s. unat (used_ring (vd s) (unat (used_idx (vd s)) mod NUM)))) (\<lambda>id.
       kbind (kget (\<lambda>s. i_status (info (vd s) id))) (\<lambda>st.
       kseq (kcheck (st = 0) ''virtio_disk_intr status'')
      (kbind (kget (\<lambda>s. i_b (info (vd s) id))) (\<lambda>ob.
       kbind (deref ob) (\<lambda>b.
       kseq (buf_upd b (\<lambda>x. x\<lparr>bdisk := False\<rparr>))
      (kseq (wakeup (ChBuf b))
      (kseq (vd_mod (\<lambda>v. v\<lparr>used_idx := used_idx v + 1\<rparr>))
       (intr_loop n))))))))))"

definition virtio_disk_intr :: "('x diskstate_scheme, unit) kop" where
  "virtio_disk_intr =
     kseq (acquire LkVdisk)
    (kseq (kmod (\<lambda>s. s\<lparr>vregs := (vregs s)(0x64 := vregs s 0x60 AND 3)\<rparr>))
    (kbind (kget (\<lambda>s. unat (used_ring_idx (vd s) - used_idx (vd s)))) (\<lambda>n.
     kseq (intr_loop n)
      (release LkVdisk))))"

text \<open>The device works on what it shares with the driver, by direct memory access.\<close>

definition device_step :: "('x diskstate_scheme, unit) kop" where
  "device_step = kmod (\<lambda>s.
     let (v, data, pl) = device s (vd s, \<lambda>b. bdata (bufs s b), platter s)
     in s\<lparr>vd := v, bufs := (\<lambda>b. (bufs s b)\<lparr>bdata := data b\<rparr>), platter := pl\<rparr>)"

text \<open>
  \<open>virtio_disk_rw\<close>: while the process sleeps for the completion, the device works and its
  interrupt is handled on the hart the process left.
\<close>

definition virtio_disk_rw :: "nat \<Rightarrow> bool \<Rightarrow> ('x diskstate_scheme, unit) kop" where
  "virtio_disk_rw b write =
     kbind (bget_field b blockno) (\<lambda>bn.
     let sector = ucast (bn * 2) :: u64 in
     kseq (acquire LkVdisk)
    (kbind (alloc3_wait []) (\<lambda>idx.
     kseq (buf_upd b (\<lambda>x. x\<lparr>bdisk := True\<rparr>))
    (kseq (vd_mod (format_request b write sector idx))
    (kseq (kmod (\<lambda>s. s\<lparr>vregs := (vregs s)(0x50 := 0)\<rparr>))
    (kbind curproc (\<lambda>p.
     kseq (sleep_while [off_cpu p (kseq device_step virtio_disk_intr)] (\<lambda>s. bdisk (bufs s b)) (ChBuf b) LkVdisk)
    (kseq (vd_mod (\<lambda>v. v\<lparr>info := (info v)(fst idx := (info v (fst idx))\<lparr>i_b := None\<rparr>)\<rparr>))
    (kseq (free_chain (fst idx))
     (release LkVdisk))))))))))"

section \<open>Initialisation\<close>

abbreviation reg_write :: "nat \<Rightarrow> u32 \<Rightarrow> ('x diskstate_scheme, unit) kop" where
  "reg_write r v \<equiv> kmod (\<lambda>s. s\<lparr>vregs := (vregs s)(r := v)\<rparr>)"

abbreviation reg_read :: "nat \<Rightarrow> ('x diskstate_scheme, u32) kop" where
  "reg_read r \<equiv> kget (\<lambda>s. vregs s r)"

definition negotiate :: "u64 \<Rightarrow> u64" where
  "negotiate features =
     features AND NOT (push_bit 5 1) AND NOT (push_bit 7 1) AND NOT (push_bit 11 1)
       AND NOT (push_bit 12 1) AND NOT (push_bit 27 1) AND NOT (push_bit 29 1) AND NOT (push_bit 28 1)"

definition virtio_disk_init :: "('x diskstate_scheme, unit) kop" where
  "virtio_disk_init =
     kseq (initlock LkVdisk ''virtio_disk'')
    (kbind (reg_read 0x000) (\<lambda>magic. kbind (reg_read 0x004) (\<lambda>version.
     kbind (reg_read 0x008) (\<lambda>device_id. kbind (reg_read 0x00c) (\<lambda>vendor.
     kseq (kcheck (\<not> (magic \<noteq> 0x74726976 \<or> version \<noteq> 2 \<or> device_id \<noteq> 2 \<or> vendor \<noteq> 0x554d4551))
       ''could not find virtio disk'')
    (kseq (reg_write 0x070 0)
    (kseq (reg_write 0x070 1)
    (kseq (reg_write 0x070 (1 OR 2))
    (kbind (reg_read 0x010) (\<lambda>features.
     kseq (reg_write 0x020 (ucast (negotiate (ucast features))))
    (kseq (reg_write 0x070 (1 OR 2 OR 8))
    (kbind (reg_read 0x070) (\<lambda>status.
     kseq (kcheck (status AND 8 \<noteq> 0) ''virtio disk FEATURES_OK unset'')
    (kseq (reg_write 0x030 0)
    (kbind (reg_read 0x044) (\<lambda>ready.
     kseq (kcheck (ready = 0) ''virtio disk should not be ready'')
    (kbind (reg_read 0x034) (\<lambda>mx.
     kseq (kcheck (mx \<noteq> 0) ''virtio disk has no queue 0'')
    (kseq (kcheck (\<not> mx < of_nat NUM) ''virtio disk max queue too short'')
    (kbind kalloc (\<lambda>pd. kbind kalloc (\<lambda>pav. kbind kalloc (\<lambda>pu.
     kseq (kmod (\<lambda>s. s\<lparr>vpages := (pd, pav, pu)\<rparr>))
    (kseq (kcheck (\<not> (pd = 0 \<or> pav = 0 \<or> pu = 0)) ''virtio disk kalloc'')
    (kseq (mem_mod (\<lambda>m. memset (memset (memset m pd 0 4096) pav 0 4096) pu 0 4096))
    (kseq (vd_mod (\<lambda>v. v\<lparr>desc := (\<lambda>_. \<lparr>d_addr = DNull, d_len = 0, d_flags = 0, d_next = 0\<rparr>),
       avail_idx := 0, avail_ring := (\<lambda>_. 0), used_ring_idx := 0, used_ring := (\<lambda>_. 0)\<rparr>))
    (kseq (reg_write 0x038 (of_nat NUM))
    (kseq (reg_write 0x080 (ucast pd)) (kseq (reg_write 0x084 (ucast (drop_bit 32 pd)))
    (kseq (reg_write 0x090 (ucast pav)) (kseq (reg_write 0x094 (ucast (drop_bit 32 pav)))
    (kseq (reg_write 0x0a0 (ucast pu)) (kseq (reg_write 0x0a4 (ucast (drop_bit 32 pu)))
    (kseq (reg_write 0x044 1)
    (kseq (vd_mod (\<lambda>v. v\<lparr>dfree := (\<lambda>i. i < NUM \<or> dfree v i)\<rparr>))
     (reg_write 0x070 (status OR 4)))))))))))))))))))))))))))))))))))))"

end
