(* ===== verification/Virtio_Rw.thy ===== *)
theory Virtio_Rw
  imports Virtio
begin

text \<open>
  What a disk request does, given a device that answers requests as the virtio
  specification says: the block is transferred, and the driver's bookkeeping is as it was.
\<close>

section \<open>The device\<close>

text \<open>
  \<open>serve\<close>: the device takes the chain at its position in the available ring, transfers
  between the buffer named by the second descriptor and the sector named by the request
  header, stores status 0 where the third descriptor points, and appends the chain's head
  to the used ring.
\<close>

definition serve :: "io \<Rightarrow> io" where
  "serve = (\<lambda>(v, data, pl).
     let h = unat (avail_ring v (unat (used_ring_idx v) mod NUM));
         d1 = desc v (unat (d_next (desc v h))); d2 = desc v (unat (d_next d1))
     in case (d_addr (desc v h), d_addr d1, d_addr d2) of
       (DReq r, DData b, DStatus i) \<Rightarrow>
         let off = unat (r_sector (ops v r)) * 512; len = unat (d_len d1);
             v' = v\<lparr>info := (info v)(i := (info v i)\<lparr>i_status := 0\<rparr>),
                    used_ring := (used_ring v)(unat (used_ring_idx v) mod NUM := of_nat h),
                    used_ring_idx := used_ring_idx v + 1\<rparr>
         in if r_type (ops v r) = VIRTIO_BLK_T_IN
            then (v', data(b := (\<lambda>k. if k < len then pl (off + k) else data b k)), pl)
            else (v', data, \<lambda>x. if off \<le> x \<and> x < off + len then data b (x - off) else pl x)
     | _ \<Rightarrow> (v, data, pl))"

definition one_request :: "vdisk \<Rightarrow> bool" where
  "one_request v \<longleftrightarrow> avail_idx v = used_ring_idx v + 1"

definition virtio_device :: "(io \<Rightarrow> io) \<Rightarrow> bool" where
  "virtio_device dev \<longleftrightarrow> (\<forall>v data pl. one_request v \<longrightarrow> dev (v, data, pl) = serve (v, data, pl))"

text \<open>The driver between requests: no descriptor in use, nothing outstanding.\<close>

definition vd_idle :: "vdisk \<Rightarrow> bool" where
  "vd_idle v \<longleftrightarrow> (\<forall>i<NUM. dfree v i) \<and> avail_idx v = used_ring_idx v \<and> used_idx v = used_ring_idx v"

section \<open>Steps of a request\<close>

lemma alloc3_idle:
  assumes "\<forall>i<NUM. dfree (vd s) i"
  shows "alloc3_wait [] s = Ok (0, 1, 2) (s\<lparr>vd := (vd s)\<lparr>dfree := (dfree (vd s))(0 := False, 1 := False, 2 := False)\<rparr>\<rparr>)"
proof -
  have f0: "find (dfree (vd s)) [0..<8] = Some 0"
    using assms by (simp add: find_upt_Some)
  have f1: "find ((dfree (vd s))(0 := False)) [0..<8] = Some 1"
    using assms by (simp add: find_upt_Some)
  have f2: "find ((dfree (vd s))(0 := False, Suc 0 := False)) [0..<8] = Some 2"
    using assms by (auto simp: find_upt_Some less_2_cases_iff)
  show ?thesis
    by (simp add: alloc3_desc_def alloc_desc_def kop_simps f0 f1 f2)
qed

lemma free_desc_ok:
  assumes "i < NUM" and "\<not> dfree (vd s) i" and "cpu_ok (lks s)" and "settle (lks s) = lks s"
    and "\<forall>j\<in>others (cproc (thiscpu (lks s))). avail (LkProc j) (lks s)"
  shows "free_desc i s = Ok () (s\<lparr>
    vd := (vd s)\<lparr>desc := (desc (vd s))(i := \<lparr>d_addr = DNull, d_len = 0, d_flags = 0, d_next = 0\<rparr>),
       dfree := (dfree (vd s))(i := True)\<rparr>,
    procs := wake ChDiskFree (others (cproc (thiscpu (lks s)))) (procs s)\<rparr>)"
  using assms by (simp add: free_desc_def kop_simps wakeup_ok)

text \<open>The three descriptors of a request are freed by following their links.\<close>

lemma free_chain_ok:
  assumes "\<not> dfree (vd s) 0" "\<not> dfree (vd s) 1" "\<not> dfree (vd s) 2"
    and d: "d_flags (desc (vd s) 0) AND 1 \<noteq> 0" "d_next (desc (vd s) 0) = 1"
      "d_flags (desc (vd s) 1) AND 1 \<noteq> 0" "d_next (desc (vd s) 1) = 2" "d_flags (desc (vd s) 2) AND 1 = 0"
    and L: "cpu_ok (lks s)" "settle (lks s) = lks s"
      "\<forall>j\<in>others (cproc (thiscpu (lks s))). avail (LkProc j) (lks s)"
  shows "\<exists>v. free_chain 0 s = Ok () (s\<lparr>vd := v,
      procs := wake ChDiskFree (others (cproc (thiscpu (lks s)))) (procs s)\<rparr>) \<and>
    dfree v = (dfree (vd s))(0 := True, 1 := True, 2 := True) \<and> avail_idx v = avail_idx (vd s) \<and>
    used_idx v = used_idx (vd s) \<and> used_ring_idx v = used_ring_idx (vd s)"
proof -
  have w: "wake ch A (wake ch A ps) = wake ch A ps" for ch A ps by (simp add: wake_wake)
  obtain n where n: "Suc 8 = Suc (Suc (Suc n))" by (rule that [of 6]) simp
  have "free_chain 0 s = Ok () (s\<lparr>
      vd := (vd s)\<lparr>desc := (desc (vd s))(0 := \<lparr>d_addr = DNull, d_len = 0, d_flags = 0, d_next = 0\<rparr>,
          1 := \<lparr>d_addr = DNull, d_len = 0, d_flags = 0, d_next = 0\<rparr>,
          2 := \<lparr>d_addr = DNull, d_len = 0, d_flags = 0, d_next = 0\<rparr>),
        dfree := (dfree (vd s))(0 := True, 1 := True, 2 := True)\<rparr>,
      procs := wake ChDiskFree (others (cproc (thiscpu (lks s)))) (procs s)\<rparr>)"
    unfolding free_chain_def n
    using assms by (simp add: kop_simps free_desc_ok w)
  then show ?thesis by (intro exI conjI) (assumption, simp_all)
qed

section \<open>Transfer\<close>

definition platter_block :: "(nat \<Rightarrow> byte) \<Rightarrow> nat \<Rightarrow> block" where
  "platter_block pl bn = (\<lambda>k. pl (1024 * bn + k))"

definition xfer_data :: "bool \<Rightarrow> nat \<Rightarrow> (nat \<Rightarrow> byte) \<Rightarrow> block \<Rightarrow> block" where
  "xfer_data write bn pl d = (if write then d else (\<lambda>k. if k < BSIZE then platter_block pl bn k else d k))"

definition xfer_platter :: "bool \<Rightarrow> nat \<Rightarrow> block \<Rightarrow> (nat \<Rightarrow> byte) \<Rightarrow> nat \<Rightarrow> byte" where
  "xfer_platter write bn d pl =
     (if write then (\<lambda>x. if 1024 * bn \<le> x \<and> x < 1024 * bn + BSIZE then d (x - 1024 * bn) else pl x) else pl)"

lemma unat_ucast_32_64: "unat (ucast (w :: u32) :: u64) = unat w"
  using unat_bound [of w] by (simp add: unsigned_ucast_eq take_bit_nat_eq_self)

lemma sector_offset:
  assumes "unat (bn :: u32) < 2 ^ 31"
  shows "unat (ucast (bn * 2) :: u64) * 512 = 1024 * unat bn"
proof -
  have "unat (bn * 2) = unat bn * 2" using assms by (simp add: unat_word_ariths)
  then show ?thesis by (simp add: unat_ucast_32_64)
qed

lemma serve_request:
  fixes bn :: u32
  assumes "avail_idx v = used_ring_idx v" and "unat bn < 2 ^ 31"
  shows "serve (format_request b write (ucast (bn * 2)) (0, 1, 2) v, data, pl) =
    ((format_request b write (ucast (bn * 2)) (0, 1, 2) v)\<lparr>
       info := (info v)(0 := \<lparr>i_b = Some b, i_status = 0\<rparr>),
       used_ring := (used_ring v)(unat (used_ring_idx v) mod 8 := 0),
       used_ring_idx := used_ring_idx v + 1\<rparr>,
     data(b := xfer_data write (unat bn) pl (data b)), xfer_platter write (unat bn) (data b) pl)"
  using assms(1) sector_offset [OF assms(2)]
  unfolding xfer_data_def xfer_platter_def platter_block_def
  by (simp add: serve_def format_request_def Let_def fun_upd_idem)

lemma device_step_request:
  fixes bn :: u32
  assumes "device s (vd s, \<lambda>b. bdata (bufs s b), platter s) = serve (vd s, \<lambda>b. bdata (bufs s b), platter s)"
    and "vd s = format_request b write (ucast (bn * 2)) (0, 1, 2) v"
    and "avail_idx v = used_ring_idx v" and "unat bn < 2 ^ 31"
  shows "device_step s = Ok () (s\<lparr>
    vd := (vd s)\<lparr>info := (info v)(0 := \<lparr>i_b = Some b, i_status = 0\<rparr>),
       used_ring := (used_ring v)(unat (used_ring_idx v) mod 8 := 0),
       used_ring_idx := used_ring_idx v + 1\<rparr>,
    bufs := (bufs s)(b := (bufs s b)\<lparr>bdata := xfer_data write (unat bn) (platter s) (bdata (bufs s b))\<rparr>),
    platter := xfer_platter write (unat bn) (bdata (bufs s b)) (platter s)\<rparr>)"
proof -
  have "(\<lambda>b'. (bufs s b')\<lparr>bdata := ((\<lambda>b. bdata (bufs s b))(b := d)) b'\<rparr>) =
      (bufs s)(b := (bufs s b)\<lparr>bdata := d\<rparr>)" for d
    by (auto simp: fun_eq_iff)
  then show ?thesis
    using assms(1) serve_request [OF assms(3,4), of b "write" "\<lambda>b. bdata (bufs s b)" "platter s"]
    by (simp add: device_step_def kop_simps assms(2))
qed

lemma intr_one:
  assumes "used_ring_idx (vd s) = used_idx (vd s) + 1" and "used_ring (vd s) (unat (used_idx (vd s)) mod 8) = 0"
    and "info (vd s) 0 = \<lparr>i_b = Some b, i_status = 0\<rparr>" and "\<forall>lk. avail lk (lks s)"
  shows "virtio_disk_intr s = Ok () (s\<lparr>lks := settle (lks s),
    vregs := (vregs s)(0x64 := vregs s 0x60 AND 3),
    bufs := (bufs s)(b := (bufs s b)\<lparr>bdisk := False\<rparr>),
    procs := wake (ChBuf b) (others (cproc (thiscpu (lks s)))) (procs s),
    vd := (vd s)\<lparr>used_idx := used_idx (vd s) + 1\<rparr>\<rparr>)"
proof -
  let ?L = "acq LkVdisk (lks s)"
  have L: "avail LkVdisk (lks s)" "cpu_ok ?L" "settle ?L = ?L"
    using assms(4) avail_cpu_ok by (auto simp: lock_simps)
  have o: "\<forall>j\<in>others (cproc (thiscpu ?L)). avail (LkProc j) ?L"
    using assms(4) by (auto intro!: avail_acq)
  have one: "unat (used_idx (vd s) + 1 - used_idx (vd s)) = Suc 0" by simp
  show ?thesis
    using assms(1-3) L o one
    by (simp add: virtio_disk_intr_def kop_simps acquire_ok release_ok held_acq rel_acq deref_def wakeup_ok)
qed

lemma io_request:
  fixes bn :: u32
  assumes "device s (vd s, \<lambda>b. bdata (bufs s b), platter s) = serve (vd s, \<lambda>b. bdata (bufs s b), platter s)"
    and "vd s = format_request b write (ucast (bn * 2)) (0, 1, 2) v"
    and "avail_idx v = used_ring_idx v" and "used_idx v = used_ring_idx v" and "unat bn < 2 ^ 31"
    and "\<forall>lk. avail lk (lks s)"
  shows "\<exists>v' r. kseq device_step virtio_disk_intr s = Ok () (s\<lparr>lks := settle (lks s), vd := v', vregs := r,
      bufs := (bufs s)(b := (bufs s b)\<lparr>bdata := xfer_data write (unat bn) (platter s) (bdata (bufs s b)), bdisk := False\<rparr>),
      platter := xfer_platter write (unat bn) (bdata (bufs s b)) (platter s),
      procs := wake (ChBuf b) (others (cproc (thiscpu (lks s)))) (procs s)\<rparr>) \<and>
    desc v' = desc (vd s) \<and> dfree v' = dfree v \<and> avail_idx v' = used_ring_idx v' \<and> used_idx v' = used_ring_idx v'"
proof -
  let ?t = "s\<lparr>vd := (vd s)\<lparr>info := (info v)(0 := \<lparr>i_b = Some b, i_status = 0\<rparr>),
       used_ring := (used_ring v)(unat (used_ring_idx v) mod 8 := 0),
       used_ring_idx := used_ring_idx v + 1\<rparr>,
    bufs := (bufs s)(b := (bufs s b)\<lparr>bdata := xfer_data write (unat bn) (platter s) (bdata (bufs s b))\<rparr>),
    platter := xfer_platter write (unat bn) (bdata (bufs s b)) (platter s)\<rparr>"
  have st: "device_step s = Ok () ?t" using assms by (intro device_step_request)
  have f: "used_idx (vd s) = used_ring_idx v" "avail_idx (vd s) = used_ring_idx v + 1" "dfree (vd s) = dfree v"
    using assms(2-4) by (simp_all add: format_request_def)
  have "virtio_disk_intr ?t = Ok () (?t\<lparr>lks := settle (lks ?t),
      vregs := (vregs ?t)(0x64 := vregs ?t 0x60 AND 3),
      bufs := (bufs ?t)(b := (bufs ?t b)\<lparr>bdisk := False\<rparr>),
      procs := wake (ChBuf b) (others (cproc (thiscpu (lks ?t)))) (procs ?t),
      vd := (vd ?t)\<lparr>used_idx := used_idx (vd ?t) + 1\<rparr>\<rparr>)"
    by (rule intr_one) (use f assms(6) in simp_all)
  then show ?thesis
    using f by (intro exI [of _ "(vd ?t)\<lparr>used_idx := used_idx (vd ?t) + 1\<rparr>"]
        exI [of _ "(vregs s)(0x64 := vregs s 0x60 AND 3)"]) (simp add: kop_simps st)
qed

text \<open>What the device sees of a request.\<close>

definition request :: "nat \<Rightarrow> bool \<Rightarrow> 'x diskstate_scheme \<Rightarrow> io" where
  "request b write s =
     (format_request b write (ucast (blockno (bufs s b) * 2)) (0, 1, 2)
        ((vd s)\<lparr>dfree := (dfree (vd s))(0 := False, 1 := False, 2 := False)\<rparr>),
      \<lambda>b. bdata (bufs s b), platter s)"

lemma request_one: "vd_idle (vd s) \<Longrightarrow> one_request (fst (request b write s))"
  by (simp add: request_def one_request_def format_request_def vd_idle_def)

text \<open>The whole of \<open>virtio_disk_rw\<close> when the device serves the request.\<close>

lemma virtio_disk_rw_served:
  assumes p: "in_proc p (lks s)" "pstate (procs s p) = RUNNING" "pchan (procs s p) = None"
    and d: "vd_idle (vd s)" "device s (request b write s) = serve (request b write s)"
      "unat (blockno (bufs s b)) < 2 ^ 31"
  shows "\<exists>ps v r. virtio_disk_rw b write s = Ok () (s\<lparr>lks := settle (lks s), procs := ps, vd := v, vregs := r,
      bufs := (bufs s)(b := (bufs s b)\<lparr>bdata := xfer_data write (unat (blockno (bufs s b))) (platter s) (bdata (bufs s b)), bdisk := False\<rparr>),
      platter := xfer_platter write (unat (blockno (bufs s b))) (bdata (bufs s b)) (platter s)\<rparr>) \<and>
    ps p = procs s p \<and> vd_idle v"
proof -
  note L = in_procD [OF p(1)]
  define bn where "bn = blockno (bufs s b)"
  define v where "v = (vd s)\<lparr>dfree := (dfree (vd s))(0 := False, 1 := False, 2 := False)\<rparr>"
  define u where "u = s\<lparr>lks := acq LkVdisk (lks s),
    vd := format_request b write (ucast (bn * 2)) (0, 1, 2) v, vregs := (vregs s)(0x50 := 0),
    bufs := (bufs s)(b := (bufs s b)\<lparr>bdisk := True\<rparr>)\<rparr>"
  define m where "m = u\<lparr>lks := settle (on_cpu None (lks s)),
    procs := (procs u)(p := (procs u p)\<lparr>pchan := Some (ChBuf b), pstate := SLEEPING\<rparr>)\<rparr>"
  have idle: "avail_idx v = used_ring_idx v" "used_idx v = used_ring_idx v"
    using d(1) by (simp_all add: vd_idle_def v_def)
  have vm: "vd m = format_request b write (ucast (bn * 2)) (0, 1, 2) v" by (simp add: m_def u_def)
  have "(vd m, \<lambda>b. bdata (bufs m b), platter m) = request b write s"
    by (auto simp: request_def m_def u_def v_def bn_def fun_eq_iff)
  then have dev: "device m (vd m, \<lambda>b. bdata (bufs m b), platter m) = serve (vd m, \<lambda>b. bdata (bufs m b), platter m)"
    using d(2) by (simp add: m_def u_def)
  obtain v' r where io: "kseq device_step virtio_disk_intr m = Ok () (m\<lparr>lks := settle (lks m), vd := v', vregs := r,
      bufs := (bufs m)(b := (bufs m b)\<lparr>bdata := xfer_data write (unat bn) (platter m) (bdata (bufs m b)), bdisk := False\<rparr>),
      platter := xfer_platter write (unat bn) (bdata (bufs m b)) (platter m),
      procs := wake (ChBuf b) (others (cproc (thiscpu (lks m)))) (procs m)\<rparr>)" (is "_ = Ok () ?w")
    and v': "desc v' = desc (vd m)" "dfree v' = dfree v" "avail_idx v' = used_ring_idx v'" "used_idx v' = used_ring_idx v'"
    using io_request [OF dev vm idle] L d(3) bn_def by (auto simp: m_def u_def lock_simps)
  have run: "pstate (procs ?w p) = RUNNABLE"
    using L(1) cproc_on_cpu [of None "lks s"] by (simp add: m_def wake_def others_def)
  have "sleep (off_cpu p (kseq device_step virtio_disk_intr)) (ChBuf b) LkVdisk u = Ok () (?w\<lparr>lks := acq LkVdisk (lks s),
      procs := (procs ?w)(p := (procs ?w p)\<lparr>pstate := RUNNING, pchan := None\<rparr>)\<rparr>)" (is "_ = Ok () ?x")
    using io run L by (intro sleep_off_cpu) (simp_all add: m_def u_def lock_simps)
  moreover have "bdisk (bufs u b)" "\<not> bdisk (bufs ?x b)" by (simp_all add: u_def)
  ultimately have sl: "sleep_while [off_cpu p (kseq device_step virtio_disk_intr)] (\<lambda>s. bdisk (bufs s b)) (ChBuf b) LkVdisk u = Ok () ?x"
    by (simp add: kop_simps)
  let ?y = "?x\<lparr>vd := v'\<lparr>info := (info v')(0 := (info v' 0)\<lparr>i_b := None\<rparr>)\<rparr>\<rparr>"
  have Ly: "cpu_ok (lks ?y)" "settle (lks ?y) = lks ?y" "cproc (thiscpu (lks ?y)) = Some p"
      "\<forall>j\<in>others (cproc (thiscpu (lks ?y))). avail (LkProc j) (lks ?y)"
    using L by (auto simp: lock_simps intro!: avail_acq)
  obtain v2 where fc: "free_chain 0 ?y = Ok () (?y\<lparr>vd := v2, procs := wake ChDiskFree (others (Some p)) (procs ?y)\<rparr>)"
    and v2: "dfree v2 = (dfree v')(0 := True, 1 := True, 2 := True)" "avail_idx v2 = avail_idx v'"
      "used_idx v2 = used_idx v'" "used_ring_idx v2 = used_ring_idx v'"
    using free_chain_ok [of ?y] Ly v' by (auto simp: vm format_request_def v_def)
  have run_rw: "virtio_disk_rw b write s = Ok () (?y\<lparr>lks := settle (lks s), vd := v2, procs := wake ChDiskFree (others (Some p)) (procs ?y)\<rparr>)"
  proof -
    have al: "alloc3_wait [] (s\<lparr>lks := acq LkVdisk (lks s)\<rparr>) = Ok (0, 1, 2) (s\<lparr>lks := acq LkVdisk (lks s), vd := v\<rparr>)"
      using alloc3_idle [of "s\<lparr>lks := acq LkVdisk (lks s)\<rparr>"] d(1) by (simp add: vd_idle_def v_def)
    have u: "s\<lparr>bufs := (bufs s)(b := (bufs s b)\<lparr>bdisk := True\<rparr>),
        vd := format_request b write (ucast (bn * 2)) (0, 1, 2) v, vregs := (vregs s)(80 := 0),
        lks := acq LkVdisk (lks s)\<rparr> = u"
      by (simp add: u_def)
    show ?thesis
      using L al sl fc
      by (simp add: virtio_disk_rw_def kop_simps lock_simps bn_def [symmetric] u del: sleep_while.simps One_nat_def)
  qed
  have pp: "wake ChDiskFree (others (Some p)) (procs ?y) p = procs s p"
  proof -
    have "q\<lparr>pstate := RUNNING, pchan := None\<rparr> = q" if "pstate q = RUNNING" "pchan q = None" for q :: proc
      using that by (cases q) simp
    then show ?thesis
      using p(2,3) L(1) cproc_on_cpu [of None "lks s"]
      by (simp add: wake_def others_def m_def u_def)
  qed
  have idle2: "vd_idle v2"
    using v2 v' d(1) by (auto simp: vd_idle_def v_def)
  show ?thesis
  proof (rule exI [of _ "wake ChDiskFree (others (Some p)) (procs ?y)"], rule exI [of _ v2], rule exI [of _ r],
      intro conjI)
    show "virtio_disk_rw b write s = Ok () (s\<lparr>lks := settle (lks s),
      procs := wake ChDiskFree (others (Some p)) (procs ?y), vd := v2, vregs := r,
      bufs := (bufs s)(b := (bufs s b)\<lparr>bdata := xfer_data write (unat (blockno (bufs s b))) (platter s) (bdata (bufs s b)), bdisk := False\<rparr>),
      platter := xfer_platter write (unat (blockno (bufs s b))) (bdata (bufs s b)) (platter s)\<rparr>)"
      unfolding run_rw by (simp add: m_def u_def bn_def)
  qed (use pp idle2 in auto)
qed

lemma virtio_disk_rw_ok:
  assumes p: "in_proc p (lks s)" "pstate (procs s p) = RUNNING" "pchan (procs s p) = None"
    and d: "vd_idle (vd s)" "virtio_device (device s)" "unat (blockno (bufs s b)) < 2 ^ 31"
  shows "\<exists>ps v r. virtio_disk_rw b write s = Ok () (s\<lparr>lks := settle (lks s), procs := ps, vd := v, vregs := r,
      bufs := (bufs s)(b := (bufs s b)\<lparr>bdata := xfer_data write (unat (blockno (bufs s b))) (platter s) (bdata (bufs s b)), bdisk := False\<rparr>),
      platter := xfer_platter write (unat (blockno (bufs s b))) (bdata (bufs s b)) (platter s)\<rparr>) \<and>
    ps p = procs s p \<and> vd_idle v"
proof -
  have "device s (request b write s) = serve (request b write s)"
    using d(2) request_one [OF d(1), of b "write"] by (cases "request b write s") (simp add: virtio_device_def)
  then show ?thesis by (rule virtio_disk_rw_served [OF p d(1) _ d(3)])
qed

text \<open>
  A device that has lost power serves no more requests: the process is never woken, and
  nothing has been transferred.
\<close>

lemma virtio_disk_rw_lost:
  assumes p: "in_proc p (lks s)"
    and d: "vd_idle (vd s)" "device s (request b write s) = request b write s"
  shows "\<exists>t. virtio_disk_rw b write s = Stop Descheduled t \<and> platter t = platter s"
proof -
  note L = in_procD [OF p]
  define bn where "bn = blockno (bufs s b)"
  define v where "v = (vd s)\<lparr>dfree := (dfree (vd s))(0 := False, 1 := False, 2 := False)\<rparr>"
  define u where "u = s\<lparr>lks := acq LkVdisk (lks s),
    vd := format_request b write (ucast (bn * 2)) (0, 1, 2) v, vregs := (vregs s)(0x50 := 0),
    bufs := (bufs s)(b := (bufs s b)\<lparr>bdisk := True\<rparr>)\<rparr>"
  define m where "m = u\<lparr>lks := settle (on_cpu None (lks s)),
    procs := (procs u)(p := (procs u p)\<lparr>pchan := Some (ChBuf b), pstate := SLEEPING\<rparr>)\<rparr>"
  have "(vd m, \<lambda>b. bdata (bufs m b), platter m) = request b write s"
    by (auto simp: request_def m_def u_def v_def bn_def fun_eq_iff)
  then have "device m (vd m, \<lambda>b. bdata (bufs m b), platter m) = (vd m, \<lambda>b. bdata (bufs m b), platter m)"
    using d(2) by (simp add: m_def u_def)
  then have st: "device_step m = Ok () m" by (simp add: device_step_def kop_simps)
  have n: "used_ring_idx (vd m) = used_idx (vd m)"
    using d(1) by (simp add: m_def u_def v_def format_request_def vd_idle_def)
  have av: "avail LkVdisk (lks m)" using L(4) by (simp add: m_def lock_simps)
  have "virtio_disk_intr m = Ok () (m\<lparr>lks := settle (lks m), vregs := (vregs m)(0x64 := vregs m 0x60 AND 3)\<rparr>)"
    using av n by (simp add: virtio_disk_intr_def kop_simps lock_simps)
  then have io: "kseq device_step virtio_disk_intr m =
      Ok () (m\<lparr>lks := settle (lks m), vregs := (vregs m)(0x64 := vregs m 0x60 AND 3)\<rparr>)" (is "_ = Ok () ?w")
    using st by (simp add: kop_simps)
  obtain l where "sleep (off_cpu p (kseq device_step virtio_disk_intr)) (ChBuf b) LkVdisk u = Stop Descheduled (?w\<lparr>lks := l\<rparr>)"
    using sleep_not_woken [of LkVdisk "lks s" u p "kseq device_step virtio_disk_intr" "ChBuf b" ?w] io L
    by (auto simp: m_def u_def lock_simps)
  moreover have "bdisk (bufs u b)" by (simp add: u_def)
  ultimately have sl: "sleep_while [off_cpu p (kseq device_step virtio_disk_intr)] (\<lambda>s. bdisk (bufs s b)) (ChBuf b) LkVdisk u =
      Stop Descheduled (?w\<lparr>lks := l\<rparr>)"
    by (simp add: kop_simps)
  have al: "alloc3_wait [] (s\<lparr>lks := acq LkVdisk (lks s)\<rparr>) = Ok (0, 1, 2) (s\<lparr>lks := acq LkVdisk (lks s), vd := v\<rparr>)"
    using alloc3_idle [of "s\<lparr>lks := acq LkVdisk (lks s)\<rparr>"] d(1) by (simp add: vd_idle_def v_def)
  have u: "s\<lparr>bufs := (bufs s)(b := (bufs s b)\<lparr>bdisk := True\<rparr>),
      vd := format_request b write (ucast (bn * 2)) (0, 1, 2) v, vregs := (vregs s)(80 := 0),
      lks := acq LkVdisk (lks s)\<rparr> = u"
    by (simp add: u_def)
  have "virtio_disk_rw b write s = Stop Descheduled (?w\<lparr>lks := l\<rparr>)"
    using L al sl
    by (simp add: virtio_disk_rw_def kop_simps lock_simps bn_def [symmetric] u del: sleep_while.simps One_nat_def)
  then show ?thesis by (simp add: m_def u_def)
qed

text \<open>
  A device that may lose power at any request: it serves the request or does nothing. The
  request then either completes, or the system stops with the disk as it was.
\<close>

definition failing_device :: "(io \<Rightarrow> io) \<Rightarrow> bool" where
  "failing_device dev \<longleftrightarrow> (\<forall>v data pl. one_request v \<longrightarrow>
     dev (v, data, pl) = serve (v, data, pl) \<or> dev (v, data, pl) = (v, data, pl))"

lemma virtio_failing: "virtio_device dev \<Longrightarrow> failing_device dev"
  by (simp add: virtio_device_def failing_device_def)

lemma virtio_disk_rw_cases:
  assumes p: "in_proc p (lks s)" "pstate (procs s p) = RUNNING" "pchan (procs s p) = None"
    and d: "vd_idle (vd s)" "failing_device (device s)" "unat (blockno (bufs s b)) < 2 ^ 31"
  obtains (served) ps v r where "virtio_disk_rw b write s = Ok () (s\<lparr>lks := settle (lks s), procs := ps, vd := v, vregs := r,
      bufs := (bufs s)(b := (bufs s b)\<lparr>bdata := xfer_data write (unat (blockno (bufs s b))) (platter s) (bdata (bufs s b)), bdisk := False\<rparr>),
      platter := xfer_platter write (unat (blockno (bufs s b))) (bdata (bufs s b)) (platter s)\<rparr>)"
    and "ps p = procs s p" and "vd_idle v"
  | (lost) t where "virtio_disk_rw b write s = Stop Descheduled t" and "platter t = platter s"
    and "\<not> virtio_device (device s)"
proof (cases "device s (request b write s) = serve (request b write s)")
  case True
  then show ?thesis using virtio_disk_rw_served [OF p d(1) _ d(3)] served by blast
next
  case False
  have one: "one_request (fst (request b write s))" by (rule request_one [OF d(1)])
  have "device s (request b write s) = request b write s"
    using d(2) one False by (cases "request b write s") (auto simp: failing_device_def)
  moreover have "\<not> virtio_device (device s)"
    using one False by (cases "request b write s") (auto simp: virtio_device_def)
  ultimately show ?thesis using virtio_disk_rw_lost [OF p(1) d(1), of b "write"] lost by blast
qed

text \<open>The lock and process state of a process in the middle of a system call.\<close>

definition proc_ready :: "nat \<Rightarrow> 'x ptable_scheme \<Rightarrow> bool" where
  "proc_ready p s \<longleftrightarrow> in_proc p (lks s) \<and> pstate (procs s p) = RUNNING \<and> pchan (procs s p) = None"

section \<open>A small machine\<close>

definition empty_buf :: buf where
  "empty_buf = \<lparr>valid = False, bdisk = False, bdev = 0, blockno = 0, refcnt = 0, bprev = 0, bnext = 0, bdata = (\<lambda>_. 0)\<rparr>"

definition idle_vdisk :: vdisk where
  "idle_vdisk = \<lparr>desc = (\<lambda>_. \<lparr>d_addr = DNull, d_len = 0, d_flags = 0, d_next = 0\<rparr>), avail_idx = 0,
     avail_ring = (\<lambda>_. 0), used_ring_idx = 0, used_ring = (\<lambda>_. 0), dfree = (\<lambda>i. i < 8), used_idx = 0,
     info = (\<lambda>_. \<lparr>i_b = None, i_status = 0\<rparr>), ops = (\<lambda>_. \<lparr>r_type = 0, r_reserved = 0, r_sector = 0\<rparr>)\<rparr>"

definition running_proc :: proc where
  "running_proc = empty_proc\<lparr>pstate := RUNNING, ppid := 7\<rparr>"

definition boot_disk :: "nat \<Rightarrow> (nat \<Rightarrow> buf) \<Rightarrow> diskstate" where
  "boot_disk p bs = sleeplocks.extend
     (ptable.extend (boot_ptable (on_cpu (Some p) boot_locks) ((\<lambda>_. empty_proc)(p := running_proc)))
        \<lparr>slocks = (\<lambda>_. \<lparr>sl_locked = 0, sl_name = [], sl_pid = 0\<rparr>)\<rparr>)
     \<lparr>vd = idle_vdisk, vregs = (\<lambda>_. 0), vpages = (0, 0, 0), bufs = bs, platter = (\<lambda>_. 0), device = serve\<rparr>"

lemmas boot_disk_unfold = boot_disk_def sleeplocks.extend_def ptable.extend_def boot_ptable_def

lemma boot_disk_ready: "p < 64 \<Longrightarrow> proc_ready p (boot_disk p bs)"
  using boot_in_proc [of p] by (simp add: proc_ready_def boot_disk_unfold running_proc_def empty_proc_def)

lemma boot_disk_idle: "vd_idle (vd (boot_disk p bs))" "virtio_device (device (boot_disk p bs))"
  by (simp_all add: boot_disk_unfold vd_idle_def idle_vdisk_def virtio_device_def)

section \<open>Properties\<close>



end
