(* ===== verification/Bio.thy ===== *)
theory Bio
  imports Virtio
begin

text \<open>
  The buffer cache, \<open>kernel/bio.c\<close>. The buffers are linked in a ring through \<open>bnext\<close>
  and \<open>bprev\<close>, most recently used first; the list head \<open>bcache.head\<close> is the buffer
  with index \<open>NBUF\<close>.
\<close>

abbreviation (input) bhead :: nat where "bhead \<equiv> NBUF"

abbreviation set_next :: "nat \<Rightarrow> nat \<Rightarrow> ('x diskstate_scheme, unit) kop" where
  "set_next b c \<equiv> buf_upd b (\<lambda>x. x\<lparr>bnext := c\<rparr>)"

abbreviation set_prev :: "nat \<Rightarrow> nat \<Rightarrow> ('x diskstate_scheme, unit) kop" where
  "set_prev b c \<equiv> buf_upd b (\<lambda>x. x\<lparr>bprev := c\<rparr>)"

text \<open>Inserting \<open>b\<close> after the head, the four assignments of \<open>binit\<close> and \<open>brelse\<close>.\<close>

definition binit :: "('x diskstate_scheme, unit) kop" where
  "binit =
     kseq (initlock LkBcache ''bcache'')
    (kseq (set_prev bhead bhead)
    (kseq (set_next bhead bhead)
     (kfor [0..<NBUF] (\<lambda>b.
        kbind (bget_field bhead bnext) (\<lambda>f.
        kseq (set_next b f)
       (kseq (set_prev b bhead)
       (kseq (initsleeplock (SlBuf b) ''buffer'')
       (kseq (set_prev f b)
        (set_next bhead b)))))))))"

text \<open>
  A loop over the list: \<open>Some (Some b)\<close> is the first buffer that satisfies the condition,
  \<open>Some None\<close> that the loop came back to the head. The fuel is the number of links to
  follow; a ring of all buffers has \<open>NBUF + 1\<close> of them.
\<close>

primrec bscan :: "nat \<Rightarrow> (nat \<Rightarrow> nat) \<Rightarrow> (nat \<Rightarrow> bool) \<Rightarrow> nat \<Rightarrow> nat option option" where
  "bscan 0 link P b = None"
| "bscan (Suc n) link P b =
     (if b = bhead then Some None else if P b then Some (Some b) else bscan n link P (link b))"

definition bget :: "u32 \<Rightarrow> u32 \<Rightarrow> ('x diskstate_scheme, nat) kop" where
  "bget dev bn =
     kseq (acquire LkBcache)
    (kbind (kget (\<lambda>s. bscan (Suc NBUF) (\<lambda>b. bnext (bufs s b))
        (\<lambda>b. bdev (bufs s b) = dev \<and> blockno (bufs s b) = bn) (bnext (bufs s bhead)))) (\<lambda>r. case r of
       None \<Rightarrow> kstop Hung
     | Some (Some b) \<Rightarrow>
         kseq (buf_upd b (\<lambda>x. x\<lparr>refcnt := refcnt x + 1\<rparr>))
        (kseq (release LkBcache)
        (kseq (acquiresleep [] (SlBuf b)) (kret b)))
     | Some None \<Rightarrow>
         kbind (kget (\<lambda>s. bscan (Suc NBUF) (\<lambda>b. bprev (bufs s b))
            (\<lambda>b. refcnt (bufs s b) = 0) (bprev (bufs s bhead)))) (\<lambda>r. case r of
           None \<Rightarrow> kstop Hung
         | Some (Some b) \<Rightarrow>
             kseq (buf_upd b (\<lambda>x. x\<lparr>bdev := dev, blockno := bn, valid := False, refcnt := 1\<rparr>))
            (kseq (release LkBcache)
            (kseq (acquiresleep [] (SlBuf b)) (kret b)))
         | Some None \<Rightarrow> panic ''bget: no buffers'')))"

definition bread :: "u32 \<Rightarrow> u32 \<Rightarrow> ('x diskstate_scheme, nat) kop" where
  "bread dev bn =
     kbind (bget dev bn) (\<lambda>b.
     kbind (bget_field b valid) (\<lambda>v.
     kseq (kwhen (\<not> v) (kseq (virtio_disk_rw b False) (buf_upd b (\<lambda>x. x\<lparr>valid := True\<rparr>))))
      (kret b)))"

definition bwrite :: "nat \<Rightarrow> ('x diskstate_scheme, unit) kop" where
  "bwrite b =
     kbind (holdingsleep (SlBuf b)) (\<lambda>h.
     kseq (kcheck h ''bwrite'')
      (virtio_disk_rw b True))"

text \<open>No one is waiting for the buffer: it moves to the front of the list.\<close>

definition move_front :: "nat \<Rightarrow> ('x diskstate_scheme, unit) kop" where
  "move_front b =
     kbind (bget_field b bnext) (\<lambda>nx. kbind (bget_field b bprev) (\<lambda>pv.
     kseq (set_prev nx pv)
    (kseq (set_next pv nx)
    (kbind (bget_field bhead bnext) (\<lambda>f.
     kseq (set_next b f)
    (kseq (set_prev b bhead)
    (kseq (set_prev f b)
     (set_next bhead b))))))))"

definition brelse :: "nat \<Rightarrow> ('x diskstate_scheme, unit) kop" where
  "brelse b =
     kbind (holdingsleep (SlBuf b)) (\<lambda>h.
     kseq (kcheck h ''brelse'')
    (kseq (releasesleep (SlBuf b))
    (kseq (acquire LkBcache)
    (kseq (buf_upd b (\<lambda>x. x\<lparr>refcnt := refcnt x - 1\<rparr>))
    (kbind (bget_field b refcnt) (\<lambda>n.
     kseq (kwhen (n = 0) (move_front b))
     (release LkBcache)))))))"

definition bpin :: "nat \<Rightarrow> ('x diskstate_scheme, unit) kop" where
  "bpin b =
     kseq (acquire LkBcache)
    (kseq (buf_upd b (\<lambda>x. x\<lparr>refcnt := refcnt x + 1\<rparr>))
     (release LkBcache))"

definition bunpin :: "nat \<Rightarrow> ('x diskstate_scheme, unit) kop" where
  "bunpin b =
     kseq (acquire LkBcache)
    (kseq (buf_upd b (\<lambda>x. x\<lparr>refcnt := refcnt x - 1\<rparr>))
     (release LkBcache))"

end
