(* ===== verification/Log.thy ===== *)
theory Log
  imports Bio
begin

text \<open>
  The write-ahead log, \<open>kernel/log.c\<close>. The fields of \<open>struct log\<close> are kept as
  \<open>int\<close>s; block numbers in the header are the 32 bits the source stores in an \<open>int\<close>.
\<close>

abbreviation (input) LOGSIZE :: nat where "LOGSIZE \<equiv> 30"
abbreviation (input) MAXOPBLOCKS :: int where "MAXOPBLOCKS \<equiv> 10"

record superblock =
  sb_magic :: u32
  sb_size :: u32
  sb_nblocks :: u32
  sb_ninodes :: u32
  sb_nlog :: u32
  sb_logstart :: u32
  sb_inodestart :: u32
  sb_bmapstart :: u32

record logheader =
  lh_n :: int
  lh_block :: "nat \<Rightarrow> u32"

record klog =
  lg_start :: int
  lg_size :: int
  outstanding :: int
  committing :: bool
  lg_dev :: u32
  lh :: logheader

record logstate = diskstate +
  klog :: klog

abbreviation log_mod :: "(klog \<Rightarrow> klog) \<Rightarrow> ('x logstate_scheme, unit) kop" where
  "log_mod f \<equiv> kmod (\<lambda>s. s\<lparr>klog := f (klog s)\<rparr>)"

abbreviation log_get :: "(klog \<Rightarrow> 'a) \<Rightarrow> ('x logstate_scheme, 'a) kop" where
  "log_get f \<equiv> kget (\<lambda>s. f (klog s))"

abbreviation set_lh_n :: "int \<Rightarrow> ('x logstate_scheme, unit) kop" where
  "set_lh_n n \<equiv> log_mod (\<lambda>g. g\<lparr>lh := (lh g)\<lparr>lh_n := n\<rparr>\<rparr>)"

text \<open>The number of the log block that holds entry \<open>tail\<close>: \<open>log.start+tail+1\<close>.\<close>

abbreviation (input) log_bno :: "klog \<Rightarrow> nat \<Rightarrow> u32" where
  "log_bno g tail \<equiv> word_of_int (lg_start g + int tail + 1)"

text \<open>\<open>memmove(a->data, b->data, BSIZE)\<close> between two buffers.\<close>

abbreviation buf_copy :: "nat \<Rightarrow> nat \<Rightarrow> ('x diskstate_scheme, unit) kop" where
  "buf_copy a b \<equiv> kbind (bget_field b bdata) (\<lambda>d.
     buf_upd a (\<lambda>x. x\<lparr>bdata := put_bytes (bdata x) 0 BSIZE d\<rparr>))"

text \<open>One turn of the loop of \<open>install_trans\<close>; the loop reads \<open>log.lh.n\<close> on entry.\<close>

definition install_one :: "bool \<Rightarrow> nat \<Rightarrow> ('x logstate_scheme, unit) kop" where
  "install_one recovering tail =
     kbind (log_get id) (\<lambda>g.
     kbind (bread (lg_dev g) (log_bno g tail)) (\<lambda>lbuf.
     kbind (bread (lg_dev g) (lh_block (lh g) tail)) (\<lambda>dbuf.
     kseq (buf_copy dbuf lbuf)
    (kseq (bwrite dbuf)
    (kseq (kwhen (\<not> recovering) (bunpin dbuf))
    (kseq (brelse lbuf)
     (brelse dbuf)))))))"

definition install_trans :: "bool \<Rightarrow> ('x logstate_scheme, unit) kop" where
  "install_trans recovering =
     kbind (log_get (\<lambda>g. lh_n (lh g))) (\<lambda>n.
     kfor [0..<nat n] (install_one recovering))"

text \<open>
  The header block holds \<open>n\<close> and the block numbers as 32-bit integers. A count above
  \<open>LOGSIZE\<close> read from the disk makes \<open>read_head\<close> write past \<open>log.lh.block\<close>.
\<close>

definition read_head :: "('x logstate_scheme, unit) kop" where
  "read_head =
     kbind (log_get id) (\<lambda>g.
     kbind (bread (lg_dev g) (word_of_int (lg_start g))) (\<lambda>b.
     kbind (bget_field b bdata) (\<lambda>d.
     let n = sint (get32 d 0) in
     kseq (set_lh_n n)
    (kseq (if n > int LOGSIZE then kstop (Faulted ''log.lh.block'') else kret ())
    (kseq (kfor [0..<nat n] (\<lambda>i. log_mod (\<lambda>g. g\<lparr>lh := (lh g)
        \<lparr>lh_block := (lh_block (lh g))(i := get32 d (4 + 4 * i))\<rparr>\<rparr>)))
     (brelse b))))))"

definition write_head :: "('x logstate_scheme, unit) kop" where
  "write_head =
     kbind (log_get id) (\<lambda>g.
     kbind (bread (lg_dev g) (word_of_int (lg_start g))) (\<lambda>b.
     kseq (buf_upd b (\<lambda>x. x\<lparr>bdata := put32 (bdata x) 0 (word_of_int (lh_n (lh g)))\<rparr>))
    (kseq (kfor [0..<nat (lh_n (lh g))] (\<lambda>i.
        buf_upd b (\<lambda>x. x\<lparr>bdata := put32 (bdata x) (4 + 4 * i) (lh_block (lh g) i)\<rparr>)))
    (kseq (bwrite b)
     (brelse b)))))"

definition recover_from_log :: "('x logstate_scheme, unit) kop" where
  "recover_from_log =
     kseq read_head
    (kseq (install_trans True)
    (kseq (set_lh_n 0)
     write_head))"

definition initlog :: "u32 \<Rightarrow> superblock \<Rightarrow> ('x logstate_scheme, unit) kop" where
  "initlog dev sb =
     kseq (initlock LkLog ''log'')
    (kseq (log_mod (\<lambda>g. g\<lparr>lg_start := sint (sb_logstart sb), lg_size := sint (sb_nlog sb), lg_dev := dev\<rparr>))
     recover_from_log)"

definition begin_op :: "('x logstate_scheme, unit) kop list \<Rightarrow> ('x logstate_scheme, unit) kop" where
  "begin_op env =
     kseq (acquire LkLog)
    (kseq (sleep_while env (\<lambda>s. committing (klog s) \<or>
        lh_n (lh (klog s)) + (outstanding (klog s) + 1) * MAXOPBLOCKS > int LOGSIZE) ChLog LkLog)
    (kseq (log_mod (\<lambda>g. g\<lparr>outstanding := outstanding g + 1\<rparr>))
     (release LkLog)))"

definition write_log_one :: "nat \<Rightarrow> ('x logstate_scheme, unit) kop" where
  "write_log_one tail =
     kbind (log_get id) (\<lambda>g.
     kbind (bread (lg_dev g) (log_bno g tail)) (\<lambda>to.
     kbind (bread (lg_dev g) (lh_block (lh g) tail)) (\<lambda>from.
     kseq (buf_copy to from)
    (kseq (bwrite to)
    (kseq (brelse from)
     (brelse to))))))"

definition write_log :: "('x logstate_scheme, unit) kop" where
  "write_log =
     kbind (log_get (\<lambda>g. lh_n (lh g))) (\<lambda>n.
     kfor [0..<nat n] write_log_one)"

definition commit :: "('x logstate_scheme, unit) kop" where
  "commit =
     kbind (log_get (\<lambda>g. lh_n (lh g))) (\<lambda>n.
     kwhen (n > 0)
      (kseq write_log
      (kseq write_head
      (kseq (install_trans False)
      (kseq (set_lh_n 0)
       write_head)))))"

definition end_op :: "('x logstate_scheme, unit) kop" where
  "end_op =
     kseq (acquire LkLog)
    (kseq (log_mod (\<lambda>g. g\<lparr>outstanding := outstanding g - 1\<rparr>))
    (kbind (log_get committing) (\<lambda>c.
     kseq (kcheck (\<not> c) ''log.committing'')
    (kbind (log_get outstanding) (\<lambda>n.
     let do_commit = (n = 0) in
     kseq (if do_commit then log_mod (\<lambda>g. g\<lparr>committing := True\<rparr>) else wakeup ChLog)
    (kseq (release LkLog)
     (kwhen do_commit
      (kseq commit
      (kseq (acquire LkLog)
      (kseq (log_mod (\<lambda>g. g\<lparr>committing := False\<rparr>))
      (kseq (wakeup ChLog)
       (release LkLog))))))))))))"

text \<open>
  \<open>log_write\<close>: the loop stops at the entry with the same block number (absorption) or
  at \<open>i = log.lh.n\<close>.
\<close>

definition log_slot :: "logheader \<Rightarrow> u32 \<Rightarrow> nat" where
  "log_slot h bn = (case find (\<lambda>i. lh_block h i = bn) [0..<nat (lh_n h)] of
     Some i \<Rightarrow> i | None \<Rightarrow> nat (lh_n h))"

definition log_write :: "nat \<Rightarrow> ('x logstate_scheme, unit) kop" where
  "log_write b =
     kseq (acquire LkLog)
    (kbind (log_get id) (\<lambda>g.
     kseq (kcheck (\<not> (lh_n (lh g) \<ge> int LOGSIZE \<or> lh_n (lh g) \<ge> lg_size g - 1)) ''too big a transaction'')
    (kseq (kcheck (\<not> outstanding g < 1) ''log_write outside of trans'')
    (kbind (bget_field b blockno) (\<lambda>bn.
     let i = log_slot (lh g) bn in
     kseq (log_mod (\<lambda>g. g\<lparr>lh := (lh g)\<lparr>lh_block := (lh_block (lh g))(i := bn)\<rparr>\<rparr>))
    (kseq (kwhen (int i = lh_n (lh g)) (kseq (bpin b) (set_lh_n (lh_n (lh g) + 1))))
     (release LkLog)))))))"

end
