(* ===== verification/Fs.thy ===== *)
theory Fs
  imports Log
begin

text \<open>
  The file system, \<open>kernel/fs.c\<close>: the block allocator, the inode layer, directories and
  path names. An in-memory inode is an index into \<open>itable.inode\<close>, its sleep lock is
  \<open>SlInode\<close> of that index; fields of type \<open>short\<close> are 16-bit words. Structures that
  live in a block are read and written at their byte offsets.
\<close>

abbreviation (input) NINODE :: nat where "NINODE \<equiv> 50"
abbreviation (input) NDIRECT :: nat where "NDIRECT \<equiv> 12"
abbreviation (input) NINDIRECT :: nat where "NINDIRECT \<equiv> 256"
abbreviation (input) MAXFILE :: nat where "MAXFILE \<equiv> 268"
abbreviation (input) BPB :: nat where "BPB \<equiv> 8192"
abbreviation (input) IPB :: nat where "IPB \<equiv> 16"
abbreviation (input) DIRSIZ :: nat where "DIRSIZ \<equiv> 14"
abbreviation (input) ROOTDEV :: u32 where "ROOTDEV \<equiv> 1"
abbreviation (input) ROOTINO :: u32 where "ROOTINO \<equiv> 1"
abbreviation (input) FSMAGIC :: u32 where "FSMAGIC \<equiv> 0x10203040"
abbreviation (input) T_DIR :: u16 where "T_DIR \<equiv> 1"
abbreviation (input) T_FILE :: u16 where "T_FILE \<equiv> 2"
abbreviation (input) T_DEVICE :: u16 where "T_DEVICE \<equiv> 3"

record dinode =
  di_type :: u16
  di_major :: u16
  di_minor :: u16
  di_nlink :: u16
  di_size :: u32
  di_addrs :: "nat \<Rightarrow> u32"

record inode =
  idev :: u32
  inum :: u32
  iref :: int
  ivalid :: bool
  ino :: dinode              \<comment> \<open>copy of disk inode\<close>

record fsstate = logstate +
  sb :: superblock
  inodes :: "nat \<Rightarrow> inode"

abbreviation ino_upd :: "nat \<Rightarrow> (inode \<Rightarrow> inode) \<Rightarrow> ('x fsstate_scheme, unit) kop" where
  "ino_upd i f \<equiv> kmod (\<lambda>s. s\<lparr>inodes := (inodes s)(i := f (inodes s i))\<rparr>)"

abbreviation ino_get :: "nat \<Rightarrow> (inode \<Rightarrow> 'a) \<Rightarrow> ('x fsstate_scheme, 'a) kop" where
  "ino_get i f \<equiv> kget (\<lambda>s. f (inodes s i))"

abbreviation di_upd :: "nat \<Rightarrow> (dinode \<Rightarrow> dinode) \<Rightarrow> ('x fsstate_scheme, unit) kop" where
  "di_upd i f \<equiv> ino_upd i (\<lambda>x. x\<lparr>ino := f (ino x)\<rparr>)"

section \<open>Super block and blocks\<close>

definition superblock_at :: "block \<Rightarrow> superblock" where
  "superblock_at d = \<lparr>sb_magic = get32 d 0, sb_size = get32 d 4, sb_nblocks = get32 d 8,
     sb_ninodes = get32 d 12, sb_nlog = get32 d 16, sb_logstart = get32 d 20,
     sb_inodestart = get32 d 24, sb_bmapstart = get32 d 28\<rparr>"

definition readsb :: "u32 \<Rightarrow> ('x fsstate_scheme, unit) kop" where
  "readsb dev =
     kbind (bread dev 1) (\<lambda>bp.
     kbind (bget_field bp bdata) (\<lambda>d.
     kseq (kmod (\<lambda>s. s\<lparr>sb := superblock_at d\<rparr>))
      (brelse bp)))"

definition fsinit :: "u32 \<Rightarrow> ('x fsstate_scheme, unit) kop" where
  "fsinit dev =
     kseq (readsb dev)
    (kbind (kget sb) (\<lambda>sb.
     kseq (kcheck (sb_magic sb = FSMAGIC) ''invalid file system'')
      (initlog dev sb)))"

definition bzero :: "u32 \<Rightarrow> u32 \<Rightarrow> ('x fsstate_scheme, unit) kop" where
  "bzero dev bno =
     kbind (bread dev bno) (\<lambda>bp.
     kseq (buf_upd bp (\<lambda>x. x\<lparr>bdata := memset (bdata x) 0 0 BSIZE\<rparr>))
    (kseq (log_write bp)
     (brelse bp)))"

text \<open>
  The free bitmap: \<open>bmask bi\<close> is \<open>1 << (bi % 8)\<close>, the mask of bit \<open>bi\<close> in its byte.
\<close>

definition bmask :: "nat \<Rightarrow> byte" where
  "bmask bi = push_bit (bi mod 8) 1"

definition BBLOCK :: "nat \<Rightarrow> superblock \<Rightarrow> u32" where
  "BBLOCK b sp = of_nat (b div BPB) + sb_bmapstart sp"

definition balloc_block :: "u32 \<Rightarrow> superblock \<Rightarrow> nat \<Rightarrow> ('x fsstate_scheme, u32 option) kop" where
  "balloc_block dev sp b =
     kbind (bread dev (BBLOCK b sp)) (\<lambda>bp.
     kbind (bget_field bp bdata) (\<lambda>d.
     case find (\<lambda>bi. b + bi < unat (sb_size sp) \<and> d (bi div 8) AND bmask bi = 0) [0..<BPB] of
       Some bi \<Rightarrow>
         kseq (buf_upd bp (\<lambda>x. x\<lparr>bdata := (bdata x)(bi div 8 := bdata x (bi div 8) OR bmask bi)\<rparr>))
        (kseq (log_write bp)
        (kseq (brelse bp)
        (kseq (bzero dev (of_nat (b + bi)))
         (kret (Some (of_nat (b + bi)))))))
     | None \<Rightarrow> kseq (brelse bp) (kret None)))"

definition balloc :: "u32 \<Rightarrow> ('x fsstate_scheme, u32) kop" where
  "balloc dev =
     kbind (kget sb) (\<lambda>sb.
     kbind (kscan (map (\<lambda>i. i * BPB) [0..<(unat (sb_size sb) + (BPB - 1)) div BPB]) (balloc_block dev sb)) (\<lambda>r.
     case r of
       Some a \<Rightarrow> kret a
     | None \<Rightarrow> kseq (printf (bytes ''balloc: out of blocks'' @ [10]) []) (kret 0)))"

definition bfree :: "u32 \<Rightarrow> u32 \<Rightarrow> ('x fsstate_scheme, unit) kop" where
  "bfree dev b =
     kbind (kget sb) (\<lambda>sb.
     kbind (bread dev (BBLOCK (unat b) sb)) (\<lambda>bp.
     let bi = unat b mod BPB in
     kbind (bget_field bp bdata) (\<lambda>d.
     kseq (kcheck (\<not> d (bi div 8) AND bmask bi = 0) ''freeing free block'')
    (kseq (buf_upd bp (\<lambda>x. x\<lparr>bdata := (bdata x)(bi div 8 := bdata x (bi div 8) AND NOT (bmask bi))\<rparr>))
    (kseq (log_write bp)
     (brelse bp))))))"

section \<open>Inodes\<close>

definition iinit :: "('x fsstate_scheme, unit) kop" where
  "iinit =
     kseq (initlock LkItable ''itable'')
      (kfor [0..<NINODE] (\<lambda>i. initsleeplock (SlInode i) ''inode''))"

definition IBLOCK :: "u32 \<Rightarrow> superblock \<Rightarrow> u32" where
  "IBLOCK i sp = of_nat (unat i div IPB) + sb_inodestart sp"

text \<open>The byte offset of inode \<open>i\<close> in its block, and the inode stored at an offset.\<close>

definition dinode_off :: "u32 \<Rightarrow> nat" where
  "dinode_off i = 64 * (unat i mod IPB)"

definition dinode_at :: "block \<Rightarrow> nat \<Rightarrow> dinode" where
  "dinode_at d o1 = \<lparr>di_type = get16 d o1, di_major = get16 d (o1 + 2), di_minor = get16 d (o1 + 4),
     di_nlink = get16 d (o1 + 6), di_size = get32 d (o1 + 8),
     di_addrs = (\<lambda>i. get32 d (o1 + 12 + 4 * i))\<rparr>"

text \<open>The assignments of \<open>iupdate\<close>; the addresses are copied as 52 bytes.\<close>

definition addr_bytes :: "(nat \<Rightarrow> u32) \<Rightarrow> nat \<Rightarrow> byte" where
  "addr_bytes a k = le_byte (a (k div 4)) (k mod 4)"

definition put_dinode :: "dinode \<Rightarrow> nat \<Rightarrow> block \<Rightarrow> block" where
  "put_dinode i o1 d =
     (let d = put16 d o1 (di_type i);
          d = put16 d (o1 + 2) (di_major i);
          d = put16 d (o1 + 4) (di_minor i);
          d = put16 d (o1 + 6) (di_nlink i);
          d = put32 d (o1 + 8) (di_size i)
      in put_bytes d (o1 + 12) 52 (addr_bytes (di_addrs i)))"

definition iget :: "u32 \<Rightarrow> u32 \<Rightarrow> ('x fsstate_scheme, nat) kop" where
  "iget dev i =
     kseq (acquire LkItable)
    (kbind (kget (\<lambda>s. find (\<lambda>ip. iref (inodes s ip) > 0 \<and> idev (inodes s ip) = dev \<and>
        inum (inodes s ip) = i) [0..<NINODE])) (\<lambda>r. case r of
       Some ip \<Rightarrow>
         kseq (ino_upd ip (\<lambda>x. x\<lparr>iref := iref x + 1\<rparr>))
        (kseq (release LkItable) (kret ip))
     | None \<Rightarrow>
         kbind (kget (\<lambda>s. find (\<lambda>ip. iref (inodes s ip) = 0) [0..<NINODE])) (\<lambda>empty.
         case empty of
           None \<Rightarrow> panic ''iget: no inodes''
         | Some ip \<Rightarrow>
             kseq (ino_upd ip (\<lambda>x. x\<lparr>idev := dev, inum := i, iref := 1, ivalid := False\<rparr>))
            (kseq (release LkItable) (kret ip)))))"

definition ialloc :: "u32 \<Rightarrow> u16 \<Rightarrow> ('x fsstate_scheme, nat option) kop" where
  "ialloc dev type =
     kbind (kget sb) (\<lambda>sb.
     kbind (kscan [1..<unat (sb_ninodes sb)] (\<lambda>i.
        kbind (bread dev (IBLOCK (of_nat i) sb)) (\<lambda>bp.
        kbind (bget_field bp bdata) (\<lambda>d.
        let o1 = dinode_off (of_nat i) in
        if di_type (dinode_at d o1) = 0 then
          kseq (buf_upd bp (\<lambda>x. x\<lparr>bdata := put16 (memset (bdata x) o1 0 64) o1 type\<rparr>))
         (kseq (log_write bp)
         (kseq (brelse bp)
          (kbind (iget dev (of_nat i)) (\<lambda>ip. kret (Some ip)))))
        else kseq (brelse bp) (kret None))))) (\<lambda>r.
     case r of
       Some ip \<Rightarrow> kret (Some ip)
     | None \<Rightarrow> kseq (printf (bytes ''ialloc: no inodes'' @ [10]) []) (kret None)))"

definition iupdate :: "nat \<Rightarrow> ('x fsstate_scheme, unit) kop" where
  "iupdate ip =
     kbind (kget sb) (\<lambda>sb. kbind (ino_get ip id) (\<lambda>x.
     kbind (bread (idev x) (IBLOCK (inum x) sb)) (\<lambda>bp.
     kseq (buf_upd bp (\<lambda>y. y\<lparr>bdata := put_dinode (ino x) (dinode_off (inum x)) (bdata y)\<rparr>))
    (kseq (log_write bp)
     (brelse bp)))))"

definition idup :: "nat \<Rightarrow> ('x fsstate_scheme, nat) kop" where
  "idup ip =
     kseq (acquire LkItable)
    (kseq (ino_upd ip (\<lambda>x. x\<lparr>iref := iref x + 1\<rparr>))
    (kseq (release LkItable) (kret ip)))"

definition ilock :: "nat option \<Rightarrow> ('x fsstate_scheme, unit) kop" where
  "ilock ipo =
     (case ipo of None \<Rightarrow> panic ''ilock'' | Some ip \<Rightarrow>
     kbind (ino_get ip iref) (\<lambda>r.
     kseq (kcheck (\<not> r < 1) ''ilock'')
    (kseq (acquiresleep [] (SlInode ip))
    (kbind (kget sb) (\<lambda>sb. kbind (ino_get ip id) (\<lambda>x.
     kwhen (\<not> ivalid x)
      (kbind (bread (idev x) (IBLOCK (inum x) sb)) (\<lambda>bp.
       kbind (bget_field bp bdata) (\<lambda>d.
       kseq (ino_upd ip (\<lambda>y. y\<lparr>ino := dinode_at d (dinode_off (inum x))\<rparr>))
      (kseq (brelse bp)
      (kseq (ino_upd ip (\<lambda>y. y\<lparr>ivalid := True\<rparr>))
      (kbind (ino_get ip (\<lambda>y. di_type (ino y))) (\<lambda>ty.
       kcheck (ty \<noteq> 0) ''ilock: no type'')))))))))))))"

definition iunlock :: "nat option \<Rightarrow> ('x fsstate_scheme, unit) kop" where
  "iunlock ipo =
     (case ipo of None \<Rightarrow> panic ''iunlock'' | Some ip \<Rightarrow>
     kbind (holdingsleep (SlInode ip)) (\<lambda>h.
     kseq (kcheck h ''iunlock'')
    (kbind (ino_get ip iref) (\<lambda>r.
     kseq (kcheck (\<not> r < 1) ''iunlock'')
      (releasesleep (SlInode ip))))))"

section \<open>Inode content\<close>

definition bmap :: "nat \<Rightarrow> u32 \<Rightarrow> ('x fsstate_scheme, u32) kop" where
  "bmap ip bn =
     (if unat bn < NDIRECT then
        kbind (ino_get ip id) (\<lambda>x.
        let addr = di_addrs (ino x) (unat bn) in
        if addr = 0 then
          kbind (balloc (idev x)) (\<lambda>addr.
          if addr = 0 then kret 0
          else kseq (di_upd ip (\<lambda>i. i\<lparr>di_addrs := (di_addrs i)(unat bn := addr)\<rparr>)) (kret addr))
        else kret addr)
      else if unat bn - NDIRECT < NINDIRECT then
        let k = unat bn - NDIRECT in
        kbind (ino_get ip id) (\<lambda>x.
        kbind (if di_addrs (ino x) NDIRECT = 0 then
            kbind (balloc (idev x)) (\<lambda>addr.
            kseq (kwhen (addr \<noteq> 0) (di_upd ip (\<lambda>i. i\<lparr>di_addrs := (di_addrs i)(NDIRECT := addr)\<rparr>)))
             (kret addr))
          else kret (di_addrs (ino x) NDIRECT)) (\<lambda>ind.
        if ind = 0 then kret 0
        else kbind (bread (idev x) ind) (\<lambda>bp.
          kbind (bget_field bp bdata) (\<lambda>d.
          kbind (if get32 d (4 * k) = 0 then
              kbind (balloc (idev x)) (\<lambda>addr.
              kseq (kwhen (addr \<noteq> 0)
                (kseq (buf_upd bp (\<lambda>y. y\<lparr>bdata := put32 (bdata y) (4 * k) addr\<rparr>)) (log_write bp)))
               (kret addr))
            else kret (get32 d (4 * k))) (\<lambda>addr.
          kseq (brelse bp) (kret addr))))))
      else panic ''bmap: out of range'')"

definition itrunc :: "nat \<Rightarrow> ('x fsstate_scheme, unit) kop" where
  "itrunc ip =
     kseq (kfor [0..<NDIRECT] (\<lambda>i.
        kbind (ino_get ip id) (\<lambda>x.
        kwhen (di_addrs (ino x) i \<noteq> 0)
         (kseq (bfree (idev x) (di_addrs (ino x) i))
          (di_upd ip (\<lambda>y. y\<lparr>di_addrs := (di_addrs y)(i := 0)\<rparr>))))))
    (kseq (kbind (ino_get ip id) (\<lambda>x.
        kwhen (di_addrs (ino x) NDIRECT \<noteq> 0)
         (kbind (bread (idev x) (di_addrs (ino x) NDIRECT)) (\<lambda>bp.
          kseq (kfor [0..<NINDIRECT] (\<lambda>j.
             kbind (bget_field bp bdata) (\<lambda>d.
             kwhen (get32 d (4 * j) \<noteq> 0) (bfree (idev x) (get32 d (4 * j))))))
         (kseq (brelse bp)
         (kseq (bfree (idev x) (di_addrs (ino x) NDIRECT))
          (di_upd ip (\<lambda>y. y\<lparr>di_addrs := (di_addrs y)(NDIRECT := 0)\<rparr>))))))))
    (kseq (di_upd ip (\<lambda>y. y\<lparr>di_size := 0\<rparr>))
     (iupdate ip)))"

definition iput :: "nat \<Rightarrow> ('x fsstate_scheme, unit) kop" where
  "iput ip =
     kseq (acquire LkItable)
    (kbind (ino_get ip id) (\<lambda>x.
     kseq (kwhen (iref x = 1 \<and> ivalid x \<and> di_nlink (ino x) = 0)
       (kseq (acquiresleep [] (SlInode ip))
       (kseq (release LkItable)
       (kseq (itrunc ip)
       (kseq (di_upd ip (\<lambda>y. y\<lparr>di_type := 0\<rparr>))
       (kseq (iupdate ip)
       (kseq (ino_upd ip (\<lambda>y. y\<lparr>ivalid := False\<rparr>))
       (kseq (releasesleep (SlInode ip))
        (acquire LkItable)))))))))
    (kseq (ino_upd ip (\<lambda>y. y\<lparr>iref := iref y - 1\<rparr>))
     (release LkItable))))"

definition iunlockput :: "nat \<Rightarrow> ('x fsstate_scheme, unit) kop" where
  "iunlockput ip = kseq (iunlock (Some ip)) (iput ip)"

record kstat =
  st_dev :: u32
  st_ino :: u32
  st_type :: u16
  st_nlink :: u16
  st_size :: u64

definition stati :: "nat \<Rightarrow> ('x fsstate_scheme, kstat) kop" where
  "stati ip = ino_get ip (\<lambda>x. \<lparr>st_dev = idev x, st_ino = inum x, st_type = di_type (ino x),
     st_nlink = di_nlink (ino x), st_size = ucast (di_size (ino x))\<rparr>)"

section \<open>Reading and writing\<close>

primrec udst_plus :: "udst \<Rightarrow> nat \<Rightarrow> udst" where
  "udst_plus (ToUser a) n = ToUser (a + of_nat n)"
| "udst_plus ToKernel n = ToKernel"

primrec usrc_plus :: "usrc \<Rightarrow> nat \<Rightarrow> usrc" where
  "usrc_plus (FromUser a) n = FromUser (a + of_nat n)"
| "usrc_plus (FromKernel bs) n = FromKernel (drop n bs)"

text \<open>
  The loops: \<open>k\<close> is \<open>n - tot\<close>. \<open>readi_loop\<close> returns \<open>tot\<close> and the bytes moved to a
  kernel destination; \<open>writei_loop\<close> returns \<open>tot\<close> and \<open>off\<close>.
\<close>

lemma chunk_pos: "0 < (k :: nat) \<Longrightarrow> k - min k (BSIZE - o1 mod BSIZE) < k"
  by simp

function readi_loop :: "nat \<Rightarrow> udst \<Rightarrow> u32 \<Rightarrow> u32 \<Rightarrow> nat \<Rightarrow> ('x fsstate_scheme, u32 \<times> byte list) kop" where
  "readi_loop ip dst off tot k s =
     (if k = 0 then Ok (tot, []) s
      else kbind (bmap ip (off div 1024)) (\<lambda>addr.
        if addr = 0 then kret (tot, [])
        else kbind (ino_get ip idev) (\<lambda>dev. kbind (bread dev addr) (\<lambda>bp.
          let o1 = unat off mod BSIZE; m = min k (BSIZE - o1) in
          kbind (bget_field bp bdata) (\<lambda>d.
          kbind (either_copyout dst (map d [o1..<o1 + m])) (\<lambda>(r, bs).
          if r = -1 then kseq (brelse bp) (kret (-1, bs))
          else kseq (brelse bp)
            (kbind (readi_loop ip (udst_plus dst m) (off + of_nat m) (tot + of_nat m) (k - m)) (\<lambda>(t, cs).
             kret (t, bs @ cs)))))))) s)"
  by pat_completeness auto
termination
  by (relation "measure (\<lambda>(ip, dst, off, tot, k, s). k)") (use chunk_pos in auto)

declare readi_loop.simps [simp del]

definition readi :: "nat \<Rightarrow> udst \<Rightarrow> u32 \<Rightarrow> u32 \<Rightarrow> ('x fsstate_scheme, int \<times> byte list) kop" where
  "readi ip dst off n =
     kbind (ino_get ip (\<lambda>x. di_size (ino x))) (\<lambda>sz.
     if off > sz \<or> off + n < off then kret (0, [])
     else let n = (if off + n > sz then sz - off else n) in
       kbind (readi_loop ip dst off 0 (unat n)) (\<lambda>(tot, bs). kret (sint tot, bs)))"

function writei_loop :: "nat \<Rightarrow> usrc \<Rightarrow> u32 \<Rightarrow> u32 \<Rightarrow> nat \<Rightarrow> ('x fsstate_scheme, u32 \<times> u32) kop" where
  "writei_loop ip src off tot k s =
     (if k = 0 then Ok (tot, off) s
      else kbind (bmap ip (off div 1024)) (\<lambda>addr.
        if addr = 0 then kret (tot, off)
        else kbind (ino_get ip idev) (\<lambda>dev. kbind (bread dev addr) (\<lambda>bp.
          let o1 = unat off mod BSIZE; m = min k (BSIZE - o1) in
          kbind (either_copyin src m) (\<lambda>(r, bs).
          kseq (buf_upd bp (\<lambda>x. x\<lparr>bdata := put_bytes (bdata x) o1 (length bs) (\<lambda>i. bs ! i)\<rparr>))
         (if r = -1 then kseq (brelse bp) (kret (tot, off))
          else kseq (log_write bp)
           (kseq (brelse bp)
            (writei_loop ip (usrc_plus src m) (off + of_nat m) (tot + of_nat m) (k - m)))))))) s)"
  by pat_completeness auto
termination
  by (relation "measure (\<lambda>(ip, src, off, tot, k, s). k)") (use chunk_pos in auto)

declare writei_loop.simps [simp del]

definition writei :: "nat \<Rightarrow> usrc \<Rightarrow> u32 \<Rightarrow> u32 \<Rightarrow> ('x fsstate_scheme, int) kop" where
  "writei ip src off n =
     kbind (ino_get ip (\<lambda>x. di_size (ino x))) (\<lambda>sz.
     if off > sz \<or> off + n < off then kret (-1)
     else if unat (off + n) > MAXFILE * BSIZE then kret (-1)
     else kbind (writei_loop ip src off 0 (unat n)) (\<lambda>(tot, off).
       kbind (ino_get ip (\<lambda>x. di_size (ino x))) (\<lambda>sz.
       kseq (kwhen (off > sz) (di_upd ip (\<lambda>i. i\<lparr>di_size := off\<rparr>)))
      (kseq (iupdate ip) (kret (sint tot))))))"

section \<open>Directories\<close>

definition namecmp :: "(nat \<Rightarrow> byte) \<Rightarrow> (nat \<Rightarrow> byte) \<Rightarrow> int" where
  "namecmp s t = strncmp s t DIRSIZ"

record dirent =
  de_inum :: u16
  de_name :: "nat \<Rightarrow> byte"

definition dirent_of :: "byte list \<Rightarrow> dirent" where
  "dirent_of bs = \<lparr>de_inum = get16 (arr bs) 0, de_name = (\<lambda>i. arr bs (2 + i))\<rparr>"

definition dirent_bytes :: "dirent \<Rightarrow> byte list" where
  "dirent_bytes de = map (le_byte (de_inum de)) [0..<2] @ map (de_name de) [0..<DIRSIZ]"

text \<open>The offsets the loops visit in a directory of \<open>sz\<close> bytes, and reading one entry.\<close>

definition dirent_offs :: "u32 \<Rightarrow> nat list" where
  "dirent_offs sz = map (\<lambda>i. 16 * i) [0..<(unat sz + 15) div 16]"

definition read_dirent :: "nat \<Rightarrow> nat \<Rightarrow> string \<Rightarrow> ('x fsstate_scheme, dirent) kop" where
  "read_dirent dp off msg =
     kbind (readi dp ToKernel (of_nat off) 16) (\<lambda>(r, bs).
     kseq (kcheck (r = 16) msg) (kret (dirent_of bs)))"

text \<open>\<open>dirlookup\<close> returns the inode and the offset it stores in \<open>*poff\<close>.\<close>

definition dirlookup :: "nat \<Rightarrow> (nat \<Rightarrow> byte) \<Rightarrow> ('x fsstate_scheme, (nat \<times> u32) option) kop" where
  "dirlookup dp name =
     kbind (ino_get dp id) (\<lambda>x.
     kseq (kcheck (di_type (ino x) = T_DIR) ''dirlookup not DIR'')
      (kscan (dirent_offs (di_size (ino x))) (\<lambda>off.
         kbind (read_dirent dp off ''dirlookup read'') (\<lambda>de.
         if de_inum de = 0 then kret None
         else if namecmp name (de_name de) = 0 then
           kbind (iget (idev x) (ucast (de_inum de))) (\<lambda>ip. kret (Some (ip, of_nat off)))
         else kret None))))"

definition dirlink :: "nat \<Rightarrow> (nat \<Rightarrow> byte) \<Rightarrow> u32 \<Rightarrow> ('x fsstate_scheme, int) kop" where
  "dirlink dp name i =
     kbind (dirlookup dp name) (\<lambda>r. case r of
       Some (ip, off) \<Rightarrow> kseq (iput ip) (kret (-1))
     | None \<Rightarrow>
         kbind (ino_get dp (\<lambda>x. di_size (ino x))) (\<lambda>sz.
         kbind (kscan (dirent_offs sz) (\<lambda>off.
             kbind (read_dirent dp off ''dirlink read'') (\<lambda>de.
             kret (if de_inum de = 0 then Some off else None)))) (\<lambda>found.
         let off = (case found of Some off \<Rightarrow> off | None \<Rightarrow> 16 * length (dirent_offs sz));
             de = \<lparr>de_inum = ucast i, de_name = strncpy (\<lambda>_. 0) name (int DIRSIZ)\<rparr> in
         kbind (writei dp (FromKernel (dirent_bytes de)) (of_nat off) 16) (\<lambda>r.
         kret (if r \<noteq> 16 then -1 else 0)))))"

section \<open>Path names\<close>

text \<open>
  A path is given by its characters before the NUL; 47 is the slash. \<open>skipelem\<close> returns
  the rest of the path and the new contents of \<open>name\<close>.
\<close>

definition skipelem :: "byte list \<Rightarrow> (nat \<Rightarrow> byte) \<Rightarrow> (byte list \<times> (nat \<Rightarrow> byte)) option" where
  "skipelem path name =
     (let s = dropWhile (\<lambda>c. c = 47) path in
      if s = [] then None
      else let elem = takeWhile (\<lambda>c. c \<noteq> 47) s; path = dropWhile (\<lambda>c. c \<noteq> 47) s; len = length elem in
        Some (dropWhile (\<lambda>c. c = 47) path,
          if len \<ge> DIRSIZ then put_bytes name 0 DIRSIZ (\<lambda>i. elem ! i)
          else (put_bytes name 0 len (\<lambda>i. elem ! i))(len := 0)))"

lemma skipelem_shorter: "skipelem path name = Some (rest, name') \<Longrightarrow> length rest < length path"
proof -
  assume sk: "skipelem path name = Some (rest, name')"
  define s where "s = dropWhile (\<lambda>c. c = 47) path"
  have ne: "s \<noteq> []" and rest: "rest = dropWhile (\<lambda>c. c = 47) (dropWhile (\<lambda>c. c \<noteq> 47) s)"
    using sk by (auto simp: skipelem_def s_def Let_def split: if_splits)
  have "hd s \<noteq> 47" using hd_dropWhile [of "\<lambda>c. c = 47" path] ne by (simp add: s_def)
  then have "length (dropWhile (\<lambda>c. c \<noteq> 47) s) < length s"
    using ne by (cases s) (auto simp: le_imp_less_Suc length_dropWhile_le)
  moreover have "length s \<le> length path" by (simp add: s_def length_dropWhile_le)
  ultimately show ?thesis
    using length_dropWhile_le [of "\<lambda>c. c = 47" "dropWhile (\<lambda>c. c \<noteq> 47) s"] by (simp add: rest)
qed

function namex_loop :: "byte list \<Rightarrow> bool \<Rightarrow> (nat \<Rightarrow> byte) \<Rightarrow> nat \<Rightarrow>
    ('x fsstate_scheme, nat option \<times> (nat \<Rightarrow> byte)) kop" where
  "namex_loop path parent name ip =
     (case skipelem path name of
        None \<Rightarrow> if parent then kseq (iput ip) (kret (None, name)) else kret (Some ip, name)
      | Some (path, name) \<Rightarrow>
          kseq (ilock (Some ip))
         (kbind (ino_get ip (\<lambda>x. di_type (ino x))) (\<lambda>ty.
          if ty \<noteq> T_DIR then kseq (iunlockput ip) (kret (None, name))
          else if parent \<and> path = [] then kseq (iunlock (Some ip)) (kret (Some ip, name))
          else kbind (dirlookup ip name) (\<lambda>r. case r of
              None \<Rightarrow> kseq (iunlockput ip) (kret (None, name))
            | Some (next, off) \<Rightarrow> kseq (iunlockput ip) (namex_loop path parent name next)))))"
  by pat_completeness auto
termination
  by (relation "measure (\<lambda>(path, parent, name, ip). length path)") (auto dest: skipelem_shorter)

declare namex_loop.simps [simp del]

definition namex :: "byte list \<Rightarrow> bool \<Rightarrow> (nat \<Rightarrow> byte) \<Rightarrow>
    ('x fsstate_scheme, nat option \<times> (nat \<Rightarrow> byte)) kop" where
  "namex path parent name =
     kbind (if path \<noteq> [] \<and> hd path = 47 then iget ROOTDEV ROOTINO
            else kbind curproc (\<lambda>p. kbind (pget p pcwd) (\<lambda>cwd. kbind (deref cwd) idup))) (\<lambda>ip.
     namex_loop path parent name ip)"

definition namei :: "byte list \<Rightarrow> ('x fsstate_scheme, nat option) kop" where
  "namei path = kbind (namex path False (\<lambda>_. 0)) (\<lambda>(ip, name). kret ip)"

definition nameiparent :: "byte list \<Rightarrow> (nat \<Rightarrow> byte) \<Rightarrow>
    ('x fsstate_scheme, nat option \<times> (nat \<Rightarrow> byte)) kop" where
  "nameiparent path name = namex path True name"

end
