(* ===== verification/Console.thy ===== *)
theory Console
  imports Fs
begin

text \<open>
  The UART driver, \<open>kernel/uart.c\<close>, and the console, \<open>kernel/console.c\<close>.

  The device side: \<open>uart_room\<close> bytes can still be written before \<open>LSR_TX_IDLE\<close> reads
  0, \<open>uart_in\<close> are the received bytes that wait in \<open>RHR\<close>, \<open>uart_out\<close> (from the
  kernel's printer) the bytes sent, \<open>uregs\<close> the control registers as last written.
  An operation that may sleep takes the list of what the system does meanwhile.
\<close>

datatype dev_read = Consoleread
datatype dev_write = Consolewrite

record consstate = fsstate +
  tx_buf :: "nat \<Rightarrow> byte"
  tx_w :: u64
  tx_r :: u64
  uart_room :: nat
  uart_in :: "byte list"
  uregs :: "nat \<Rightarrow> byte"
  cons_buf :: "nat \<Rightarrow> byte"
  cons_r :: u32
  cons_w :: u32
  cons_e :: u32
  devsw_read :: "nat \<Rightarrow> dev_read option"
  devsw_write :: "nat \<Rightarrow> dev_write option"

abbreviation (input) UART_TX_BUF_SIZE :: nat where "UART_TX_BUF_SIZE \<equiv> 32"
abbreviation (input) INPUT_BUF_SIZE :: nat where "INPUT_BUF_SIZE \<equiv> 128"
abbreviation (input) CONSOLE :: nat where "CONSOLE \<equiv> 1"

section \<open>The UART\<close>

abbreviation WriteReg :: "nat \<Rightarrow> byte \<Rightarrow> ('x consstate_scheme, unit) kop" where
  "WriteReg r v \<equiv> kmod (\<lambda>s. s\<lparr>uregs := (uregs s)(r := v)\<rparr>)"

definition uartinit :: "('x consstate_scheme, unit) kop" where
  "uartinit =
     kseq (WriteReg 1 0)
    (kseq (WriteReg 3 128)
    (kseq (WriteReg 0 3)
    (kseq (WriteReg 1 0)
    (kseq (WriteReg 3 3)
    (kseq (WriteReg 2 7)
    (kseq (WriteReg 1 3)
     (initlock LkUart ''uart'')))))))"

text \<open>
  The loop of \<open>uartstart\<close> by the number of bytes the device still accepts; with none it
  finds \<open>LSR_TX_IDLE\<close> clear (or the buffer empty) and returns.
\<close>

primrec uartstart_loop :: "nat \<Rightarrow> ('x consstate_scheme, unit) kop" where
  "uartstart_loop 0 = kret ()"
| "uartstart_loop (Suc n) =
     kbind (kget (\<lambda>s. tx_w s = tx_r s)) (\<lambda>empty.
     if empty then kret ()
     else kbind (kget (\<lambda>s. tx_buf s (unat (tx_r s) mod UART_TX_BUF_SIZE))) (\<lambda>c.
       kseq (kmod (\<lambda>s. s\<lparr>tx_r := tx_r s + 1\<rparr>))
      (kseq (wakeup ChUartR)
      (kseq (kmod (\<lambda>s. s\<lparr>uart_out := uart_out s @ [c], uart_room := n\<rparr>))
       (uartstart_loop n)))))"

definition uartstart :: "('x consstate_scheme, unit) kop" where
  "uartstart = kbind (kget uart_room) uartstart_loop"

definition uartputc :: "('x consstate_scheme, unit) kop list \<Rightarrow> byte \<Rightarrow> ('x consstate_scheme, unit) kop" where
  "uartputc env c =
     kseq (acquire LkUart)
    (kbind (kget panicked) (\<lambda>b.
     if b then kstop Hung
     else kseq (sleep_while env (\<lambda>s. tx_w s = tx_r s + of_nat UART_TX_BUF_SIZE) ChUartR LkUart)
      (kseq (kmod (\<lambda>s. s\<lparr>tx_buf := (tx_buf s)(unat (tx_w s) mod UART_TX_BUF_SIZE := c), tx_w := tx_w s + 1\<rparr>))
      (kseq uartstart
       (release LkUart)))))"

definition uartgetc :: "('x consstate_scheme, int) kop" where
  "uartgetc =
     kbind (kget uart_in) (\<lambda>q. case q of
       [] \<Rightarrow> kret (-1)
     | c # cs \<Rightarrow> kseq (kmod (\<lambda>s. s\<lparr>uart_in := cs\<rparr>)) (kret (uint c)))"

section \<open>The console\<close>

text \<open>\<open>consolewrite\<close>: the loop counts the bytes that are left; \<open>i\<close> have been sent.\<close>

primrec consolewrite_loop :: "(nat \<Rightarrow> ('x consstate_scheme, unit) kop list) \<Rightarrow> usrc \<Rightarrow> nat \<Rightarrow> nat \<Rightarrow>
    ('x consstate_scheme, nat) kop" where
  "consolewrite_loop env src i 0 = kret i"
| "consolewrite_loop env src i (Suc k) =
     kbind (either_copyin (usrc_plus src i) 1) (\<lambda>(r, bs).
     if r = -1 then kret i
     else kseq (uartputc (env i) (hd bs)) (consolewrite_loop env src (Suc i) k))"

definition consolewrite :: "(nat \<Rightarrow> ('x consstate_scheme, unit) kop list) \<Rightarrow> usrc \<Rightarrow> int \<Rightarrow>
    ('x consstate_scheme, int) kop" where
  "consolewrite env src n = kbind (consolewrite_loop env src 0 (nat n)) (\<lambda>i. kret (int i))"

text \<open>
  The inner loop of \<open>consoleread\<close>: whether input is there (otherwise the reader was
  killed and the lock is released), and the part of \<open>env\<close> that is left.
\<close>

primrec cons_wait :: "('x consstate_scheme, unit) kop list \<Rightarrow>
    ('x consstate_scheme, bool \<times> ('x consstate_scheme, unit) kop list) kop" where
  "cons_wait [] =
     kbind (kget (\<lambda>s. cons_r s = cons_w s)) (\<lambda>empty.
     if \<not> empty then kret (True, [])
     else kbind curproc (\<lambda>p. kbind (killed p) (\<lambda>k.
       if k \<noteq> 0 then kseq (release LkCons) (kret (False, []))
       else kseq (sleep (blocked ChConsR) ChConsR LkCons) (kret (True, [])))))"
| "cons_wait (away # env) =
     kbind (kget (\<lambda>s. cons_r s = cons_w s)) (\<lambda>empty.
     if \<not> empty then kret (True, away # env)
     else kbind curproc (\<lambda>p. kbind (killed p) (\<lambda>k.
       if k \<noteq> 0 then kseq (release LkCons) (kret (False, env))
       else kseq (sleep away ChConsR LkCons) (cons_wait env))))"

text \<open>
  The outer loop with \<open>n\<close> bytes still wanted: \<open>None\<close> when the reader was killed,
  otherwise the final \<open>n\<close> and the bytes moved to a kernel destination.
\<close>

primrec consoleread_loop :: "nat \<Rightarrow> nat \<Rightarrow> ('x consstate_scheme, unit) kop list \<Rightarrow> udst \<Rightarrow>
    ('x consstate_scheme, (nat \<times> byte list) option) kop" where
  "consoleread_loop 0 target env dst = kret (Some (0, []))"
| "consoleread_loop (Suc n) target env dst =
     kbind (cons_wait env) (\<lambda>(go, env).
     if \<not> go then kret None
     else kbind (kget (\<lambda>s. cons_buf s (unat (cons_r s) mod INPUT_BUF_SIZE))) (\<lambda>c.
       kseq (kmod (\<lambda>s. s\<lparr>cons_r := cons_r s + 1\<rparr>))
      (if c = 4 then
         kseq (kwhen (Suc n < target) (kmod (\<lambda>s. s\<lparr>cons_r := cons_r s - 1\<rparr>))) (kret (Some (Suc n, [])))
       else kbind (either_copyout dst [c]) (\<lambda>(r, bs).
         if r = -1 then kret (Some (Suc n, []))
         else if c = 10 then kret (Some (n, bs))
         else kbind (consoleread_loop n target env (udst_plus dst 1)) (\<lambda>res.
           kret (map_option (\<lambda>(k, cs). (k, bs @ cs)) res))))))"

definition consoleread :: "('x consstate_scheme, unit) kop list \<Rightarrow> udst \<Rightarrow> int \<Rightarrow>
    ('x consstate_scheme, int \<times> byte list) kop" where
  "consoleread env dst n =
     kseq (acquire LkCons)
    (kbind (consoleread_loop (nat n) (nat n) env dst) (\<lambda>res. case res of
       None \<Rightarrow> kret (-1, [])
     | Some (k, bs) \<Rightarrow> kseq (release LkCons) (kret (int (nat n) - int k, bs))))"

text \<open>
  The loop of control-U by the number of characters between \<open>cons.w\<close> and \<open>cons.e\<close>;
  after so many steps the two are equal.
\<close>

primrec kill_line :: "nat \<Rightarrow> ('x consstate_scheme, unit) kop" where
  "kill_line 0 = kret ()"
| "kill_line (Suc n) =
     kbind (kget (\<lambda>s. cons_e s \<noteq> cons_w s \<and> cons_buf s (unat (cons_e s - 1) mod INPUT_BUF_SIZE) \<noteq> 10)) (\<lambda>go.
     kwhen go
      (kseq (kmod (\<lambda>s. s\<lparr>cons_e := cons_e s - 1\<rparr>))
      (kseq (consputc BACKSPACE)
       (kill_line n))))"

text \<open>Storing one input character, the default case of the switch.\<close>

definition cons_store :: "int \<Rightarrow> ('x consstate_scheme, unit) kop" where
  "cons_store c0 =
     kbind (kget (\<lambda>s. cons_e s - cons_r s < of_nat INPUT_BUF_SIZE)) (\<lambda>room.
     kwhen (c0 \<noteq> 0 \<and> room)
      (let c = (if c0 = 13 then 10 else c0) in
       kseq (consputc c)
      (kseq (kmod (\<lambda>s. s\<lparr>cons_buf := (cons_buf s)(unat (cons_e s) mod INPUT_BUF_SIZE := word_of_int c),
          cons_e := cons_e s + 1\<rparr>))
      (kbind (kget (\<lambda>s. cons_e s - cons_r s = of_nat INPUT_BUF_SIZE)) (\<lambda>full.
       kwhen (c = 10 \<or> c = 4 \<or> full)
        (kseq (kmod (\<lambda>s. s\<lparr>cons_w := cons_e s\<rparr>))
         (wakeup ChConsR)))))))"

definition consoleintr :: "int \<Rightarrow> ('x consstate_scheme, unit) kop" where
  "consoleintr c =
     kseq (acquire LkCons)
    (kseq (if c = 16 then procdump
           else if c = 21 then kbind (kget (\<lambda>s. unat (cons_e s - cons_w s))) kill_line
           else if c = 8 \<or> c = 127 then
             kbind (kget (\<lambda>s. cons_e s \<noteq> cons_w s)) (\<lambda>go.
             kwhen go (kseq (kmod (\<lambda>s. s\<lparr>cons_e := cons_e s - 1\<rparr>)) (consputc BACKSPACE)))
           else cons_store c)
     (release LkCons))"

definition consoleinit :: "('x consstate_scheme, unit) kop" where
  "consoleinit =
     kseq (initlock LkCons ''cons'')
    (kseq uartinit
     (kmod (\<lambda>s. s\<lparr>devsw_read := (devsw_read s)(CONSOLE \<mapsto> Consoleread),
        devsw_write := (devsw_write s)(CONSOLE \<mapsto> Consolewrite)\<rparr>)))"

section \<open>The UART interrupt\<close>

text \<open>The fuel is one more than the number of waiting bytes: the last read returns -1.\<close>

primrec uartintr_loop :: "nat \<Rightarrow> ('x consstate_scheme, unit) kop" where
  "uartintr_loop 0 = kstop Hung"
| "uartintr_loop (Suc n) =
     kbind uartgetc (\<lambda>c.
     if c = -1 then kret () else kseq (consoleintr c) (uartintr_loop n))"

definition uartintr :: "('x consstate_scheme, unit) kop" where
  "uartintr =
     kseq (kbind (kget (\<lambda>s. Suc (length (uart_in s)))) uartintr_loop)
    (kseq (acquire LkUart)
    (kseq uartstart
     (release LkUart)))"

end
