(* ===== verification/Pipe.thy ===== *)
theory Pipe
  imports Console
begin

text \<open>
  Pipes, \<open>kernel/pipe.c\<close> (\<open>pipealloc\<close> is in the theory of files). A pipe occupies a
  page of the allocator; its contents are kept as a record under the page's address.
\<close>

abbreviation (input) PIPESIZE :: nat where "PIPESIZE \<equiv> 512"

record pipe =
  pdata :: "nat \<Rightarrow> byte"
  nread :: u32
  nwrite :: u32
  readopen :: bool
  writeopen :: bool

record pipestate = consstate +
  pipes :: "addr \<Rightarrow> pipe"

abbreviation pi_upd :: "addr \<Rightarrow> (pipe \<Rightarrow> pipe) \<Rightarrow> ('x pipestate_scheme, unit) kop" where
  "pi_upd pi f \<equiv> kmod (\<lambda>s. s\<lparr>pipes := (pipes s)(pi := f (pipes s pi))\<rparr>)"

abbreviation pi_get :: "addr \<Rightarrow> (pipe \<Rightarrow> 'a) \<Rightarrow> ('x pipestate_scheme, 'a) kop" where
  "pi_get pi f \<equiv> kget (\<lambda>s. f (pipes s pi))"

definition pipeclose :: "addr \<Rightarrow> bool \<Rightarrow> ('x pipestate_scheme, unit) kop" where
  "pipeclose pi writable =
     kseq (acquire (LkPipe pi))
    (kseq (if writable then kseq (pi_upd pi (\<lambda>x. x\<lparr>writeopen := False\<rparr>)) (wakeup (ChNread pi))
           else kseq (pi_upd pi (\<lambda>x. x\<lparr>readopen := False\<rparr>)) (wakeup (ChNwrite pi)))
    (kbind (pi_get pi (\<lambda>x. \<not> readopen x \<and> \<not> writeopen x)) (\<lambda>closed.
     if closed then kseq (release (LkPipe pi)) (kfree pi)
     else release (LkPipe pi))))"

text \<open>
  The loop of \<open>pipewrite\<close>: \<open>None\<close> when it returns -1 with the lock released, otherwise
  the number of bytes written. The writer goes to sleep on a full pipe once for each
  element of \<open>env\<close>, and for good when the list is used up.
\<close>

function pipewrite_loop :: "('x pipestate_scheme, unit) kop list \<Rightarrow> addr \<Rightarrow> u64 \<Rightarrow> nat \<Rightarrow> nat \<Rightarrow> nat \<Rightarrow>
    ('x pipestate_scheme, nat option) kop" where
  "pipewrite_loop env pi addr pr i n =
     (if i < n then
        kbind (pi_get pi readopen) (\<lambda>ro.
        kbind (if ro then killed pr else kret 0) (\<lambda>k.
        if \<not> ro \<or> k \<noteq> 0 then kseq (release (LkPipe pi)) (kret None)
        else kbind (pi_get pi (\<lambda>x. nwrite x = nread x + of_nat PIPESIZE)) (\<lambda>full.
          if full then
            kseq (wakeup (ChNread pi))
            (case env of
               [] \<Rightarrow> kseq (sleep (blocked (ChNwrite pi)) (ChNwrite pi) (LkPipe pi)) (kret None)
             | away # rest \<Rightarrow> kseq (sleep away (ChNwrite pi) (LkPipe pi)) (pipewrite_loop rest pi addr pr i n))
          else
            kbind (pget pr ppagetable) (\<lambda>pt.
            kbind (copyin pt (addr + of_nat i) 1) (\<lambda>(r, bs).
            if r = -1 then kret (Some i)
            else kseq (pi_upd pi (\<lambda>x. x\<lparr>pdata := (pdata x)(unat (nwrite x) mod PIPESIZE := hd bs),
                nwrite := nwrite x + 1\<rparr>))
              (pipewrite_loop env pi addr pr (Suc i) n))))))
      else kret (Some i))"
  by pat_completeness auto
termination
  by (relation "measure (\<lambda>(env, pi, addr, pr, i, n). length env + (n - i))") auto

declare pipewrite_loop.simps [simp del]

definition pipewrite :: "('x pipestate_scheme, unit) kop list \<Rightarrow> addr \<Rightarrow> u64 \<Rightarrow> int \<Rightarrow> ('x pipestate_scheme, int) kop" where
  "pipewrite env pi addr n =
     kbind curproc (\<lambda>pr.
     kseq (acquire (LkPipe pi))
    (kbind (pipewrite_loop env pi addr pr 0 (nat n)) (\<lambda>res. case res of
       None \<Rightarrow> kret (-1)
     | Some i \<Rightarrow>
         kseq (wakeup (ChNread pi))
        (kseq (release (LkPipe pi)) (kret (int i))))))"

text \<open>The wait of \<open>piperead\<close>: false when the reader was killed and the lock is released.\<close>

primrec piperead_wait :: "('x pipestate_scheme, unit) kop list \<Rightarrow> addr \<Rightarrow> nat \<Rightarrow> ('x pipestate_scheme, bool) kop" where
  "piperead_wait [] pi pr =
     kbind (pi_get pi (\<lambda>x. nread x = nwrite x \<and> writeopen x)) (\<lambda>empty.
     if \<not> empty then kret True
     else kbind (killed pr) (\<lambda>k.
       if k \<noteq> 0 then kseq (release (LkPipe pi)) (kret False)
       else kseq (sleep (blocked (ChNread pi)) (ChNread pi) (LkPipe pi)) (kret False)))"
| "piperead_wait (away # env) pi pr =
     kbind (pi_get pi (\<lambda>x. nread x = nwrite x \<and> writeopen x)) (\<lambda>empty.
     if \<not> empty then kret True
     else kbind (killed pr) (\<lambda>k.
       if k \<noteq> 0 then kseq (release (LkPipe pi)) (kret False)
       else kseq (sleep away (ChNread pi) (LkPipe pi)) (piperead_wait env pi pr)))"

primrec piperead_loop :: "nat \<Rightarrow> nat \<Rightarrow> addr \<Rightarrow> u64 \<Rightarrow> nat \<Rightarrow> ('x pipestate_scheme, nat) kop" where
  "piperead_loop 0 i pi addr pr = kret i"
| "piperead_loop (Suc k) i pi addr pr =
     kbind (pi_get pi id) (\<lambda>x.
     if nread x = nwrite x then kret i
     else let ch = pdata x (unat (nread x) mod PIPESIZE) in
       kseq (pi_upd pi (\<lambda>x. x\<lparr>nread := nread x + 1\<rparr>))
      (kbind (pget pr ppagetable) (\<lambda>pt.
       kbind (copyout pt (addr + of_nat i) [ch]) (\<lambda>r.
       if r = -1 then kret i else piperead_loop k (Suc i) pi addr pr))))"

definition piperead :: "('x pipestate_scheme, unit) kop list \<Rightarrow> addr \<Rightarrow> u64 \<Rightarrow> int \<Rightarrow> ('x pipestate_scheme, int) kop" where
  "piperead env pi addr n =
     kbind curproc (\<lambda>pr.
     kseq (acquire (LkPipe pi))
    (kbind (piperead_wait env pi pr) (\<lambda>go.
     if \<not> go then kret (-1)
     else kbind (piperead_loop (nat n) 0 pi addr pr) (\<lambda>i.
       kseq (wakeup (ChNwrite pi))
      (kseq (release (LkPipe pi)) (kret (int i)))))))"

end
