(* ===== verification/File.thy ===== *)
theory File
  imports Pipe
begin

text \<open>
  Open files, \<open>kernel/file.c\<close>, and \<open>pipealloc\<close> of \<open>kernel/pipe.c\<close>. A
  \<open>struct file\<close> is an index into \<open>ftable.file\<close>.
\<close>

abbreviation (input) NFILE :: nat where "NFILE \<equiv> 100"
abbreviation (input) NDEV :: int where "NDEV \<equiv> 10"

datatype ftype = FD_NONE | FD_PIPE | FD_INODE | FD_DEVICE

record kfile =
  ftype :: ftype
  fref :: int
  readable :: bool
  writable :: bool
  fpipe :: addr
  fip :: "nat option"
  foff :: u32
  fmajor :: u16

record filestate = pipestate +
  files :: "nat \<Rightarrow> kfile"

abbreviation file_upd :: "nat \<Rightarrow> (kfile \<Rightarrow> kfile) \<Rightarrow> ('x filestate_scheme, unit) kop" where
  "file_upd f g \<equiv> kmod (\<lambda>s. s\<lparr>files := (files s)(f := g (files s f))\<rparr>)"

abbreviation file_get :: "nat \<Rightarrow> (kfile \<Rightarrow> 'a) \<Rightarrow> ('x filestate_scheme, 'a) kop" where
  "file_get f g \<equiv> kget (\<lambda>s. g (files s f))"

definition fileinit :: "('x filestate_scheme, unit) kop" where
  "fileinit = initlock LkFtable ''ftable''"

definition filealloc :: "('x filestate_scheme, nat option) kop" where
  "filealloc =
     kseq (acquire LkFtable)
    (kbind (kget (\<lambda>s. find (\<lambda>f. fref (files s f) = 0) [0..<NFILE])) (\<lambda>r. case r of
       Some f \<Rightarrow>
         kseq (file_upd f (\<lambda>x. x\<lparr>fref := 1\<rparr>))
        (kseq (release LkFtable) (kret (Some f)))
     | None \<Rightarrow> kseq (release LkFtable) (kret None)))"

definition filedup :: "nat \<Rightarrow> ('x filestate_scheme, nat) kop" where
  "filedup f =
     kseq (acquire LkFtable)
    (kbind (file_get f fref) (\<lambda>r.
     kseq (kcheck (\<not> r < 1) ''filedup'')
    (kseq (file_upd f (\<lambda>x. x\<lparr>fref := fref x + 1\<rparr>))
    (kseq (release LkFtable) (kret f)))))"

definition fileclose :: "nat \<Rightarrow> ('x filestate_scheme, unit) kop" where
  "fileclose f =
     kseq (acquire LkFtable)
    (kbind (file_get f fref) (\<lambda>r.
     kseq (kcheck (\<not> r < 1) ''fileclose'')
    (kseq (file_upd f (\<lambda>x. x\<lparr>fref := fref x - 1\<rparr>))
    (if r - 1 > 0 then release LkFtable
     else
       kbind (file_get f id) (\<lambda>ff.
       kseq (file_upd f (\<lambda>x. x\<lparr>fref := 0, ftype := FD_NONE\<rparr>))
      (kseq (release LkFtable)
      (if ftype ff = FD_PIPE then pipeclose (fpipe ff) (writable ff)
       else kwhen (ftype ff = FD_INODE \<or> ftype ff = FD_DEVICE)
         (kseq (begin_op [])
         (kseq (kbind (deref (fip ff)) iput)
          end_op)))))))))"

text \<open>
  \<open>pipealloc\<close>: \<open>None\<close> stands for the result -1, with both files closed again and the
  page freed.
\<close>

definition pipealloc_bad :: "nat option \<Rightarrow> nat option \<Rightarrow> addr \<Rightarrow> ('x filestate_scheme, (nat \<times> nat) option) kop" where
  "pipealloc_bad f0 f1 pi =
     kseq (kwhen (pi \<noteq> 0) (kfree pi))
    (kseq (case f0 of None \<Rightarrow> kret () | Some f \<Rightarrow> fileclose f)
    (kseq (case f1 of None \<Rightarrow> kret () | Some f \<Rightarrow> fileclose f)
     (kret None)))"

definition pipealloc :: "('x filestate_scheme, (nat \<times> nat) option) kop" where
  "pipealloc =
     kbind filealloc (\<lambda>f0. case f0 of None \<Rightarrow> pipealloc_bad None None 0 | Some r \<Rightarrow>
     kbind filealloc (\<lambda>f1. case f1 of None \<Rightarrow> pipealloc_bad (Some r) None 0 | Some w \<Rightarrow>
     kbind kalloc (\<lambda>pi.
     if pi = 0 then pipealloc_bad (Some r) (Some w) 0
     else
       kseq (pi_upd pi (\<lambda>x. x\<lparr>readopen := True, writeopen := True, nwrite := 0, nread := 0\<rparr>))
      (kseq (initlock (LkPipe pi) ''pipe'')
      (kseq (file_upd r (\<lambda>x. x\<lparr>ftype := FD_PIPE, readable := True, writable := False, fpipe := pi\<rparr>))
      (kseq (file_upd w (\<lambda>x. x\<lparr>ftype := FD_PIPE, readable := False, writable := True, fpipe := pi\<rparr>))
       (kret (Some (r, w)))))))))"

text \<open>
  The bytes of \<open>struct stat\<close>: 12 bytes of fields, 4 bytes of padding and the size. The
  padding of the local variable is indeterminate and given as an argument.
\<close>

definition stat_bytes :: "u32 \<Rightarrow> kstat \<Rightarrow> byte list" where
  "stat_bytes pad st =
     map (le_byte (st_dev st)) [0..<4] @ map (le_byte (st_ino st)) [0..<4] @
     map (le_byte (st_type st)) [0..<2] @ map (le_byte (st_nlink st)) [0..<2] @
     map (le_byte pad) [0..<4] @ map (le_byte (st_size st)) [0..<8]"

definition filestat :: "u32 \<Rightarrow> nat \<Rightarrow> u64 \<Rightarrow> ('x filestate_scheme, int) kop" where
  "filestat pad f addr =
     kbind curproc (\<lambda>p.
     kbind (file_get f id) (\<lambda>ff.
     if ftype ff = FD_INODE \<or> ftype ff = FD_DEVICE then
       kseq (ilock (fip ff))
      (kbind (deref (fip ff)) (\<lambda>ip. kbind (stati ip) (\<lambda>st.
       kseq (iunlock (fip ff))
      (kbind (pget p ppagetable) (\<lambda>pt.
       kbind (copyout pt addr (stat_bytes pad st)) (\<lambda>r.
       kret (if r < 0 then -1 else 0)))))))
     else kret (-1)))"

text \<open>
  \<open>rd\<close> and \<open>wr\<close> say what the system does whenever the operation sleeps in a pipe or
  on the console.
\<close>

definition fileread :: "('x filestate_scheme, unit) kop list \<Rightarrow> nat \<Rightarrow> u64 \<Rightarrow> int \<Rightarrow> ('x filestate_scheme, int) kop" where
  "fileread rd f addr n =
     kbind (file_get f id) (\<lambda>ff.
     if \<not> readable ff then kret (-1)
     else case ftype ff of
       FD_PIPE \<Rightarrow> piperead rd (fpipe ff) addr n
     | FD_DEVICE \<Rightarrow>
         kbind (kget devsw_read) (\<lambda>sw.
         if sint (fmajor ff) < 0 \<or> sint (fmajor ff) \<ge> NDEV then kret (-1)
         else case sw (unat (fmajor ff)) of
           None \<Rightarrow> kret (-1)
         | Some Consoleread \<Rightarrow> kbind (consoleread rd (ToUser addr) n) (\<lambda>(r, bs). kret r))
     | FD_INODE \<Rightarrow>
         kseq (ilock (fip ff))
        (kbind (deref (fip ff)) (\<lambda>ip.
         kbind (readi ip (ToUser addr) (foff ff) (word_of_int n)) (\<lambda>(r, bs).
         kseq (kwhen (r > 0) (file_upd f (\<lambda>x. x\<lparr>foff := foff x + word_of_int r\<rparr>)))
        (kseq (iunlock (fip ff)) (kret r)))))
     | FD_NONE \<Rightarrow> panic ''fileread'')"

text \<open>
  The loop of \<open>filewrite\<close> over an inode, in pieces of at most \<open>max\<close> = 3072 bytes, each
  in a transaction of its own; it returns the final \<open>i\<close>.
\<close>

abbreviation (input) write_max :: int where "write_max \<equiv> 3072"

function filewrite_loop :: "nat \<Rightarrow> u64 \<Rightarrow> int \<Rightarrow> int \<Rightarrow> ('x filestate_scheme, int) kop" where
  "filewrite_loop f addr i n =
     (if i < n then
        let n1 = (if n - i > write_max then write_max else n - i) in
        kseq (begin_op [])
       (kbind (file_get f id) (\<lambda>ff.
        kseq (ilock (fip ff))
       (kbind (deref (fip ff)) (\<lambda>ip.
        kbind (writei ip (FromUser (addr + word_of_int i)) (foff ff) (word_of_int n1)) (\<lambda>r.
        kseq (kwhen (r > 0) (file_upd f (\<lambda>x. x\<lparr>foff := foff x + word_of_int r\<rparr>)))
       (kseq (iunlock (fip ff))
       (kseq end_op
       (if r \<noteq> n1 then kret i else filewrite_loop f addr (i + n1) n))))))))
      else kret i)"
  by pat_completeness auto
termination
  by (relation "measure (\<lambda>(f, addr, i, n). nat (n - i))") (auto split: if_splits)

declare filewrite_loop.simps [simp del]

definition filewrite :: "('x filestate_scheme, unit) kop list \<Rightarrow> (nat \<Rightarrow> ('x filestate_scheme, unit) kop list) \<Rightarrow>
    nat \<Rightarrow> u64 \<Rightarrow> int \<Rightarrow> ('x filestate_scheme, int) kop" where
  "filewrite wr cw f addr n =
     kbind (file_get f id) (\<lambda>ff.
     if \<not> writable ff then kret (-1)
     else case ftype ff of
       FD_PIPE \<Rightarrow> pipewrite wr (fpipe ff) addr n
     | FD_DEVICE \<Rightarrow>
         kbind (kget devsw_write) (\<lambda>sw.
         if sint (fmajor ff) < 0 \<or> sint (fmajor ff) \<ge> NDEV then kret (-1)
         else case sw (unat (fmajor ff)) of
           None \<Rightarrow> kret (-1)
         | Some Consolewrite \<Rightarrow> consolewrite cw (FromUser addr) n)
     | FD_INODE \<Rightarrow> kbind (filewrite_loop f addr 0 n) (\<lambda>i. kret (if i = n then n else -1))
     | FD_NONE \<Rightarrow> panic ''filewrite'')"

end
