(* ===== verification/Lifecycle.thy ===== *)
theory Lifecycle
  imports File
begin

text \<open>
  The life of a process, the rest of \<open>kernel/proc.c\<close>: the first process, \<open>fork\<close> and
  \<open>exit\<close>.
\<close>

abbreviation (input) NOFILE :: nat where "NOFILE \<equiv> 16"

definition initcode :: "byte list" where
  "initcode =
     [0x17, 0x05, 0x00, 0x00, 0x13, 0x05, 0x45, 0x02,
      0x97, 0x05, 0x00, 0x00, 0x93, 0x85, 0x35, 0x02,
      0x93, 0x08, 0x70, 0x00, 0x73, 0x00, 0x00, 0x00,
      0x93, 0x08, 0x20, 0x00, 0x73, 0x00, 0x00, 0x00,
      0xef, 0xf0, 0x9f, 0xff, 0x2f, 0x69, 0x6e, 0x69,
      0x74, 0x00, 0x00, 0x24, 0x00, 0x00, 0x00, 0x00,
      0x00, 0x00, 0x00, 0x00]"

definition userinit :: "('x filestate_scheme, unit) kop" where
  "userinit =
     kbind allocproc (\<lambda>r.
     kseq (kmod (\<lambda>s. s\<lparr>initproc := r\<rparr>))
    (kbind (deref r) (\<lambda>p.
     kbind (pget p ppagetable) (\<lambda>pt.
     kseq (uvmfirst pt initcode (of_nat (length initcode)))
    (kseq (pupd p (\<lambda>q. q\<lparr>psz := PGSIZE\<rparr>))
    (kseq (tf_set p tf_epc 0)
    (kseq (tf_set p tf_sp PGSIZE)
    (kseq (pupd p (\<lambda>q. q\<lparr>pname := safestrcpy (pname q) (arr (bytes ''initcode'')) 16\<rparr>))
    (kbind (namei (bytes ''/'')) (\<lambda>cwd.
     kseq (pupd p (\<lambda>q. q\<lparr>pcwd := cwd, pstate := RUNNABLE\<rparr>))
      (release (LkProc p))))))))))))"

definition fork :: "('x filestate_scheme, int) kop" where
  "fork =
     kbind curproc (\<lambda>p.
     kbind allocproc (\<lambda>r. case r of None \<Rightarrow> kret (-1) | Some np \<Rightarrow>
     kbind (pget p id) (\<lambda>pp. kbind (pget np ppagetable) (\<lambda>npt.
     kbind (uvmcopy (ppagetable pp) npt (psz pp)) (\<lambda>c.
     if c < 0 then kseq (freeproc np) (kseq (release (LkProc np)) (kret (-1)))
     else
       kseq (pupd np (\<lambda>q. q\<lparr>psz := psz pp\<rparr>))
      (kseq (kmod (\<lambda>s. s\<lparr>mem := mem_write (mem s) (ptrapframe (procs s np))
          (mem_read (mem s) (ptrapframe (procs s p)) trapframe_size)\<rparr>))
      (kseq (tf_set np tf_a0 0)
      (kseq (kfor [0..<NOFILE] (\<lambda>i.
          kbind (pget p (\<lambda>q. pofile q i)) (\<lambda>fo. case fo of None \<Rightarrow> kret () | Some f \<Rightarrow>
          kbind (filedup f) (\<lambda>g. pupd np (\<lambda>q. q\<lparr>pofile := (pofile q)(i := Some g)\<rparr>)))))
      (kbind (kbind (deref (pcwd pp)) idup) (\<lambda>cwd.
       kseq (pupd np (\<lambda>q. q\<lparr>pcwd := Some cwd, pname := safestrcpy (pname q) (pname pp) 16\<rparr>))
      (kbind (pget np ppid) (\<lambda>pid.
       kseq (release (LkProc np))
      (kseq (acquire LkWait)
      (kseq (pupd np (\<lambda>q. q\<lparr>pparent := Some p\<rparr>))
      (kseq (release LkWait)
      (kseq (acquire (LkProc np))
      (kseq (pupd np (\<lambda>q. q\<lparr>pstate := RUNNABLE\<rparr>))
      (kseq (release (LkProc np))
       (kret pid)))))))))))))))))))"

text \<open>
  \<open>exit\<close>; \<open>away\<close> is what the system does after the last switch to the scheduler. No
  process sleeps on the null channel, so \<open>wakeup(p->parent)\<close> without a parent wakes none.
\<close>

definition exit_files :: "nat \<Rightarrow> ('x filestate_scheme, unit) kop" where
  "exit_files p =
     kfor [0..<NOFILE] (\<lambda>fd.
       kbind (pget p (\<lambda>q. pofile q fd)) (\<lambda>fo. case fo of None \<Rightarrow> kret () | Some f \<Rightarrow>
       kseq (fileclose f) (pupd p (\<lambda>q. q\<lparr>pofile := (pofile q)(fd := None)\<rparr>))))"

definition exit :: "('x filestate_scheme, unit) kop \<Rightarrow> int \<Rightarrow> ('x filestate_scheme, 'a) kop" where
  "exit away status =
     kbind curproc (\<lambda>p.
     kbind (kget initproc) (\<lambda>ip.
     kseq (kcheck (ip \<noteq> Some p) ''init exiting'')
    (kseq (exit_files p)
    (kseq (begin_op [])
    (kbind (pget p pcwd) (\<lambda>cwd.
     kseq (kbind (deref cwd) iput)
    (kseq end_op
    (kseq (pupd p (\<lambda>q. q\<lparr>pcwd := None\<rparr>))
    (kseq (acquire LkWait)
    (kseq (reparent p)
    (kbind (pget p pparent) (\<lambda>par.
     kseq (case par of None \<Rightarrow> kret () | Some q \<Rightarrow> wakeup (ChProc q))
    (kseq (acquire (LkProc p))
    (kseq (pupd p (\<lambda>q. q\<lparr>pxstate := status, pstate := ZOMBIE\<rparr>))
    (kseq (release LkWait)
    (kseq (sched away)
     (panic ''zombie exit'')))))))))))))))))"

end
