(* ===== verification/Exec.thy ===== *)
theory Exec
  imports Lifecycle
begin

text \<open>
  \<open>kernel/exec.c\<close>: loading an ELF file into a new address space. The argument strings
  are given by their characters; headers are read from the file at their byte offsets.
\<close>

abbreviation (input) MAXARG :: nat where "MAXARG \<equiv> 32"
abbreviation (input) ELF_MAGIC :: u32 where "ELF_MAGIC \<equiv> 0x464C457F"

definition get64 :: "(nat \<Rightarrow> byte) \<Rightarrow> nat \<Rightarrow> u64" where
  "get64 d off = le_get 8 (\<lambda>i. d (off + i))"

record elfhdr =
  e_magic :: u32
  e_entry :: u64
  e_phoff :: u64
  e_phnum :: u16

definition elfhdr_of :: "byte list \<Rightarrow> elfhdr" where
  "elfhdr_of bs = \<lparr>e_magic = get32 (arr bs) 0, e_entry = get64 (arr bs) 24,
     e_phoff = get64 (arr bs) 32, e_phnum = get16 (arr bs) 56\<rparr>"

record proghdr =
  ph_type :: u32
  ph_flags :: u32
  ph_off :: u64
  ph_vaddr :: u64
  ph_filesz :: u64
  ph_memsz :: u64

definition proghdr_of :: "byte list \<Rightarrow> proghdr" where
  "proghdr_of bs = \<lparr>ph_type = get32 (arr bs) 0, ph_flags = get32 (arr bs) 4,
     ph_off = get64 (arr bs) 8, ph_vaddr = get64 (arr bs) 16,
     ph_filesz = get64 (arr bs) 32, ph_memsz = get64 (arr bs) 40\<rparr>"

definition flags2perm :: "u32 \<Rightarrow> u64" where
  "flags2perm flags =
     (let perm = (if flags AND 1 \<noteq> 0 then PTE_X else 0)
      in if flags AND 2 \<noteq> 0 then perm OR PTE_W else perm)"

text \<open>
  \<open>loadseg\<close>: \<open>k\<close> bytes are left from offset \<open>i\<close> of the segment on. The pages of the
  segment are mapped, so \<open>sz\<close> is far below \<open>2^32\<close> and \<open>i\<close> does not wrap around.
\<close>

function loadseg_loop :: "addr \<Rightarrow> u64 \<Rightarrow> nat \<Rightarrow> u32 \<Rightarrow> nat \<Rightarrow> nat \<Rightarrow> ('x filestate_scheme, int) kop" where
  "loadseg_loop pagetable va ip offset i k =
     (if k = 0 then kret 0
      else let n = min k 4096 in
        kbind (walkaddr pagetable (va + of_nat i)) (\<lambda>pa.
        kseq (kcheck (pa \<noteq> 0) ''loadseg: address should exist'')
       (kbind (readi ip ToKernel (offset + of_nat i) (of_nat n)) (\<lambda>(r, bs).
        kseq (mem_mod (\<lambda>m. mem_write m pa bs))
       (if r \<noteq> int n then kret (-1)
        else loadseg_loop pagetable va ip offset (i + 4096) (k - n))))))"
  by pat_completeness auto
termination
  by (relation "measure (\<lambda>(pt, va, ip, off, i, k). k)") auto

declare loadseg_loop.simps [simp del]

definition loadseg :: "addr \<Rightarrow> u64 \<Rightarrow> nat \<Rightarrow> u32 \<Rightarrow> u32 \<Rightarrow> ('x filestate_scheme, int) kop" where
  "loadseg pagetable va ip offset sz = loadseg_loop pagetable va ip offset 0 (unat sz)"

text \<open>
  The loop over the program headers: \<open>Inr\<close> the final \<open>sz\<close>, or \<open>Inl\<close> the value of \<open>sz\<close>
  at a jump to \<open>bad\<close>.
\<close>

primrec load_segs :: "nat \<Rightarrow> u32 \<Rightarrow> u64 \<Rightarrow> addr \<Rightarrow> nat \<Rightarrow> ('x filestate_scheme, u64 + u64) kop" where
  "load_segs 0 off sz pagetable ip = kret (Inr sz)"
| "load_segs (Suc n) off sz pagetable ip =
     kbind (readi ip ToKernel off 56) (\<lambda>(r, bs).
     let ph = proghdr_of bs in
     if r \<noteq> 56 then kret (Inl sz)
     else if ph_type ph \<noteq> 1 then load_segs n (off + 56) sz pagetable ip
     else if ph_memsz ph < ph_filesz ph then kret (Inl sz)
     else if ph_vaddr ph + ph_memsz ph < ph_vaddr ph then kret (Inl sz)
     else if ph_vaddr ph mod PGSIZE \<noteq> 0 then kret (Inl sz)
     else kbind (uvmalloc pagetable sz (ph_vaddr ph + ph_memsz ph) (flags2perm (ph_flags ph))) (\<lambda>sz1.
       if sz1 = 0 then kret (Inl sz)
       else kbind (loadseg pagetable (ph_vaddr ph) ip (ucast (ph_off ph)) (ucast (ph_filesz ph))) (\<lambda>l.
         if l < 0 then kret (Inl sz1)
         else load_segs n (off + 56) sz1 pagetable ip)))"

text \<open>
  Pushing the argument strings: \<open>None\<close> at a jump to \<open>bad\<close>, otherwise \<open>sp\<close> and the
  pointers collected in \<open>ustack\<close>. \<open>argc\<close> counts the strings pushed so far.
\<close>

primrec push_args :: "byte list list \<Rightarrow> nat \<Rightarrow> u64 \<Rightarrow> u64 \<Rightarrow> addr \<Rightarrow> u64 list \<Rightarrow>
    ('x filestate_scheme, (u64 \<times> u64 list) option) kop" where
  "push_args [] argc sp stackbase pagetable ustack =
     (if argc \<ge> MAXARG then kstop (Faulted ''ustack'') else kret (Some (sp, ustack)))"
| "push_args (arg # args) argc sp stackbase pagetable ustack =
     (if argc \<ge> MAXARG then kret None
      else let sp = sp - (of_nat (length arg) + 1); sp = sp - sp mod 16 in
        if sp < stackbase then kret None
        else kbind (copyout pagetable sp (arg @ [0])) (\<lambda>r.
          if r < 0 then kret None
          else push_args args (Suc argc) sp stackbase pagetable (ustack @ [sp])))"

definition u64_bytes :: "u64 \<Rightarrow> byte list" where
  "u64_bytes w = map (le_byte w) [0..<8]"

text \<open>The program name: what follows the last slash of the path.\<close>

definition last_elem :: "byte list \<Rightarrow> byte list" where
  "last_elem path = rev (takeWhile (\<lambda>c. c \<noteq> 47) (rev path))"

definition exec_bad :: "addr \<Rightarrow> u64 \<Rightarrow> nat option \<Rightarrow> ('x filestate_scheme, int) kop" where
  "exec_bad pagetable sz ipo =
     kseq (kwhen (pagetable \<noteq> 0) (proc_freepagetable pagetable sz))
    (kseq (case ipo of None \<Rightarrow> kret () | Some ip \<Rightarrow> kseq (iunlockput ip) end_op)
     (kret (-1)))"

text \<open>From the stack on: the file is closed, \<open>sz\<close> is the size of the loaded segments.\<close>

definition exec_image :: "nat \<Rightarrow> byte list \<Rightarrow> byte list list \<Rightarrow> addr \<Rightarrow> u64 \<Rightarrow> u64 \<Rightarrow> ('x filestate_scheme, int) kop" where
  "exec_image p path argv pagetable sz0 entry =
     kbind (pget p psz) (\<lambda>oldsz.
     let sz = PGROUNDUP sz0 in
     kbind (uvmalloc pagetable sz (sz + 2 * PGSIZE) PTE_W) (\<lambda>sz1.
     if sz1 = 0 then exec_bad pagetable sz None
     else
       kseq (uvmclear pagetable (sz1 - 2 * PGSIZE))
      (kbind (push_args argv 0 sz1 (sz1 - PGSIZE) pagetable []) (\<lambda>r. case r of
         None \<Rightarrow> exec_bad pagetable sz1 None
       | Some (sp, ustack) \<Rightarrow>
           let argc = length ustack; sp = sp - of_nat ((argc + 1) * 8); sp = sp - sp mod 16 in
           if sp < sz1 - PGSIZE then exec_bad pagetable sz1 None
           else kbind (copyout pagetable sp (concat (map u64_bytes (ustack @ [0])))) (\<lambda>r.
             if r < 0 then exec_bad pagetable sz1 None
             else
               kseq (tf_set p tf_a1 sp)
              (kseq (pupd p (\<lambda>q. q\<lparr>pname := safestrcpy (pname q) (arr (last_elem path)) 16\<rparr>))
              (kbind (pget p ppagetable) (\<lambda>oldpagetable.
               kseq (pupd p (\<lambda>q. q\<lparr>ppagetable := pagetable, psz := sz1\<rparr>))
              (kseq (tf_set p tf_epc entry)
              (kseq (tf_set p tf_sp sp)
              (kseq (proc_freepagetable oldpagetable oldsz)
               (kret (int argc)))))))))))))"

definition exec :: "byte list \<Rightarrow> byte list list \<Rightarrow> ('x filestate_scheme, int) kop" where
  "exec path argv =
     kbind curproc (\<lambda>p.
     kseq (begin_op [])
    (kbind (namei path) (\<lambda>r. case r of None \<Rightarrow> kseq end_op (kret (-1)) | Some ip \<Rightarrow>
     kseq (ilock (Some ip))
    (kbind (readi ip ToKernel 0 64) (\<lambda>(r, bs).
     let elf = elfhdr_of bs in
     if r \<noteq> 64 then exec_bad 0 0 (Some ip)
     else if e_magic elf \<noteq> ELF_MAGIC then exec_bad 0 0 (Some ip)
     else kbind (proc_pagetable p) (\<lambda>pagetable.
       if pagetable = 0 then exec_bad 0 0 (Some ip)
       else kbind (load_segs (unat (e_phnum elf)) (ucast (e_phoff elf)) 0 pagetable ip) (\<lambda>r. case r of
           Inl sz \<Rightarrow> exec_bad pagetable sz (Some ip)
         | Inr sz \<Rightarrow>
             kseq (iunlockput ip)
            (kseq end_op
            (kbind curproc (\<lambda>p. exec_image p path argv pagetable sz (e_entry elf)))))))))))"

end
