(* ===== verification/Sysfile.thy ===== *)
theory Sysfile
  imports Exec
begin

text \<open>
  Arguments of system calls (\<open>kernel/syscall.c\<close>) and the system calls on files
  (\<open>kernel/sysfile.c\<close>).

  A system call runs in an environment: \<open>e_sleep\<close> says what the system does each time
  the call sleeps in a pipe, on the console, in \<open>wait\<close> or in \<open>sleep\<close>; \<open>e_cons i\<close> the
  same while the console writes character \<open>i\<close>; \<open>e_exit\<close> what happens after the process
  has exited; \<open>e_pad\<close> is the indeterminate padding of a \<open>struct stat\<close>.
\<close>

record 's sysenv =
  e_sleep :: "('s, unit) kop list"
  e_cons :: "nat \<Rightarrow> ('s, unit) kop list"
  e_exit :: "('s, unit) kop"
  e_pad :: u32

abbreviation (input) MAXPATH :: nat where "MAXPATH \<equiv> 128"

section \<open>Arguments\<close>

definition fetchaddr :: "u64 \<Rightarrow> ('x filestate_scheme, int \<times> u64) kop" where
  "fetchaddr addr =
     kbind curproc (\<lambda>p.
     kbind (pget p id) (\<lambda>pp.
     if addr \<ge> psz pp \<or> addr + 8 > psz pp then kret (-1, 0)
     else kbind (copyin (ppagetable pp) addr 8) (\<lambda>(r, bs).
       if r \<noteq> 0 then kret (-1, 0) else kret (0, get64 (arr bs) 0))))"

text \<open>\<open>fetchstr\<close> returns the length and the bytes stored in \<open>buf\<close>.\<close>

definition fetchstr :: "u64 \<Rightarrow> nat \<Rightarrow> ('x filestate_scheme, int \<times> byte list) kop" where
  "fetchstr addr mx =
     kbind curproc (\<lambda>p.
     kbind (pget p ppagetable) (\<lambda>pt.
     kbind (copyinstr pt addr mx) (\<lambda>(r, bs).
     if r < 0 then kret (-1, bs)
     else kret (int (length (takeWhile (\<lambda>c. c \<noteq> 0) bs)), bs))))"

definition argraw :: "nat \<Rightarrow> ('x filestate_scheme, u64) kop" where
  "argraw n =
     kbind curproc (\<lambda>p.
     if n < 6 then tf_get p (112 + of_nat (8 * n)) else panic ''argraw'')"

definition argint :: "nat \<Rightarrow> ('x filestate_scheme, int) kop" where
  "argint n = kbind (argraw n) (\<lambda>w. kret (sint (ucast w :: u32)))"

definition argaddr :: "nat \<Rightarrow> ('x filestate_scheme, u64) kop" where
  "argaddr n = argraw n"

text \<open>The string argument \<open>n\<close>, or \<open>None\<close> when \<open>argstr\<close> answers -1.\<close>

definition argstr :: "nat \<Rightarrow> nat \<Rightarrow> ('x filestate_scheme, byte list option) kop" where
  "argstr n mx =
     kbind (argaddr n) (\<lambda>addr.
     kbind (fetchstr addr mx) (\<lambda>(r, bs).
     kret (if r < 0 then None else Some (takeWhile (\<lambda>c. c \<noteq> 0) bs))))"

text \<open>The descriptor and its file, or \<open>None\<close> when \<open>argfd\<close> answers -1.\<close>

definition argfd :: "nat \<Rightarrow> ('x filestate_scheme, (nat \<times> nat) option) kop" where
  "argfd n =
     kbind (argint n) (\<lambda>fd.
     if fd < 0 \<or> fd \<ge> int NOFILE then kret None
     else kbind curproc (\<lambda>p. kbind (pget p (\<lambda>q. pofile q (nat fd))) (\<lambda>fo.
       kret (map_option (Pair (nat fd)) fo))))"

definition fdalloc :: "nat \<Rightarrow> ('x filestate_scheme, int) kop" where
  "fdalloc f =
     kbind curproc (\<lambda>p.
     kbind (pget p (\<lambda>q. find (\<lambda>fd. pofile q fd = None) [0..<NOFILE])) (\<lambda>r. case r of
       Some fd \<Rightarrow> kseq (pupd p (\<lambda>q. q\<lparr>pofile := (pofile q)(fd := Some f)\<rparr>)) (kret (int fd))
     | None \<Rightarrow> kret (-1)))"

section \<open>Descriptors\<close>

definition sys_dup :: "('x filestate_scheme, u64) kop" where
  "sys_dup =
     kbind (argfd 0) (\<lambda>r. case r of None \<Rightarrow> kret (-1) | Some (fd0, f) \<Rightarrow>
     kbind (fdalloc f) (\<lambda>fd.
     if fd < 0 then kret (-1)
     else kseq (filedup f) (kret (word_of_int fd))))"

definition sys_read :: "'x filestate_scheme sysenv \<Rightarrow> ('x filestate_scheme, u64) kop" where
  "sys_read env =
     kbind (argaddr 1) (\<lambda>p. kbind (argint 2) (\<lambda>n.
     kbind (argfd 0) (\<lambda>r. case r of None \<Rightarrow> kret (-1) | Some (fd, f) \<Rightarrow>
     kbind (fileread (e_sleep env) f p n) (\<lambda>r. kret (word_of_int r)))))"

definition sys_write :: "'x filestate_scheme sysenv \<Rightarrow> ('x filestate_scheme, u64) kop" where
  "sys_write env =
     kbind (argaddr 1) (\<lambda>p. kbind (argint 2) (\<lambda>n.
     kbind (argfd 0) (\<lambda>r. case r of None \<Rightarrow> kret (-1) | Some (fd, f) \<Rightarrow>
     kbind (filewrite (e_sleep env) (e_cons env) f p n) (\<lambda>r. kret (word_of_int r)))))"

definition sys_close :: "('x filestate_scheme, u64) kop" where
  "sys_close =
     kbind (argfd 0) (\<lambda>r. case r of None \<Rightarrow> kret (-1) | Some (fd, f) \<Rightarrow>
     kbind curproc (\<lambda>p.
     kseq (pupd p (\<lambda>q. q\<lparr>pofile := (pofile q)(fd := None)\<rparr>))
    (kseq (fileclose f) (kret 0))))"

definition sys_fstat :: "'x filestate_scheme sysenv \<Rightarrow> ('x filestate_scheme, u64) kop" where
  "sys_fstat env =
     kbind (argaddr 1) (\<lambda>st.
     kbind (argfd 0) (\<lambda>r. case r of None \<Rightarrow> kret (-1) | Some (fd, f) \<Rightarrow>
     kbind (filestat (e_pad env) f st) (\<lambda>r. kret (word_of_int r))))"

section \<open>Links\<close>

abbreviation fail_op :: "('x filestate_scheme, u64) kop" where
  "fail_op \<equiv> kseq end_op (kret (-1))"

abbreviation nlink_upd :: "nat \<Rightarrow> (u16 \<Rightarrow> u16) \<Rightarrow> ('x fsstate_scheme, unit) kop" where
  "nlink_upd ip f \<equiv> di_upd ip (\<lambda>i. i\<lparr>di_nlink := f (di_nlink i)\<rparr>)"

definition sys_link_bad :: "nat \<Rightarrow> ('x filestate_scheme, u64) kop" where
  "sys_link_bad ip =
     kseq (ilock (Some ip))
    (kseq (nlink_upd ip (\<lambda>n. n - 1))
    (kseq (iupdate ip)
    (kseq (iunlockput ip)
     fail_op)))"

definition sys_link :: "('x filestate_scheme, u64) kop" where
  "sys_link =
     kbind (argstr 0 MAXPATH) (\<lambda>oldo. case oldo of None \<Rightarrow> kret (-1) | Some oldp \<Rightarrow>
     kbind (argstr 1 MAXPATH) (\<lambda>newo. case newo of None \<Rightarrow> kret (-1) | Some newp \<Rightarrow>
     kseq (begin_op [])
    (kbind (namei oldp) (\<lambda>r. case r of None \<Rightarrow> fail_op | Some ip \<Rightarrow>
     kseq (ilock (Some ip))
    (kbind (ino_get ip id) (\<lambda>x.
     if di_type (ino x) = T_DIR then kseq (iunlockput ip) fail_op
     else
       kseq (nlink_upd ip (\<lambda>n. n + 1))
      (kseq (iupdate ip)
      (kseq (iunlock (Some ip))
      (kbind (nameiparent newp (\<lambda>_. 0)) (\<lambda>(dpo, name). case dpo of None \<Rightarrow> sys_link_bad ip | Some dp \<Rightarrow>
       kseq (ilock (Some dp))
      (kbind (ino_get dp idev) (\<lambda>ddev.
       kbind (if ddev \<noteq> idev x then kret (-1) else dirlink dp name (inum x)) (\<lambda>l.
       if l < 0 then kseq (iunlockput dp) (sys_link_bad ip)
       else kseq (iunlockput dp)
        (kseq (iput ip)
        (kseq end_op (kret 0))))))))))))))))"

definition isdirempty :: "nat \<Rightarrow> ('x fsstate_scheme, bool) kop" where
  "isdirempty dp =
     kbind (ino_get dp (\<lambda>x. di_size (ino x))) (\<lambda>sz.
     kbind (kscan (drop 2 (dirent_offs sz)) (\<lambda>off.
        kbind (read_dirent dp off ''isdirempty: readi'') (\<lambda>de.
        kret (if de_inum de \<noteq> 0 then Some () else None)))) (\<lambda>r.
     kret (r = None)))"

text \<open>The jump to \<open>bad\<close> of \<open>sys_unlink\<close> after \<open>dp\<close> is locked.\<close>

definition sys_unlink_bad :: "nat \<Rightarrow> ('x filestate_scheme, u64) kop" where
  "sys_unlink_bad dp = kseq (iunlockput dp) fail_op"

definition sys_unlink :: "('x filestate_scheme, u64) kop" where
  "sys_unlink =
     kbind (argstr 0 MAXPATH) (\<lambda>po. case po of None \<Rightarrow> kret (-1) | Some path \<Rightarrow>
     kseq (begin_op [])
    (kbind (nameiparent path (\<lambda>_. 0)) (\<lambda>(dpo, name). case dpo of None \<Rightarrow> fail_op | Some dp \<Rightarrow>
     kseq (ilock (Some dp))
    (if namecmp name (arr (bytes ''.'')) = 0 \<or> namecmp name (arr (bytes ''..'')) = 0 then sys_unlink_bad dp
     else kbind (dirlookup dp name) (\<lambda>r. case r of None \<Rightarrow> sys_unlink_bad dp | Some (ip, off) \<Rightarrow>
       kseq (ilock (Some ip))
      (kbind (ino_get ip (\<lambda>x. ino x)) (\<lambda>x.
       kseq (kcheck (\<not> sint (di_nlink x) < 1) ''unlink: nlink < 1'')
      (kbind (if di_type x = T_DIR then isdirempty ip else kret True) (\<lambda>empty.
       if \<not> empty then kseq (iunlockput ip) (sys_unlink_bad dp)
       else kbind (writei dp (FromKernel (replicate 16 0)) off 16) (\<lambda>w.
         kseq (kcheck (w = 16) ''unlink: writei'')
        (kseq (kwhen (di_type x = T_DIR) (kseq (nlink_upd dp (\<lambda>n. n - 1)) (iupdate dp)))
        (kseq (iunlockput dp)
        (kseq (nlink_upd ip (\<lambda>n. n - 1))
        (kseq (iupdate ip)
        (kseq (iunlockput ip)
        (kseq end_op (kret 0)))))))))))))))))"

section \<open>Creating and opening\<close>

text \<open>\<open>create\<close> returns the new inode locked; \<open>create_fail\<close> is its label \<open>fail\<close>.\<close>

definition create_fail :: "nat \<Rightarrow> nat \<Rightarrow> ('x filestate_scheme, nat option) kop" where
  "create_fail ip dp =
     kseq (nlink_upd ip (\<lambda>_. 0))
    (kseq (iupdate ip)
    (kseq (iunlockput ip)
    (kseq (iunlockput dp) (kret None))))"

text \<open>\<open>dirlink(ip, ".", ..) < 0 || dirlink(ip, "..", ..) < 0\<close>, the second only if the first is false.\<close>

definition link_dots :: "nat \<Rightarrow> u32 \<Rightarrow> u32 \<Rightarrow> ('x filestate_scheme, bool) kop" where
  "link_dots ip self parent =
     kbind (dirlink ip (arr (bytes ''.'')) self) (\<lambda>r.
     if r < 0 then kret True
     else kbind (dirlink ip (arr (bytes ''..'')) parent) (\<lambda>r. kret (r < 0)))"

definition create :: "byte list \<Rightarrow> u16 \<Rightarrow> u16 \<Rightarrow> u16 \<Rightarrow> ('x filestate_scheme, nat option) kop" where
  "create path type major minor =
     kbind (nameiparent path (\<lambda>_. 0)) (\<lambda>(dpo, name). case dpo of None \<Rightarrow> kret None | Some dp \<Rightarrow>
     kseq (ilock (Some dp))
    (kbind (dirlookup dp name) (\<lambda>r. case r of
       Some (ip, off) \<Rightarrow>
         kseq (iunlockput dp)
        (kseq (ilock (Some ip))
        (kbind (ino_get ip (\<lambda>x. di_type (ino x))) (\<lambda>ty.
         if type = T_FILE \<and> (ty = T_FILE \<or> ty = T_DEVICE) then kret (Some ip)
         else kseq (iunlockput ip) (kret None))))
     | None \<Rightarrow>
         kbind (ino_get dp id) (\<lambda>d.
         kbind (ialloc (idev d) type) (\<lambda>r. case r of None \<Rightarrow> kseq (iunlockput dp) (kret None) | Some ip \<Rightarrow>
         kseq (ilock (Some ip))
        (kseq (di_upd ip (\<lambda>i. i\<lparr>di_major := major, di_minor := minor, di_nlink := 1\<rparr>))
        (kseq (iupdate ip)
        (kbind (ino_get ip inum) (\<lambda>i.
         kbind (if type = T_DIR then link_dots ip i (inum d) else kret False) (\<lambda>bad.
         if bad then create_fail ip dp
         else kbind (dirlink dp name i) (\<lambda>l.
           if l < 0 then create_fail ip dp
           else
             kseq (kwhen (type = T_DIR) (kseq (nlink_upd dp (\<lambda>n. n + 1)) (iupdate dp)))
            (kseq (iunlockput dp) (kret (Some ip))))))))))))))"

abbreviation (input) O_WRONLY :: u32 where "O_WRONLY \<equiv> 1"
abbreviation (input) O_RDWR :: u32 where "O_RDWR \<equiv> 2"
abbreviation (input) O_CREATE :: u32 where "O_CREATE \<equiv> 0x200"
abbreviation (input) O_TRUNC :: u32 where "O_TRUNC \<equiv> 0x400"

text \<open>The inode \<open>sys_open\<close> works on, locked; \<open>None\<close> when it has failed (the caller ends the operation).\<close>

definition open_inode :: "byte list \<Rightarrow> u32 \<Rightarrow> ('x filestate_scheme, nat option) kop" where
  "open_inode path omode =
     (if omode AND O_CREATE \<noteq> 0 then create path T_FILE 0 0
      else kbind (namei path) (\<lambda>r. case r of None \<Rightarrow> kret None | Some ip \<Rightarrow>
        kseq (ilock (Some ip))
       (kbind (ino_get ip (\<lambda>x. di_type (ino x))) (\<lambda>ty.
        if ty = T_DIR \<and> omode \<noteq> 0 then kseq (iunlockput ip) (kret None)
        else kret (Some ip)))))"

definition sys_open :: "('x filestate_scheme, u64) kop" where
  "sys_open =
     kbind (argint 1) (\<lambda>om. let omode = word_of_int om :: u32 in
     kbind (argstr 0 MAXPATH) (\<lambda>po. case po of None \<Rightarrow> kret (-1) | Some path \<Rightarrow>
     kseq (begin_op [])
    (kbind (open_inode path omode) (\<lambda>r. case r of None \<Rightarrow> fail_op | Some ip \<Rightarrow>
     kbind (ino_get ip (\<lambda>x. ino x)) (\<lambda>x.
     if di_type x = T_DEVICE \<and> (sint (di_major x) < 0 \<or> sint (di_major x) \<ge> NDEV) then
       kseq (iunlockput ip) fail_op
     else kbind filealloc (\<lambda>fo. case fo of None \<Rightarrow> kseq (iunlockput ip) fail_op | Some f \<Rightarrow>
       kbind (fdalloc f) (\<lambda>fd.
       if fd < 0 then kseq (fileclose f) (kseq (iunlockput ip) fail_op)
       else
         kseq (if di_type x = T_DEVICE then file_upd f (\<lambda>y. y\<lparr>ftype := FD_DEVICE, fmajor := di_major x\<rparr>)
               else file_upd f (\<lambda>y. y\<lparr>ftype := FD_INODE, foff := 0\<rparr>))
        (kseq (file_upd f (\<lambda>y. y\<lparr>fip := Some ip, readable := (omode AND O_WRONLY = 0),
            writable := (omode AND O_WRONLY \<noteq> 0 \<or> omode AND O_RDWR \<noteq> 0)\<rparr>))
        (kseq (kwhen (omode AND O_TRUNC \<noteq> 0 \<and> di_type x = T_FILE) (itrunc ip))
        (kseq (iunlock (Some ip))
        (kseq end_op (kret (word_of_int fd)))))))))))))"

definition sys_mkdir :: "('x filestate_scheme, u64) kop" where
  "sys_mkdir =
     kseq (begin_op [])
    (kbind (argstr 0 MAXPATH) (\<lambda>po. case po of None \<Rightarrow> fail_op | Some path \<Rightarrow>
     kbind (create path T_DIR 0 0) (\<lambda>r. case r of None \<Rightarrow> fail_op | Some ip \<Rightarrow>
     kseq (iunlockput ip)
    (kseq end_op (kret 0)))))"

definition sys_mknod :: "('x filestate_scheme, u64) kop" where
  "sys_mknod =
     kseq (begin_op [])
    (kbind (argint 1) (\<lambda>major. kbind (argint 2) (\<lambda>minor.
     kbind (argstr 0 MAXPATH) (\<lambda>po. case po of None \<Rightarrow> fail_op | Some path \<Rightarrow>
     kbind (create path T_DEVICE (word_of_int major) (word_of_int minor)) (\<lambda>r. case r of
       None \<Rightarrow> fail_op
     | Some ip \<Rightarrow>
         kseq (iunlockput ip)
        (kseq end_op (kret 0)))))))"

definition sys_chdir :: "('x filestate_scheme, u64) kop" where
  "sys_chdir =
     kbind curproc (\<lambda>p.
     kseq (begin_op [])
    (kbind (argstr 0 MAXPATH) (\<lambda>po. case po of None \<Rightarrow> fail_op | Some path \<Rightarrow>
     kbind (namei path) (\<lambda>r. case r of None \<Rightarrow> fail_op | Some ip \<Rightarrow>
     kseq (ilock (Some ip))
    (kbind (ino_get ip (\<lambda>x. di_type (ino x))) (\<lambda>ty.
     if ty \<noteq> T_DIR then kseq (iunlockput ip) fail_op
     else
       kseq (iunlock (Some ip))
      (kbind (pget p pcwd) (\<lambda>cwd.
       kseq (kbind (deref cwd) iput)
      (kseq end_op
      (kseq (pupd p (\<lambda>q. q\<lparr>pcwd := Some ip\<rparr>)) (kret 0)))))))))))"

section \<open>exec and pipe\<close>

text \<open>
  The loop of \<open>sys_exec\<close> with \<open>n\<close> of the \<open>MAXARG\<close> slots left: \<open>Inr\<close> the arguments,
  each with the page it is in, or \<open>Inl\<close> those to be freed at the label \<open>bad\<close>.
\<close>

primrec fetch_args :: "nat \<Rightarrow> nat \<Rightarrow> u64 \<Rightarrow> (addr \<times> byte list) list \<Rightarrow>
    ('x filestate_scheme, (addr \<times> byte list) list + (addr \<times> byte list) list) kop" where
  "fetch_args 0 i uargv argv = kret (Inl argv)"
| "fetch_args (Suc n) i uargv argv =
     kbind (fetchaddr (uargv + of_nat (8 * i))) (\<lambda>(r, uarg).
     if r < 0 then kret (Inl argv)
     else if uarg = 0 then kret (Inr argv)
     else kbind kalloc (\<lambda>page.
       if page = 0 then kret (Inl argv)
       else kbind (fetchstr uarg 4096) (\<lambda>(r, bs).
         kseq (mem_mod (\<lambda>m. mem_write m page bs))
        (let argv = argv @ [(page, takeWhile (\<lambda>c. c \<noteq> 0) bs)] in
         if r < 0 then kret (Inl argv) else fetch_args n (Suc i) uargv argv))))"

definition sys_exec :: "('x filestate_scheme, u64) kop" where
  "sys_exec =
     kbind (argaddr 1) (\<lambda>uargv.
     kbind (argstr 0 MAXPATH) (\<lambda>po. case po of None \<Rightarrow> kret (-1) | Some path \<Rightarrow>
     kbind (fetch_args MAXARG 0 uargv []) (\<lambda>r. case r of
       Inl argv \<Rightarrow> kseq (kfor (map fst argv) kfree) (kret (-1))
     | Inr argv \<Rightarrow>
         kbind (exec path (map snd argv)) (\<lambda>ret.
         kseq (kfor (map fst argv) kfree) (kret (word_of_int ret))))))"

definition sys_pipe :: "('x filestate_scheme, u64) kop" where
  "sys_pipe =
     kbind curproc (\<lambda>p.
     kbind (argaddr 0) (\<lambda>fdarray.
     kbind pipealloc (\<lambda>r. case r of None \<Rightarrow> kret (-1) | Some (rfile, wfile) \<Rightarrow>
     let clear = (\<lambda>fd. pupd p (\<lambda>q. q\<lparr>pofile := (pofile q)(nat fd := None)\<rparr>));
         bad = kseq (fileclose rfile) (kseq (fileclose wfile) (kret (-1))) in
     kbind (fdalloc rfile) (\<lambda>fd0.
     if fd0 < 0 then bad
     else kbind (fdalloc wfile) (\<lambda>fd1.
       if fd1 < 0 then kseq (clear fd0) bad
       else kbind (pget p ppagetable) (\<lambda>pt.
         kbind (copyout pt fdarray (int_bytes fd0)) (\<lambda>c0.
         kbind (if c0 < 0 then kret c0 else copyout pt (fdarray + 4) (int_bytes fd1)) (\<lambda>c.
         if c < 0 then kseq (clear fd0) (kseq (clear fd1) bad)
         else kret 0))))))))"

end
