(* ===== verification/Syscall.thy ===== *)
theory Syscall
  imports Sysfile
begin

text \<open>
  The process system calls, \<open>kernel/sysproc.c\<close>, and the dispatcher of
  \<open>kernel/syscall.c\<close>.
\<close>

section \<open>System calls on processes\<close>

definition sys_exit :: "'x filestate_scheme sysenv \<Rightarrow> ('x filestate_scheme, u64) kop" where
  "sys_exit env = kbind (argint 0) (\<lambda>n. exit (e_exit env) n)"

definition sys_getpid :: "('x filestate_scheme, u64) kop" where
  "sys_getpid = kbind curproc (\<lambda>p. kbind (pget p ppid) (\<lambda>pid. kret (word_of_int pid)))"

definition sys_fork :: "('x filestate_scheme, u64) kop" where
  "sys_fork = kbind fork (\<lambda>r. kret (word_of_int r))"

definition sys_wait :: "'x filestate_scheme sysenv \<Rightarrow> ('x filestate_scheme, u64) kop" where
  "sys_wait env = kbind (argaddr 0) (\<lambda>p. kbind (wait (e_sleep env) p) (\<lambda>r. kret (word_of_int r)))"

definition sys_sbrk :: "('x filestate_scheme, u64) kop" where
  "sys_sbrk =
     kbind (argint 0) (\<lambda>n.
     kbind curproc (\<lambda>p. kbind (pget p psz) (\<lambda>addr.
     kbind (growproc n) (\<lambda>r.
     kret (if r < 0 then -1 else addr)))))"

text \<open>
  The loop of \<open>sys_sleep\<close>. The comparison is unsigned, so a negative \<open>n\<close> is a very long
  time.
\<close>

primrec sleep_ticks :: "('x filestate_scheme, unit) kop list \<Rightarrow> u32 \<Rightarrow> u32 \<Rightarrow> ('x filestate_scheme, u64) kop" where
  "sleep_ticks [] ticks0 n =
     kbind (kget ticks) (\<lambda>now.
     if now - ticks0 < n then
       kbind curproc (\<lambda>p. kbind (killed p) (\<lambda>k.
       if k \<noteq> 0 then kseq (release LkTicks) (kret (-1))
       else kseq (sleep (blocked ChTicks) ChTicks LkTicks) (kret (-1))))
     else kseq (release LkTicks) (kret 0))"
| "sleep_ticks (away # env) ticks0 n =
     kbind (kget ticks) (\<lambda>now.
     if now - ticks0 < n then
       kbind curproc (\<lambda>p. kbind (killed p) (\<lambda>k.
       if k \<noteq> 0 then kseq (release LkTicks) (kret (-1))
       else kseq (sleep away ChTicks LkTicks) (sleep_ticks env ticks0 n)))
     else kseq (release LkTicks) (kret 0))"

definition sys_sleep :: "'x filestate_scheme sysenv \<Rightarrow> ('x filestate_scheme, u64) kop" where
  "sys_sleep env =
     kbind (argint 0) (\<lambda>n.
     kseq (acquire LkTicks)
    (kbind (kget ticks) (\<lambda>ticks0.
     sleep_ticks (e_sleep env) ticks0 (word_of_int n))))"

definition sys_find :: "('x filestate_scheme, u64) kop" where
  "sys_find = kret 0"

definition sys_kill :: "('x filestate_scheme, u64) kop" where
  "sys_kill = kbind (argint 0) (\<lambda>pid. kbind (kill pid) (\<lambda>r. kret (word_of_int r)))"

definition sys_uptime :: "('x filestate_scheme, u64) kop" where
  "sys_uptime =
     kseq (acquire LkTicks)
    (kbind (kget ticks) (\<lambda>xticks.
     kseq (release LkTicks) (kret (ucast xticks))))"

section \<open>Dispatch\<close>

definition syscalls :: "'x filestate_scheme sysenv \<Rightarrow> nat \<Rightarrow> ('x filestate_scheme, u64) kop option" where
  "syscalls env = map_of
     [(1, sys_fork), (2, sys_exit env), (3, sys_wait env), (4, sys_pipe), (5, sys_read env),
      (6, sys_kill), (7, sys_exec), (8, sys_fstat env), (9, sys_chdir), (10, sys_dup),
      (11, sys_getpid), (12, sys_sbrk), (13, sys_sleep env), (14, sys_uptime), (15, sys_open),
      (16, sys_write env), (17, sys_mknod), (18, sys_unlink), (19, sys_link), (20, sys_mkdir),
      (21, sys_close)]"

text \<open>\<open>NELEM(syscalls)\<close> is 22.\<close>

definition syscall :: "'x filestate_scheme sysenv \<Rightarrow> ('x filestate_scheme, unit) kop" where
  "syscall env =
     kbind curproc (\<lambda>p.
     kbind (tf_get p tf_a7) (\<lambda>a7.
     let num = sint (ucast a7 :: u32) in
     case (if num > 0 \<and> num < 22 then syscalls env (nat num) else None) of
       Some call \<Rightarrow> kbind call (\<lambda>r. tf_set p tf_a0 r)
     | None \<Rightarrow>
         kbind (pget p id) (\<lambda>pp.
         kseq (printf (bytes ''%d %s: unknown sys call %d'' @ [10])
            [PInt (word_of_int (ppid pp)), PStr (Some (name_bytes 16 (pname pp))), PInt (word_of_int num)])
          (tf_set p tf_a0 (-1)))))"

end
