(* ===== verification/Trap.thy ===== *)
theory Trap
  imports Syscall
begin

text \<open>
  Traps, \<open>kernel/trap.c\<close>, the interrupt controller, \<open>kernel/plic.c\<close>, and
  \<open>forkret\<close> of \<open>kernel/proc.c\<close>.

  Each hart has its trap registers. The bits \<open>SPP\<close> and \<open>SPIE\<close> of \<open>sstatus\<close> are kept
  here, the bit \<open>SIE\<close> is the interrupt flag of the lock state. The addresses of the
  assembly routines are parameters in the state. Leaving the kernel through \<open>userret\<close>
  is the result of the handler: the address it jumps to and the \<open>satp\<close> it passes.
\<close>

record trapregs =
  SPP :: bool
  SPIE :: bool
  sepc :: u64
  scause :: u64
  stval :: u64
  stvec :: u64
  sip :: u64

record trapstate = filestate +
  csrs :: "nat \<Rightarrow> trapregs"
  plicregs :: "addr \<Rightarrow> u32"
  pending_irq :: "nat \<Rightarrow> u32"     \<comment> \<open>what the claim register of a hart reads\<close>
  kernelvec :: u64
  uservec :: u64
  userret :: u64
  usertrap_pc :: u64
  first_fork :: bool              \<comment> \<open>the static variable \<open>first\<close> of \<open>forkret\<close>\<close>
  started :: bool

abbreviation csr_get :: "(trapregs \<Rightarrow> 'a) \<Rightarrow> ('x trapstate_scheme, 'a) kop" where
  "csr_get f \<equiv> kget (\<lambda>s. f (csrs s (tp (lks s))))"

abbreviation csr_mod :: "(trapregs \<Rightarrow> trapregs) \<Rightarrow> ('x trapstate_scheme, unit) kop" where
  "csr_mod f \<equiv> kmod (\<lambda>s. s\<lparr>csrs := (csrs s)(tp (lks s) := f (csrs s (tp (lks s))))\<rparr>)"

section \<open>The interrupt controller\<close>

abbreviation (input) UART0_IRQ :: nat where "UART0_IRQ \<equiv> 10"
abbreviation (input) VIRTIO0_IRQ :: nat where "VIRTIO0_IRQ \<equiv> 1"

abbreviation plic_write :: "addr \<Rightarrow> u32 \<Rightarrow> ('x trapstate_scheme, unit) kop" where
  "plic_write a v \<equiv> kmod (\<lambda>s. s\<lparr>plicregs := (plicregs s)(a := v)\<rparr>)"

definition PLIC_SENABLE :: "nat \<Rightarrow> addr" where
  "PLIC_SENABLE hart = PLIC + 0x2080 + of_nat hart * 0x100"

definition PLIC_SPRIORITY :: "nat \<Rightarrow> addr" where
  "PLIC_SPRIORITY hart = PLIC + 0x201000 + of_nat hart * 0x2000"

definition PLIC_SCLAIM :: "nat \<Rightarrow> addr" where
  "PLIC_SCLAIM hart = PLIC + 0x201004 + of_nat hart * 0x2000"

definition plicinit :: "('x trapstate_scheme, unit) kop" where
  "plicinit =
     kseq (plic_write (PLIC + of_nat (UART0_IRQ * 4)) 1)
      (plic_write (PLIC + of_nat (VIRTIO0_IRQ * 4)) 1)"

definition plicinithart :: "('x trapstate_scheme, unit) kop" where
  "plicinithart =
     kbind cpuid (\<lambda>hart.
     kseq (plic_write (PLIC_SENABLE hart) (push_bit UART0_IRQ 1 OR push_bit VIRTIO0_IRQ 1))
      (plic_write (PLIC_SPRIORITY hart) 0))"

text \<open>Reading the claim register returns the pending interrupt and clears it.\<close>

definition plic_claim :: "('x trapstate_scheme, int) kop" where
  "plic_claim =
     kbind cpuid (\<lambda>hart.
     kbind (kget (\<lambda>s. pending_irq s hart)) (\<lambda>irq.
     kseq (kmod (\<lambda>s. s\<lparr>pending_irq := (pending_irq s)(hart := 0)\<rparr>))
      (kret (sint irq))))"

definition plic_complete :: "int \<Rightarrow> ('x trapstate_scheme, unit) kop" where
  "plic_complete irq = kbind cpuid (\<lambda>hart. plic_write (PLIC_SCLAIM hart) (word_of_int irq))"

section \<open>Device interrupts\<close>

definition trapinit :: "('x trapstate_scheme, unit) kop" where
  "trapinit = initlock LkTicks ''time''"

definition trapinithart :: "('x trapstate_scheme, unit) kop" where
  "trapinithart = kbind (kget kernelvec) (\<lambda>a. csr_mod (\<lambda>r. r\<lparr>stvec := a\<rparr>))"

definition clockintr :: "('x trapstate_scheme, unit) kop" where
  "clockintr =
     kseq (acquire LkTicks)
    (kseq (kmod (\<lambda>s. s\<lparr>ticks := ticks s + 1\<rparr>))
    (kseq (wakeup ChTicks)
     (release LkTicks)))"

definition devintr :: "('x trapstate_scheme, int) kop" where
  "devintr =
     kbind (csr_get scause) (\<lambda>cause.
     if cause AND 0x8000000000000000 \<noteq> 0 \<and> cause AND 0xff = 9 then
       kbind plic_claim (\<lambda>irq.
       kseq (if irq = int UART0_IRQ then uartintr
             else if irq = int VIRTIO0_IRQ then virtio_disk_intr
             else kwhen (irq \<noteq> 0)
               (printf (bytes ''unexpected interrupt irq=%d'' @ [10]) [PInt (word_of_int irq)]))
      (kseq (kwhen (irq \<noteq> 0) (plic_complete irq))
       (kret 1)))
     else if cause = 0x8000000000000001 then
       kbind cpuid (\<lambda>c.
       kseq (kwhen (c = 0) clockintr)
      (kseq (csr_mod (\<lambda>r. r\<lparr>sip := sip r AND NOT 2\<rparr>))
       (kret 2)))
     else kret 0)"

section \<open>Reference counts\<close>

text \<open>
  The two routines do not touch any state; \<open>dec_ref\<close> counts down from the constant 10.
\<close>

definition add_ref :: "addr \<Rightarrow> ('x trapstate_scheme, unit) kop" where
  "add_ref pa = kret ()"

definition dec_ref :: "addr \<Rightarrow> ('x trapstate_scheme, unit) kop" where
  "dec_ref pa =
     (let cur_count = 10 :: int in
      kseq (kcheck (\<not> cur_count \<le> 0) ''ef a freed page!'')
       (if cur_count - 1 = 0 then kstop Hung else kret ()))"

section \<open>Traps from user space\<close>

definition usertrapret :: "('x trapstate_scheme, u64 \<times> u64) kop" where
  "usertrapret =
     kbind curproc (\<lambda>p.
     kseq intr_off
    (kbind (kget (\<lambda>s. TRAMPOLINE + (uservec s - trampoline s))) (\<lambda>vec.
     kseq (csr_mod (\<lambda>r. r\<lparr>stvec := vec\<rparr>))
    (kbind (kget (\<lambda>s. satp s (tp (lks s)))) (\<lambda>ksatp.
     kseq (tf_set p tf_kernel_satp ksatp)
    (kbind (pget p pkstack) (\<lambda>ks.
     kseq (tf_set p tf_kernel_sp (ks + PGSIZE))
    (kbind (kget usertrap_pc) (\<lambda>ut.
     kseq (tf_set p tf_kernel_trap ut)
    (kbind r_tp (\<lambda>hart.
     kseq (tf_set p tf_kernel_hartid (of_nat hart))
    (kseq (csr_mod (\<lambda>r. r\<lparr>SPP := False, SPIE := True\<rparr>))
    (kbind (tf_get p tf_epc) (\<lambda>epc.
     kseq (csr_mod (\<lambda>r. r\<lparr>sepc := epc\<rparr>))
    (kbind (pget p ppagetable) (\<lambda>pt.
     kbind (kget (\<lambda>s. TRAMPOLINE + (userret s - trampoline s))) (\<lambda>ret.
     kret (ret, MAKE_SATP pt))))))))))))))))))"

text \<open>
  The store fault of \<open>usertrap\<close> (\<open>scause\<close> 15). Without a page-table entry the code
  goes on to read through the null pointer, and a failed \<open>kalloc\<close> is not noticed before
  the copy.
\<close>

definition store_fault :: "nat \<Rightarrow> ('x trapstate_scheme, unit) kop" where
  "store_fault p =
     kbind (csr_get (\<lambda>r. PGROUNDDOWN (stval r))) (\<lambda>start_va.
     kbind (pget p ppagetable) (\<lambda>pt.
     kbind (walk pt start_va False) (\<lambda>pte.
     if pte = 0 then
       kseq (printf (bytes ''pge not found'' @ [10]) [])
      (kseq (pupd p (\<lambda>q. q\<lparr>pkilled := 1\<rparr>))
       (kstop (Faulted ''null pointer'')))
     else kbind (mem_load pte) (\<lambda>e.
       kwhen (e AND PTE_V \<noteq> 0 \<and> e AND PTE_U \<noteq> 0 \<and> e AND PTE_R \<noteq> 0)
        (let flags = (PTE_FLAGS e OR PTE_W) AND NOT PTE_R; pa = PTE2PA e in
         kbind kalloc (\<lambda>m.
         if m = 0 then kstop (Faulted ''null pointer'')
         else
           kseq (mem_mod (\<lambda>mm. memmove mm m pa 4096))
          (kseq (uvmunmap pt start_va PGSIZE False)
          (kseq (dec_ref pa)
          (kbind (mappages pt start_va PGSIZE m flags) (\<lambda>r.
           kwhen (r \<noteq> 0)
            (kseq (pupd p (\<lambda>q. q\<lparr>pkilled := 1\<rparr>))
             (printf (bytes ''ometthing is wrong in mappages in trap.'' @ [10]) []))))))))))))"

definition usertrap :: "'x trapstate_ext filestate_scheme sysenv \<Rightarrow> ('x trapstate_scheme, unit) kop \<Rightarrow>
    ('x trapstate_scheme, u64 \<times> u64) kop" where
  "usertrap env away =
     kbind (csr_get SPP) (\<lambda>spp.
     kseq (kcheck (\<not> spp) ''usertrap: not from user mode'')
    (kbind (kget kernelvec) (\<lambda>kv.
     kseq (csr_mod (\<lambda>r. r\<lparr>stvec := kv\<rparr>))
    (kbind curproc (\<lambda>p.
     kbind (csr_get sepc) (\<lambda>pc.
     kseq (tf_set p tf_epc pc)
    (kbind (csr_get scause) (\<lambda>cause.
     kbind (if cause = 8 then
         kbind (killed p) (\<lambda>k.
         kseq (kwhen (k \<noteq> 0) (exit (e_exit env) (-1)))
        (kbind (tf_get p tf_epc) (\<lambda>epc.
         kseq (tf_set p tf_epc (epc + 4))
        (kseq intr_on
        (kseq (syscall env) (kret 0))))))
       else if cause = 15 then kseq (store_fault p) (kret 0)
       else kbind devintr (\<lambda>d.
         if d \<noteq> 0 then kret d
         else
           kbind (pget p ppid) (\<lambda>pid. kbind (csr_get id) (\<lambda>r.
           kseq (printf (bytes ''usertrap(): unexpected scause %p pid=%d'' @ [10])
              [PPtr (scause r), PInt (word_of_int pid)])
          (kseq (printf (bytes ''            sepc=%p stval=%p'' @ [10]) [PPtr (sepc r), PPtr (stval r)])
          (kseq (setkilled p)
           (kret 0))))))) (\<lambda>which_dev.
     kbind (killed p) (\<lambda>k.
     kseq (kwhen (k \<noteq> 0) (exit (e_exit env) (-1)))
    (kseq (kwhen (which_dev = 2) (yield away))
     usertrapret)))))))))))"

definition forkret :: "('x trapstate_scheme, u64 \<times> u64) kop" where
  "forkret =
     kbind curproc (\<lambda>p.
     kseq (release (LkProc p))
    (kbind (kget first_fork) (\<lambda>first.
     kseq (kwhen first (kseq (kmod (\<lambda>s. s\<lparr>first_fork := False\<rparr>)) (fsinit ROOTDEV)))
      usertrapret)))"

section \<open>Traps from the kernel\<close>

definition kerneltrap :: "('x trapstate_scheme, unit) kop \<Rightarrow> ('x trapstate_scheme, unit) kop" where
  "kerneltrap away =
     kbind (csr_get id) (\<lambda>r.
     kseq (kcheck (SPP r) ''kerneltrap: not from supervisor mode'')
    (kbind intr_get (\<lambda>i.
     kseq (kcheck (\<not> i) ''kerneltrap: interrupts enabled'')
    (kbind devintr (\<lambda>which_dev.
     kseq (if which_dev = 0 then
         kbind (csr_get id) (\<lambda>r2.
         kseq (printf (bytes ''scause %p'' @ [10]) [PPtr (scause r)])
        (kseq (printf (bytes ''sepc=%p stval=%p'' @ [10]) [PPtr (sepc r2), PPtr (stval r2)])
         (panic ''kerneltrap'')))
       else kret ())
    (kbind (if which_dev = 2 then
         kbind myproc (\<lambda>me. case me of None \<Rightarrow> kret False | Some p \<Rightarrow> pget p (\<lambda>q. pstate q = RUNNING))
       else kret False) (\<lambda>running.
     kseq (kwhen running (yield away))
    (kseq (csr_mod (\<lambda>q. q\<lparr>sepc := sepc r, SPP := SPP r, SPIE := SPIE r\<rparr>))
     intr_off))))))))"

end
