(* ===== verification/Boot.thy ===== *)
theory Boot
  imports Trap
begin

text \<open>
  Booting: \<open>kernel/start.c\<close>, which runs in machine mode on every hart, and
  \<open>kernel/main.c\<close>.
\<close>

section \<open>Machine mode\<close>

text \<open>
  The machine-mode registers of a hart, with the memory-mapped timer. The addresses of
  \<open>main\<close>, \<open>timervec\<close> and of the hart's scratch area are parameters.
\<close>

record mregs =
  mstatus :: u64
  mepc :: u64
  msatp :: u64
  medeleg :: u64
  mideleg :: u64
  msie :: u64
  pmpaddr0 :: u64
  pmpcfg0 :: u64
  mscratch :: u64
  mtvec :: u64
  mie :: u64
  mhartid :: u64
  mtp :: u64
  mtimecmp :: u64            \<comment> \<open>\<open>CLINT_MTIMECMP\<close> of the hart\<close>
  mtime :: u64
  scratch :: "nat \<Rightarrow> u64"    \<comment> \<open>\<open>timer_scratch\<close> of the hart\<close>

definition CLINT_MTIMECMP :: "u64 \<Rightarrow> addr" where
  "CLINT_MTIMECMP hartid = 0x2000000 + 0x4000 + 8 * hartid"

definition timerinit :: "u64 \<Rightarrow> addr \<Rightarrow> mregs \<Rightarrow> mregs" where
  "timerinit timervec scratch_pa m =
     (let m = m\<lparr>mtimecmp := mtime m + 1000000\<rparr>;
          m = m\<lparr>scratch := (scratch m)(3 := CLINT_MTIMECMP (mhartid m), 4 := 1000000)\<rparr>;
          m = m\<lparr>mscratch := scratch_pa\<rparr>;
          m = m\<lparr>mtvec := timervec\<rparr>;
          m = m\<lparr>mstatus := mstatus m OR push_bit 3 1\<rparr>
      in m\<lparr>mie := mie m OR push_bit 7 1\<rparr>)"

definition start :: "u64 \<Rightarrow> u64 \<Rightarrow> addr \<Rightarrow> mregs \<Rightarrow> mregs" where
  "start main_pc timervec scratch_pa m =
     (let m = m\<lparr>mstatus := (mstatus m AND NOT (push_bit 11 3)) OR push_bit 11 1\<rparr>;
          m = m\<lparr>mepc := main_pc\<rparr>;
          m = m\<lparr>msatp := 0\<rparr>;
          m = m\<lparr>medeleg := 0xffff\<rparr>;
          m = m\<lparr>mideleg := 0xffff\<rparr>;
          m = m\<lparr>msie := msie m OR push_bit 9 1 OR push_bit 5 1 OR push_bit 1 1\<rparr>;
          m = m\<lparr>pmpaddr0 := 0x3fffffffffffff\<rparr>;
          m = m\<lparr>pmpcfg0 := 0xf\<rparr>;
          m = timerinit timervec scratch_pa m
      in m\<lparr>mtp := mhartid m\<rparr>)"

section \<open>Supervisor mode\<close>

text \<open>
  \<open>main\<close> on one hart; the arguments of \<open>scheduler\<close> bound the number of its passes and
  say what the processes do. A hart other than the first waits for \<open>started\<close>.
\<close>

definition boot_hart0 :: "('x trapstate_scheme, unit) kop" where
  "boot_hart0 =
     kseq consoleinit
    (kseq printfinit
    (kseq (printf [10] [])
    (kseq (printf (bytes ''xv6 kernel is booting'' @ [10]) [])
    (kseq (printf [10] [])
    (kseq kinit
    (kseq kvminit
    (kseq kvminithart
    (kseq procinit
    (kseq trapinit
    (kseq trapinithart
    (kseq plicinit
    (kseq plicinithart
    (kseq binit
    (kseq iinit
    (kseq fileinit
    (kseq virtio_disk_init
    (kseq userinit
     (kmod (\<lambda>s. s\<lparr>started := True\<rparr>)))))))))))))))))))"

definition boot_hart :: "('x trapstate_scheme, unit) kop" where
  "boot_hart =
     kbind (kget started) (\<lambda>go.
     if \<not> go then kstop Hung
     else kbind cpuid (\<lambda>c.
       kseq (printf (bytes ''hart %d starting'' @ [10]) [PInt (of_nat c)])
      (kseq kvminithart
      (kseq trapinithart
       plicinithart))))"

definition kmain :: "nat \<Rightarrow> (nat \<Rightarrow> ('x trapstate_scheme, unit) kop) \<Rightarrow> ('x trapstate_scheme, unit) kop" where
  "kmain n run =
     kbind cpuid (\<lambda>c.
     kseq (if c = 0 then boot_hart0 else boot_hart)
      (scheduler n run))"

end
