(* ===== verification/Fs_Layout.thy ===== *)
theory Fs_Layout
  imports Fs
begin

text \<open>
  What the file system stores and how it reads it back: inodes in their blocks, directory
  entries, and the elements of path names.
\<close>

section \<open>Inodes in a block\<close>

lemma get32_put_bytes_in:
  assumes "o1 \<le> b" and "b + 4 \<le> o1 + n"
  shows "get32 (put_bytes d o1 n src) b = get32 src (b - o1)"
  unfolding get32_def by (rule le_get_cong) (use assms in \<open>auto simp: put_bytes_def\<close>)

lemma get32_addr_bytes: "get32 (addr_bytes a) (4 * k) = a k"
proof -
  have "(4 * k + i) div 4 = k \<and> (4 * k + i) mod 4 = i" if "i < 4" for i using that by simp
  then have "le_get 4 (\<lambda>i. addr_bytes a (4 * k + i)) = (le_get 4 (le_byte (a k)) :: u32)"
    by (intro le_get_cong) (simp add: addr_bytes_def)
  then show ?thesis by (simp add: get32_def le_get_le_byte)
qed

lemma dinode_at_put:
  fixes i :: dinode
  defines "e \<equiv> \<lambda>o1 d. put_dinode i o1 d"
  shows "di_type (dinode_at (e o1 d) o1) = di_type i"
    and "di_major (dinode_at (e o1 d) o1) = di_major i"
    and "di_minor (dinode_at (e o1 d) o1) = di_minor i"
    and "di_nlink (dinode_at (e o1 d) o1) = di_nlink i"
    and "di_size (dinode_at (e o1 d) o1) = di_size i"
    and "k \<le> NDIRECT \<Longrightarrow> di_addrs (dinode_at (e o1 d) o1) k = di_addrs i k"
  using get32_addr_bytes [of "di_addrs i" k]
  by (simp_all add: e_def dinode_at_def put_dinode_def Let_def get_put_bytes_other get_put_other
      get32_put_bytes_in)

lemma put_dinode_outside:
  "k < o1 \<or> o1 + 64 \<le> k \<Longrightarrow> put_dinode i o1 d k = d k"
  by (auto simp: put_dinode_def Let_def put16_def put32_def put_bytes_def)

lemma dinode_off_apart:
  assumes "dinode_off m \<noteq> dinode_off n"
  shows "dinode_off m + 64 \<le> dinode_off n \<or> dinode_off n + 64 \<le> dinode_off m"
proof -
  have "unat m mod 16 < unat n mod 16 \<or> unat n mod 16 < unat m mod 16"
    using assms by (auto simp: dinode_off_def)
  then show ?thesis by (auto simp: dinode_off_def)
qed

lemma dinode_off_bound: "dinode_off n + 64 \<le> BSIZE"
proof -
  have "unat n mod 16 \<le> 15" using mod_less_divisor [of 16 "unat n"] by linarith
  then show ?thesis by (simp add: dinode_off_def)
qed

text \<open>Two inodes agree: every field, and the addresses the inode has.\<close>

definition same_dinode :: "dinode \<Rightarrow> dinode \<Rightarrow> bool" where
  "same_dinode i j \<longleftrightarrow> di_type i = di_type j \<and> di_major i = di_major j \<and> di_minor i = di_minor j \<and>
     di_nlink i = di_nlink j \<and> di_size i = di_size j \<and> (\<forall>k\<le>NDIRECT. di_addrs i k = di_addrs j k)"

lemma same_dinode_cong:
  assumes "\<And>k. o1 \<le> k \<Longrightarrow> k < o1 + 64 \<Longrightarrow> d k = e k"
  shows "same_dinode (dinode_at d o1) (dinode_at e o1)"
  using assms by (auto simp: same_dinode_def dinode_at_def intro!: get_bytes_cong)

section \<open>Path elements\<close>

text \<open>The elements of a path: the non-empty pieces between slashes.\<close>

primrec splits :: "byte list \<Rightarrow> byte list list" where
  "splits [] = [[]]"
| "splits (c # cs) = (if c = 47 then [] # splits cs else (c # hd (splits cs)) # tl (splits cs))"

definition elems :: "byte list \<Rightarrow> byte list list" where
  "elems p = filter (\<lambda>e. e \<noteq> []) (splits p)"

lemma splits_ne [simp]: "splits p \<noteq> []"
  by (cases p) auto

lemma splits_takeWhile:
  "splits s = takeWhile (\<lambda>c. c \<noteq> 47) s #
     (case dropWhile (\<lambda>c. c \<noteq> 47) s of [] \<Rightarrow> [] | c # r \<Rightarrow> splits r)"
  by (induction s) (auto split: list.splits)

lemma elems_slashes: "elems (dropWhile (\<lambda>c. c = 47) p) = elems p"
  by (induction p) (auto simp: elems_def)

lemma elems_Cons_slash: "elems (47 # p) = elems p"
  by (simp add: elems_def)

lemma elems_cut:
  assumes "s \<noteq> []" and "hd s \<noteq> 47"
  shows "elems s = takeWhile (\<lambda>c. c \<noteq> 47) s # elems (dropWhile (\<lambda>c. c \<noteq> 47) s)"
proof -
  define w where "w = takeWhile (\<lambda>c. c \<noteq> 47) s"
  have w: "w \<noteq> []" using assms by (cases s) (auto simp: w_def)
  show ?thesis
  proof (cases "dropWhile (\<lambda>c. c \<noteq> 47) s")
    case Nil
    then have "splits s = [w]" using splits_takeWhile [of s] by (simp only: w_def list.case)
    then have "elems s = [w]" using w by (simp add: elems_def)
    moreover have "elems [] = []" by (simp add: elems_def)
    ultimately show ?thesis unfolding w_def [symmetric] Nil by simp
  next
    case (Cons b q)
    have b: "b = 47" using hd_dropWhile [of "\<lambda>c. c \<noteq> 47" s] unfolding Cons by simp
    have "splits s = w # splits q" using Cons splits_takeWhile [of s] by (simp only: w_def list.case)
    then have "elems s = w # elems q" using w by (simp add: elems_def)
    then show ?thesis unfolding w_def [symmetric] Cons b by (simp add: elems_Cons_slash)
  qed
qed

lemma prefix_put:
  assumes "0 \<notin> set e" and "e \<noteq> []"
  shows "prefix_str DIRSIZ (if length e \<ge> DIRSIZ then put_bytes name 0 DIRSIZ (\<lambda>i. e ! i)
      else (put_bytes name 0 (length e) (\<lambda>i. e ! i))(length e := 0)) = take DIRSIZ e"
proof (cases "length e \<ge> DIRSIZ")
  case True
  have "map (put_bytes name 0 DIRSIZ (\<lambda>i. e ! i)) [0..<DIRSIZ] = take DIRSIZ e"
    by (rule nth_equalityI) (use True in \<open>auto simp: put_bytes_def\<close>)
  with True assms show ?thesis
    by (auto simp: prefix_str_def takeWhile_eq_all_conv dest: in_set_takeD)
next
  case False
  let ?n = "(put_bytes name 0 (length e) (\<lambda>i. e ! i))(length e := 0)"
  have "[0..<DIRSIZ] = [0..<length e] @ [length e..<DIRSIZ]"
    using upt_add_eq_append [of 0 "length e" "DIRSIZ - length e"] False by simp
  then have "map ?n [0..<DIRSIZ] = map ?n [0..<length e] @ map ?n [length e..<DIRSIZ]"
    by (simp only: map_append)
  moreover have "map ?n [0..<length e] = e"
    by (rule nth_equalityI) (auto simp: put_bytes_def)
  moreover have "map ?n [length e..<DIRSIZ] = 0 # map ?n [Suc (length e)..<DIRSIZ]"
    using False by (simp add: upt_conv_Cons)
  moreover have "takeWhile (\<lambda>b. b \<noteq> 0) (e @ 0 # ys) = e" for ys
    using assms(1) by (induction e) auto
  ultimately show ?thesis using False by (simp add: prefix_str_def)
qed

section \<open>Properties\<close>




text \<open>
  C34: \<open>skipelem\<close> takes the first element of a path, cut to 14 characters: it fails
  exactly on a path without elements, and otherwise the rest of the path has the remaining
  elements and starts with one of them unless it is empty.
\<close>

theorem skipelem_takes_first:
  assumes "0 \<notin> set path"
  shows "case skipelem path name of
      None \<Rightarrow> elems path = []
    | Some (rest, name') \<Rightarrow> \<exists>e. elems path = e # elems rest \<and> prefix_str DIRSIZ name' = take DIRSIZ e \<and>
        (rest = [] \<longleftrightarrow> elems rest = []) \<and> set rest \<subseteq> set path"
proof -
  define s where "s = dropWhile (\<lambda>c. c = 47) path"
  define e where "e = takeWhile (\<lambda>c. c \<noteq> 47) s"
  define r where "r = dropWhile (\<lambda>c. c = 47) (dropWhile (\<lambda>c. c \<noteq> 47) s)"
  have es: "elems path = elems s" by (simp add: s_def elems_slashes)
  show ?thesis
  proof (cases "s = []")
    case True
    then have "skipelem path name = None" by (simp add: skipelem_def s_def)
    moreover have "elems path = []" unfolding es True by (simp add: elems_def)
    ultimately show ?thesis by simp
  next
    case False
    have hd: "hd s \<noteq> 47" using hd_dropWhile [of "\<lambda>c. c = 47" path] False by (simp add: s_def)
    have cut: "elems path = e # elems r"
      using elems_cut [OF False hd] es elems_slashes by (simp add: e_def r_def)
    have sub: "set s \<subseteq> set path" "set e \<subseteq> set s" "set r \<subseteq> set s"
      by (auto simp: s_def e_def r_def dest!: set_dropWhileD set_takeWhileD)
    have e: "e \<noteq> []" using False hd by (cases s) (auto simp: e_def)
    have "0 \<notin> set e" using assms sub by blast
    note p = prefix_put [OF this e, of name]
    have rr: "r = [] \<longleftrightarrow> elems r = []"
    proof (cases "r = []")
      case ne: False
      then have "hd r \<noteq> 47" using hd_dropWhile [of "\<lambda>c. c = 47" "dropWhile (\<lambda>c. c \<noteq> 47) s"] by (simp add: r_def)
      with elems_cut [OF ne] ne show ?thesis by simp
    qed (simp add: elems_def)
    have "set r \<subseteq> set path" using sub by blast
    then show ?thesis
      using False cut p rr by (auto simp: skipelem_def Let_def s_def [symmetric] e_def [symmetric] r_def [symmetric])
  qed
qed

theorem skipelem_takes_first_witness:
  "\<exists>rest name'. skipelem (bytes ''/a/bb'') (\<lambda>_. 0) = Some (rest, name') \<and> elems rest = [bytes ''bb''] \<and>
     prefix_str DIRSIZ name' = bytes ''a''"
proof -
  have "elems (bytes ''/a/bb'') = [bytes ''a'', bytes ''bb'']" "0 \<notin> set (bytes ''/a/bb'')"
    "take DIRSIZ (bytes ''a'') = bytes ''a''"
    by (simp_all add: elems_def bytes_def)
  with skipelem_takes_first [of "bytes ''/a/bb''" "\<lambda>_. 0"] show ?thesis
    by (auto split: option.splits)
qed

end
