(* ===== verification/Demo.thy ===== *)
theory Demo
  imports Trap Vm_Props Virtio_Rw
begin

text \<open>
  A concrete state of the whole kernel: process \<open>p\<close> runs on hart 0 with one page of user
  memory at address 0, all locks are free, the disk is zero. The examples that accompany
  the properties start from it.
\<close>

definition demo_inode :: inode where
  "demo_inode = \<lparr>idev = 0, inum = 0, iref = 0, ivalid = False,
     ino = \<lparr>di_type = 0, di_major = 0, di_minor = 0, di_nlink = 0, di_size = 0, di_addrs = (\<lambda>_. 0)\<rparr>\<rparr>"

definition demo_pipe :: pipe where
  "demo_pipe = \<lparr>pdata = (\<lambda>_. 0), nread = 0, nwrite = 0, readopen = True, writeopen = True\<rparr>"

definition demo_file :: kfile where
  "demo_file = \<lparr>ftype = FD_NONE, fref = 0, readable = False, writable = False, fpipe = 0, fip = None, foff = 0, fmajor = 0\<rparr>"

definition demo_regs :: trapregs where
  "demo_regs = \<lparr>SPP = False, SPIE = False, sepc = 0, scause = 8, stval = 0, stvec = 0, sip = 0\<rparr>"

definition demo_klog :: klog where
  "demo_klog = \<lparr>lg_start = 2, lg_size = 30, outstanding = 0, committing = False, lg_dev = 1,
     lh = \<lparr>lh_n = 0, lh_block = (\<lambda>_. 0)\<rparr>\<rparr>"

definition demo_sb :: superblock where
  "demo_sb = \<lparr>sb_magic = FSMAGIC, sb_size = 2000, sb_nblocks = 1954, sb_ninodes = 200, sb_nlog = 30,
     sb_logstart = 2, sb_inodestart = 32, sb_bmapstart = 45\<rparr>"

definition demo_proc :: proc where
  "demo_proc = running_proc\<lparr>ppagetable := pgA, psz := 4096\<rparr>"

definition demo_ptable :: "nat \<Rightarrow> nat \<Rightarrow> proc" where
  "demo_ptable p = (\<lambda>_. empty_proc)(p := demo_proc)"

definition demo :: "nat \<Rightarrow> trapstate" where
  "demo p = diskstate.extend
     ((boot_disk p (\<lambda>_. empty_buf))\<lparr>mem := demo_mem, procs := demo_ptable p\<rparr>)
     \<lparr>klog = demo_klog, sb = demo_sb, inodes = (\<lambda>_. demo_inode),
      tx_buf = (\<lambda>_. 0), tx_w = 0, tx_r = 0, uart_room = 16, uart_in = [], uregs = (\<lambda>_. 0),
      cons_buf = (\<lambda>_. 0), cons_r = 0, cons_w = 0, cons_e = 0,
      devsw_read = (\<lambda>_. None), devsw_write = (\<lambda>_. None),
      pipes = (\<lambda>_. demo_pipe), files = (\<lambda>_. demo_file),
      csrs = (\<lambda>_. demo_regs), plicregs = (\<lambda>_. 0), pending_irq = (\<lambda>_. 0),
      kernelvec = 0, uservec = 0, userret = 0, usertrap_pc = 0, first_fork = True, started = False\<rparr>"

lemmas demo_unfold = demo_def diskstate.extend_def boot_disk_unfold

lemma demo_fields [simp]:
  "lks (demo p) = on_cpu (Some p) boot_locks" "mem (demo p) = demo_mem" "procs (demo p) = demo_ptable p"
  "klog (demo p) = demo_klog" "sb (demo p) = demo_sb" "inodes (demo p) = (\<lambda>_. demo_inode)"
  "pipes (demo p) = (\<lambda>_. demo_pipe)" "files (demo p) = (\<lambda>_. demo_file)" "bufs (demo p) = (\<lambda>_. empty_buf)"
  "csrs (demo p) = (\<lambda>_. demo_regs)" "platter (demo p) = (\<lambda>_. 0)" "vd (demo p) = idle_vdisk" "device (demo p) = serve"
  "slocks (demo p) = (\<lambda>_. \<lparr>sl_locked = 0, sl_name = [], sl_pid = 0\<rparr>)"
  "cons_r (demo p) = 0" "cons_w (demo p) = 0" "cons_e (demo p) = 0" "tx_r (demo p) = 0" "tx_w (demo p) = 0"
  "uart_room (demo p) = 16" "uart_out (demo p) = []" "panicked (demo p) = False" "pr_locking (demo p) = False"
  by (simp_all add: demo_unfold)

lemma demo_proc_fields [simp]:
  "pstate (demo_ptable p p) = RUNNING" "pchan (demo_ptable p p) = None" "pkilled (demo_ptable p p) = 0"
  "ppagetable (demo_ptable p p) = pgA" "ppid (demo_ptable p p) = 7"
  by (simp_all add: demo_ptable_def demo_proc_def running_proc_def empty_proc_def)

lemma demo_in_proc: "p < 64 \<Longrightarrow> in_proc p (lks (demo p))"
  using boot_in_proc by simp

lemma demo_ready: "p < 64 \<Longrightarrow> proc_ready p (demo p)"
  using demo_in_proc by (simp add: proc_ready_def)

lemma demo_idle: "vd_idle (vd (demo p))" "virtio_device (device (demo p))"
  by (simp_all add: vd_idle_def idle_vdisk_def virtio_device_def)

lemma demo_user_bytes:
  assumes "unat va + n \<le> 4096" and "i < n"
  shows "umapped demo_mem pgA (va + of_nat i)"
proof (rule demo_umapped)
  have "unat (va + of_nat i) = unat va + i" using assms by (intro unat_off) simp
  with assms show "unat (va + of_nat i) < 4096" by simp
qed

end
