(* ===== verification/Ring.thy ===== *)
theory Ring
  imports Prelude
begin

text \<open>
  Queues in a circular buffer with free-running counters, as pipes, the console and the
  UART driver keep them: \<open>r\<close> counts the bytes taken, \<open>w\<close> the bytes stored, both wrap
  around at their width, and a byte lives at its count modulo the size of the buffer.
\<close>

definition ring_contents :: "nat \<Rightarrow> (nat \<Rightarrow> byte) \<Rightarrow> 'w::len word \<Rightarrow> 'w word \<Rightarrow> byte list" where
  "ring_contents cap b r w = map (\<lambda>i. b (unat (r + of_nat i) mod cap)) [0..<unat (w - r)]"

lemma length_ring [simp]: "length (ring_contents cap b r w) = unat (w - r)"
  by (simp add: ring_contents_def)

lemma unat_plus_mod:
  assumes "cap dvd 2 ^ LENGTH('w)"
  shows "unat (r + of_nat i :: 'w::len word) mod cap = (unat r + i) mod cap"
proof -
  have "unat (r + of_nat i :: 'w word) = (unat r + i) mod 2 ^ LENGTH('w)"
    by (simp add: unat_word_ariths unat_of_nat mod_simps)
  with assms show ?thesis by (simp add: mod_mod_cancel)
qed

lemma ring_slot_free:
  assumes "i < n" and "n < cap"
  shows "(r + i) mod cap \<noteq> (r + n) mod (cap :: nat)"
proof
  assume "(r + i) mod cap = (r + n) mod cap"
  then have "cap dvd (r + n) - (r + i)" using assms(1) by (metis mod_eq_dvd_iff_nat nat_add_left_cancel_le less_imp_le_nat)
  then have "cap dvd n - i" by simp
  with assms show False by (auto dest: dvd_imp_le)
qed

lemma ring_put:
  fixes r w :: "'w::len word"
  assumes "cap dvd 2 ^ LENGTH('w)" and "cap < 2 ^ LENGTH('w)" and "unat (w - r) < cap"
  shows "ring_contents cap (b(unat w mod cap := c)) r (w + 1) = ring_contents cap b r w @ [c]"
proof -
  define n where "n = unat (w - r)"
  have w: "w = r + of_nat n" by (simp add: n_def)
  have "unat (w + 1 - r) = Suc n"
  proof -
    have e: "w + 1 - r = of_nat (Suc n)" by (simp add: w)
    have "Suc n < 2 ^ LENGTH('w)" using assms(2,3) by (simp add: n_def)
    then show ?thesis unfolding e by (simp add: unat_of_nat del: of_nat_Suc)
  qed
  then have "ring_contents cap (b(unat w mod cap := c)) r (w + 1) =
      map (\<lambda>i. (b(unat w mod cap := c)) (unat (r + of_nat i) mod cap)) [0..<n] @ [c]"
    by (simp add: ring_contents_def flip: w)
  moreover have "unat (r + of_nat i) mod cap \<noteq> unat w mod cap" if "i < n" for i
    using ring_slot_free [OF that, of cap "unat r"] assms(3) unat_plus_mod [OF assms(1), of r]
    unfolding n_def [symmetric] by (simp add: w)
  ultimately show ?thesis by (simp add: ring_contents_def n_def [symmetric])
qed

lemma ring_get:
  fixes r w :: "'w::len word"
  assumes "w \<noteq> r"
  shows "ring_contents cap b r w = b (unat r mod cap) # ring_contents cap b (r + 1) w"
proof -
  obtain n where n: "unat (w - r) = Suc n" using assms by (cases "unat (w - r)") (auto simp: unat_eq_0)
  have "w - (r + 1) = of_nat n"
  proof -
    have "w - r = of_nat (Suc n)" using n by (metis of_nat_unat ucast_id)
    then show ?thesis by (simp add: algebra_simps)
  qed
  moreover have "n < 2 ^ LENGTH('w)" using unat_bound [of "w - r"] n by linarith
  ultimately have "unat (w - (r + 1)) = n" by (simp add: unat_of_nat)
  then show ?thesis
    by (simp add: ring_contents_def n upt_conv_Cons map_Suc_upt [symmetric] o_def ac_simps del: upt_Suc)
qed

lemma ring_empty: "ring_contents cap b r w = [] \<longleftrightarrow> w = r"
  using length_ring [of cap b r w] by (metis length_0_conv right_minus_eq unat_eq_zero)

section \<open>The queue interface\<close>

text \<open>
  What a bounded queue promises: storing appends while there is room, and taking returns
  and removes the first element.
\<close>

locale fifo =
  fixes cap :: nat
    and contents :: "'q \<Rightarrow> 'a list"
    and put :: "'a \<Rightarrow> 'q \<Rightarrow> 'q"
    and get :: "'q \<Rightarrow> 'a \<times> 'q"
  assumes put_law: "length (contents q) < cap \<Longrightarrow> contents (put a q) = contents q @ [a]"
    and get_law: "contents q \<noteq> [] \<Longrightarrow> contents q = fst (get q) # contents (snd (get q))"
begin

lemma put_list: "length (contents q) + length xs \<le> cap \<Longrightarrow> contents (fold put xs q) = contents q @ xs"
proof (induction xs arbitrary: q)
  case (Cons x xs)
  then have "contents (put x q) = contents q @ [x]" by (intro put_law) simp
  with Cons show ?case by simp
qed simp

lemma get_list: "n \<le> length (contents q) \<Longrightarrow> contents (((\<lambda>q. snd (get q)) ^^ n) q) = drop n (contents q)"
proof (induction n)
  case (Suc n)
  then have "contents (((\<lambda>q. snd (get q)) ^^ n) q) = drop n (contents q)" by simp
  with Suc.prems get_law [of "((\<lambda>q. snd (get q)) ^^ n) q"] show ?case
    by (metis Suc_le_lessD drop_Suc drop_eq_Nil comp_apply funpow.simps(2) linorder_not_less list.sel(3) tl_drop)
qed simp

lemma get_nth: "n < length (contents q) \<Longrightarrow> fst (get (((\<lambda>q. snd (get q)) ^^ n) q)) = contents q ! n"
  using get_list [of n q] get_law [of "((\<lambda>q. snd (get q)) ^^ n) q"]
  by (metis drop_eq_Nil hd_drop_conv_nth less_imp_le_nat linorder_not_less list.sel(1))

lemma first_in_first_out:
  assumes "length (contents q) + length xs \<le> cap" and "n < length (contents q) + length xs"
  shows "fst (get (((\<lambda>q. snd (get q)) ^^ n) (fold put xs q))) = (contents q @ xs) ! n"
  using get_nth [of n "fold put xs q"] put_list [OF assms(1)] assms(2) by simp

end

end
