(* ===== verification/Pipe_Fifo.thy ===== *)
theory Pipe_Fifo
  imports Demo Ring
begin

text \<open>
  A pipe is a first-in first-out queue: what \<open>pipewrite\<close> takes from the user's memory is
  what \<open>piperead\<close> delivers, in order, across the wrap-around of the buffer and of the
  counters.
\<close>

section \<open>The queue of a pipe\<close>

definition pipe_contents :: "pipe \<Rightarrow> byte list" where
  "pipe_contents p = ring_contents PIPESIZE (pdata p) (nread p) (nwrite p)"

definition pipe_put :: "byte \<Rightarrow> pipe \<Rightarrow> pipe" where
  "pipe_put c p = p\<lparr>pdata := (pdata p)(unat (nwrite p) mod PIPESIZE := c), nwrite := nwrite p + 1\<rparr>"

definition pipe_get :: "pipe \<Rightarrow> byte \<times> pipe" where
  "pipe_get p = (pdata p (unat (nread p) mod PIPESIZE), p\<lparr>nread := nread p + 1\<rparr>)"

interpretation pq: fifo PIPESIZE pipe_contents pipe_put pipe_get
proof
  fix q a
  assume "length (pipe_contents q) < PIPESIZE"
  moreover have "(PIPESIZE :: nat) dvd 2 ^ LENGTH(32)" by simp
  ultimately show "pipe_contents (pipe_put a q) = pipe_contents q @ [a]"
    using ring_put [of PIPESIZE "nwrite q" "nread q" "pdata q" a]
    by (simp add: pipe_contents_def pipe_put_def)
next
  fix q
  assume "pipe_contents q \<noteq> []"
  then show "pipe_contents q = fst (pipe_get q) # pipe_contents (snd (pipe_get q))"
    using ring_get [of "nwrite q" "nread q" PIPESIZE "pdata q"]
    by (simp add: pipe_contents_def pipe_get_def ring_empty)
qed

lemma pipe_empty: "nread p = nwrite p \<longleftrightarrow> pipe_contents p = []"
  by (auto simp: pipe_contents_def ring_empty)

lemma pipe_full: "nwrite p = nread p + of_nat PIPESIZE \<Longrightarrow> length (pipe_contents p) = PIPESIZE"
  by (simp add: pipe_contents_def)

lemma pipe_put_open [simp]:
  "readopen (pipe_put c p) = readopen p" "writeopen (pipe_put c p) = writeopen p"
  by (simp_all add: pipe_put_def)

section \<open>Writing\<close>

lemma killed_ok [lock_simps]:
  "avail (LkProc p) (lks s) \<Longrightarrow> killed p s = Ok (pkilled (procs s p)) (s\<lparr>lks := settle (lks s)\<rparr>)"
  by (simp add: killed_def kop_simps lock_simps)

lemma pipewrite_step:
  assumes "in_proc p L" and "lks s = acq (LkPipe pi) L" and "i < n"
    and "readopen (pipes s pi)" and "pkilled (procs s p) = 0"
    and "length (pipe_contents (pipes s pi)) < PIPESIZE"
    and "copyin (ppagetable (procs s p)) (addr + of_nat i) 1 s = Ok (0, [c]) s"
  shows "pipewrite_loop env pi addr p i n s =
    pipewrite_loop env pi addr p (Suc i) n (s\<lparr>pipes := (pipes s)(pi := pipe_put c (pipes s pi))\<rparr>)"
proof -
  note L = in_procD [OF assms(1)]
  have "avail (LkProc p) (lks s)" using L(4) assms(2) by (simp add: avail_acq)
  moreover have "settle (lks s) = lks s" using assms(2) L(5) by (simp add: settle_acq)
  ultimately have k: "killed p s = Ok 0 s" using assms(5) by (simp add: killed_ok)
  have nf: "nwrite (pipes s pi) \<noteq> nread (pipes s pi) + of_nat PIPESIZE"
    using pipe_full assms(6) by force
  show ?thesis
    using assms(3,4,7) k nf
    by (subst pipewrite_loop.simps) (simp add: kop_simps pipe_put_def)
qed

lemma pipewrite_loop_ok:
  assumes "in_proc p L" and "lks s = acq (LkPipe pi) L" and "i \<le> n"
    and "readopen (pipes s pi)" and "pkilled (procs s p) = 0"
    and "length (pipe_contents (pipes s pi)) + (n - i) \<le> PIPESIZE"
    and "user_wf (mem s) (ppagetable (procs s p))" and "unat addr + n \<le> 2 ^ 38"
    and "\<And>j. j < n \<Longrightarrow> umapped (mem s) (ppagetable (procs s p)) (addr + of_nat j)"
  shows "pipewrite_loop env pi addr p i n s = Ok (Some n) (s\<lparr>pipes := (pipes s)(pi :=
    fold pipe_put (drop i (uread (mem s) (ppagetable (procs s p)) addr n)) (pipes s pi))\<rparr>)"
  using assms(2-6,7-)
proof (induction "n - i" arbitrary: i s)
  case 0
  then have "i = n" by simp
  moreover have "length (uread (mem s) (ppagetable (procs s p)) addr n) = n" by (simp add: uread_def)
  ultimately show ?case by (subst pipewrite_loop.simps) (simp add: kop_simps)
next
  case (Suc k)
  let ?root = "ppagetable (procs s p)"
  let ?c = "mem s (uaddr (mem s) ?root (addr + of_nat i))"
  let ?t = "s\<lparr>pipes := (pipes s)(pi := pipe_put ?c (pipes s pi))\<rparr>"
  have i: "i < n" using Suc.hyps(2) by simp
  have a: "unat (addr + of_nat i) + 1 \<le> 2 ^ 38"
    using Suc.prems(7) i unat_off [of addr i] by simp
  have ci: "copyin ?root (addr + of_nat i) 1 s = Ok (0, [?c]) s"
    using copyin_ok [OF Suc.prems(6) a] Suc.prems(8) [OF i] by (simp add: uread_def)
  have step: "pipewrite_loop env pi addr p i n s = pipewrite_loop env pi addr p (Suc i) n ?t"
    by (rule pipewrite_step [OF assms(1) Suc.prems(1) i Suc.prems(3,4) _ ci]) (use Suc.prems(5) i in simp)
  have pc: "pipe_contents (pipe_put ?c (pipes s pi)) = pipe_contents (pipes s pi) @ [?c]"
    using Suc.prems(5) i by (intro pq.put_law) simp
  have "drop i (uread (mem s) ?root addr n) = ?c # drop (Suc i) (uread (mem s) ?root addr n)"
    using i by (simp add: uread_def Cons_nth_drop_Suc [symmetric])
  moreover have "pipewrite_loop env pi addr p (Suc i) n ?t = Ok (Some n) (?t\<lparr>pipes := (pipes ?t)(pi :=
      fold pipe_put (drop (Suc i) (uread (mem ?t) (ppagetable (procs ?t p)) addr n)) (pipes ?t pi))\<rparr>)"
    by (rule Suc.hyps(1)) (use Suc.prems Suc.hyps(2) i pc in auto)
  ultimately show ?case unfolding step by simp
qed

section \<open>Reading\<close>

abbreviation pipe_drop :: "nat \<Rightarrow> pipe \<Rightarrow> pipe" where
  "pipe_drop n p \<equiv> ((\<lambda>q. snd (pipe_get q)) ^^ n) p"

lemma pipe_drop_Suc: "pipe_drop (Suc n) p = pipe_drop n (p\<lparr>nread := nread p + 1\<rparr>)"
  by (simp only: funpow_Suc_right comp_apply) (simp add: pipe_get_def)

lemma pipe_drop_open [simp]:
  "readopen (pipe_drop n p) = readopen p" "writeopen (pipe_drop n p) = writeopen p"
  by (induction n arbitrary: p) (simp_all add: pipe_get_def)

lemma piperead_loop_ok:
  assumes "user_wf (mem s) (ppagetable (procs s p))" and "unat addr + (i + k) \<le> 2 ^ 38"
    and "\<And>j. j < i + k \<Longrightarrow> umapped (mem s) (ppagetable (procs s p)) (addr + of_nat j)"
    and "cs = take k (pipe_contents (pipes s pi))"
  shows "piperead_loop k i pi addr p s = Ok (i + length cs) (s\<lparr>
    mem := uwrite (uaddr (mem s) (ppagetable (procs s p))) (mem s) (addr + of_nat i) cs,
    pipes := (pipes s)(pi := pipe_drop (length cs) (pipes s pi))\<rparr>)"
  using assms
proof (induction k arbitrary: i s cs)
  case 0
  then show ?case by (simp add: kop_simps)
next
  case (Suc k)
  let ?root = "ppagetable (procs s p)"
  let ?q = "pipes s pi"
  show ?case
  proof (cases "nread ?q = nwrite ?q")
    case True
    with Suc.prems(4) have "cs = []" by (simp add: pipe_empty)
    with True show ?thesis by (simp add: kop_simps)
  next
    case False
    let ?c = "pdata ?q (unat (nread ?q) mod PIPESIZE)"
    let ?q' = "?q\<lparr>nread := nread ?q + 1\<rparr>"
    have pc: "pipe_contents ?q = ?c # pipe_contents ?q'"
      using pq.get_law [of ?q] False by (simp add: pipe_empty pipe_get_def)
    define ds where "ds = take k (pipe_contents ?q')"
    have cs: "cs = ?c # ds" using Suc.prems(4) pc by (simp add: ds_def)
    let ?a = "addr + of_nat i"
    let ?s' = "s\<lparr>pipes := (pipes s)(pi := ?q')\<rparr>"
    define m where "m = uwrite (uaddr (mem s) ?root) (mem s) ?a [?c]"
    let ?t = "?s'\<lparr>mem := m\<rparr>"
    have um: "umapped (mem s) ?root (?a + of_nat j)" if "j < length [?c]" for j
      using Suc.prems(3) [of i] that by simp
    have "unat ?a + length [?c] \<le> 2 ^ 38" using Suc.prems(2) unat_off [of addr i] by simp
    then have co: "copyout ?root ?a [?c] ?s' = Ok 0 ?t"
      using copyout_ok [of ?s' ?root ?a "[?c]"] Suc.prems(1) um by (simp add: m_def)
    have fr: "user_wf m ?root" "umapped m ?root = umapped (mem s) ?root" "uaddr m ?root = uaddr (mem s) ?root"
      by (rule uwrite_frame [OF Suc.prems(1) _ m_def]; use um in blast)+
    have m: "uwrite (uaddr (mem s) ?root) m (?a + 1) ds = uwrite (uaddr (mem s) ?root) (mem s) ?a (?c # ds)"
      by (simp add: m_def)
    have "piperead_loop k (Suc i) pi addr p ?t = Ok (Suc i + length ds) (?t\<lparr>
        mem := uwrite (uaddr (mem ?t) (ppagetable (procs ?t p))) (mem ?t) (addr + of_nat (Suc i)) ds,
        pipes := (pipes ?t)(pi := pipe_drop (length ds) (pipes ?t pi))\<rparr>)"
      by (rule Suc.IH) (use Suc.prems fr in \<open>auto simp: ds_def\<close>)
    then show ?thesis
      using False co fr(3) m by (simp add: kop_simps cs pipe_drop_Suc algebra_simps fun_upd_def cong: if_cong del: funpow.simps uwrite.simps)
  qed
qed

section \<open>The two operations\<close>

lemma pipewrite_ok:
  assumes "in_proc p (lks s)" and "pkilled (procs s p) = 0" and "readopen (pipes s pi)"
    and "length (pipe_contents (pipes s pi)) + n \<le> PIPESIZE"
    and "user_wf (mem s) (ppagetable (procs s p))" and "unat addr + n \<le> 2 ^ 38"
    and "\<And>j. j < n \<Longrightarrow> umapped (mem s) (ppagetable (procs s p)) (addr + of_nat j)"
  shows "pipewrite env pi addr (int n) s = Ok (int n) (s\<lparr>lks := settle (lks s),
    procs := wake (ChNread pi) (others (Some p)) (procs s),
    pipes := (pipes s)(pi := fold pipe_put (uread (mem s) (ppagetable (procs s p)) addr n) (pipes s pi))\<rparr>)"
proof -
  note L = in_procD [OF assms(1)]
  let ?L = "settle (lks s)"
  let ?s = "s\<lparr>lks := acq (LkPipe pi) ?L\<rparr>"
  have av: "\<And>lk. avail lk ?L" using L(4) by (simp add: lock_simps)
  have 1: "pipewrite_loop env pi addr p 0 n ?s = Ok (Some n) (?s\<lparr>pipes := (pipes ?s)(pi :=
      fold pipe_put (drop 0 (uread (mem ?s) (ppagetable (procs ?s p)) addr n)) (pipes ?s pi))\<rparr>)"
    by (rule pipewrite_loop_ok [of p ?L]) (use assms in simp_all)
  have c: "cproc (thiscpu (acq (LkPipe pi) ?L)) = Some p" using L(2) by simp
  have "\<forall>i\<in>others (Some p). avail (LkProc i) (acq (LkPipe pi) ?L)" using av by (auto intro!: avail_acq)
  then show ?thesis
    using L c av 1 by (simp add: pipewrite_def kop_simps lock_simps)
qed

lemma piperead_ok:
  assumes "in_proc p (lks s)" and "pipe_contents (pipes s pi) \<noteq> [] \<or> \<not> writeopen (pipes s pi)"
    and "user_wf (mem s) (ppagetable (procs s p))" and "unat addr + n \<le> 2 ^ 38"
    and "\<And>j. j < n \<Longrightarrow> umapped (mem s) (ppagetable (procs s p)) (addr + of_nat j)"
    and "cs = take n (pipe_contents (pipes s pi))"
  shows "piperead env pi addr (int n) s = Ok (int (length cs)) (s\<lparr>lks := settle (lks s),
    procs := wake (ChNwrite pi) (others (Some p)) (procs s),
    mem := uwrite (uaddr (mem s) (ppagetable (procs s p))) (mem s) addr cs,
    pipes := (pipes s)(pi := pipe_drop (length cs) (pipes s pi))\<rparr>)"
proof -
  note L = in_procD [OF assms(1)]
  let ?L = "settle (lks s)"
  let ?s = "s\<lparr>lks := acq (LkPipe pi) ?L\<rparr>"
  have av: "\<And>lk. avail lk ?L" using L(4) by (simp add: lock_simps)
  have 1: "piperead_loop n 0 pi addr p ?s = Ok (0 + length cs) (?s\<lparr>
      mem := uwrite (uaddr (mem ?s) (ppagetable (procs ?s p))) (mem ?s) (addr + of_nat 0) cs,
      pipes := (pipes ?s)(pi := pipe_drop (length cs) (pipes ?s pi))\<rparr>)"
    by (rule piperead_loop_ok) (use assms in simp_all)
  have w: "piperead_wait env pi p ?s = Ok True ?s"
    using assms(2) by (cases env) (auto simp: kop_simps pipe_empty)
  have c: "cproc (thiscpu (acq (LkPipe pi) ?L)) = Some p" using L(2) by simp
  have "\<forall>i\<in>others (Some p). avail (LkProc i) (acq (LkPipe pi) ?L)" using av by (auto intro!: avail_acq)
  then show ?thesis
    using L c av 1 w by (simp add: piperead_def kop_simps lock_simps)
qed

section \<open>Properties\<close>

text \<open>
  C8: A pipe is a queue. The bytes \<open>pipewrite\<close> takes from the writer's memory are, after
  those already in the pipe, exactly what \<open>piperead\<close> stores in the reader's memory, in the
  same order, and the pipe is empty again. The counters may wrap around.
\<close>

theorem pipe_fifo:
  assumes "in_proc p (lks s)" and "pkilled (procs s p) = 0" and "readopen (pipes s pi)"
    and "root = ppagetable (procs s p)" and "old = pipe_contents (pipes s pi)"
    and "0 < n" and "length old + n \<le> PIPESIZE" and "user_wf (mem s) root"
    and "unat a + n \<le> unat MAXVA" and "unat b + (length old + n) \<le> unat MAXVA"
    and "\<And>j. j < n \<Longrightarrow> umapped (mem s) root (a + of_nat j)"
    and "\<And>j. j < length old + n \<Longrightarrow> umapped (mem s) root (b + of_nat j)"
  shows "\<exists>t u. pipewrite env pi a (int n) s = Ok (int n) t \<and>
    piperead env pi b (int (length old + n)) t = Ok (int (length old + n)) u \<and>
    uread (mem u) root b (length old + n) = old @ uread (mem s) root a n \<and>
    pipe_contents (pipes u pi) = []"
proof -
  let ?bs = "uread (mem s) root a n"
  let ?t = "s\<lparr>lks := settle (lks s), procs := wake (ChNread pi) (others (Some p)) (procs s),
    pipes := (pipes s)(pi := fold pipe_put ?bs (pipes s pi))\<rparr>"
  have len: "length ?bs = n" by (simp add: uread_def)
  have w: "pipewrite env pi a (int n) s = Ok (int n) ?t"
    using pipewrite_ok [of p s pi n a env] assms by simp
  have pc: "pipe_contents (pipes ?t pi) = old @ ?bs"
    using pq.put_list [of "pipes s pi" ?bs] assms(5,7) len by simp
  have me: "procs ?t p = procs s p" by (simp add: wake_def others_def)
  have "piperead env pi b (int (length old + n)) ?t = Ok (int (length (old @ ?bs))) (?t\<lparr>lks := settle (lks ?t),
    procs := wake (ChNwrite pi) (others (Some p)) (procs ?t),
    mem := uwrite (uaddr (mem ?t) (ppagetable (procs ?t p))) (mem ?t) b (old @ ?bs),
    pipes := (pipes ?t)(pi := pipe_drop (length (old @ ?bs)) (pipes ?t pi))\<rparr>)" (is "_ = Ok _ ?u")
    by (rule piperead_ok) (use assms pc len me in \<open>auto simp: lock_simps\<close>)
  moreover have "uread (mem ?u) root b (length (old @ ?bs)) = old @ ?bs"
    using copyout_uread [of "mem s" root "old @ ?bs" b] assms me len by simp
  moreover have "pipe_contents (pipes ?u pi) = []"
    using pq.get_list [of "length (old @ ?bs)" "pipes ?t pi"] pc by (simp del: funpow.simps)
  ultimately show ?thesis using w len by auto
qed

theorem pipe_fifo_witness:
  "\<exists>t u. pipewrite [] 0x87000000 16 3 (demo 1) = Ok 3 t \<and> piperead [] 0x87000000 64 3 t = Ok 3 u \<and>
     uread (mem u) pgA 64 3 = uread demo_mem pgA 16 3"
proof -
  have "user_wf demo_mem pgA" by (rule demo_user_wf)
  moreover have "\<And>j. j < 3 \<Longrightarrow> umapped demo_mem pgA (16 + of_nat j)" "\<And>j. j < 3 \<Longrightarrow> umapped demo_mem pgA (64 + of_nat j)"
    by (rule demo_user_bytes [of _ 3]; simp)+
  moreover have "pipe_contents demo_pipe = []" by (simp add: pipe_contents_def demo_pipe_def ring_contents_def)
  ultimately show ?thesis
    using pipe_fifo [of 1 "demo 1" "0x87000000" pgA "[]" 3 16 64 "[]"] demo_in_proc [of 1]
    by (auto simp: demo_pipe_def)
qed

text \<open>
  C31: The ends of a pipe. Writing to a pipe whose read end is closed answers -1 and stores
  nothing; reading from an empty pipe whose write end is closed answers 0; and a writer that
  finds the pipe full and open goes to sleep until a reader makes room.
\<close>

theorem pipe_end_conditions:
  assumes "in_proc p (lks s)" and "0 < n" and "pkilled (procs s p) = 0"
  shows "(\<not> readopen (pipes s pi) \<longrightarrow> pipewrite env pi a n s = Ok (-1) (s\<lparr>lks := settle (lks s)\<rparr>)) \<and>
    (pipe_contents (pipes s pi) = [] \<and> \<not> writeopen (pipes s pi) \<longrightarrow>
      (\<exists>t. piperead env pi a n s = Ok 0 t \<and> mem t = mem s \<and> pipes t = pipes s)) \<and>
    (readopen (pipes s pi) \<and> length (pipe_contents (pipes s pi)) = PIPESIZE \<longrightarrow>
      (\<exists>t. pipewrite [] pi a n s = Stop (Asleep (ChNwrite pi)) t \<and> pipes t = pipes s \<and>
        pstate (procs t p) = SLEEPING \<and> pchan (procs t p) = Some (ChNwrite pi)))"
proof (intro conjI impI)
  note L = in_procD [OF assms(1)]
  let ?L = "settle (lks s)"
  let ?s = "s\<lparr>lks := acq (LkPipe pi) ?L\<rparr>"
  have ip: "in_proc p ?L" using assms(1) by simp
  have av: "\<And>lk. avail lk ?L" using L(4) by (simp add: lock_simps)
  have c: "cproc (thiscpu (acq (LkPipe pi) ?L)) = Some p" using L(2) by simp
  have wk: "\<forall>i\<in>others (Some p). avail (LkProc i) (acq (LkPipe pi) ?L)" using av by (auto intro!: avail_acq)
  obtain k where k: "nat n = Suc k" "0 \<le> n" using assms(2) by (cases "nat n") auto
  {
    assume "\<not> readopen (pipes s pi)"
    then have "pipewrite_loop env pi a p 0 (nat n) ?s = Ok None (s\<lparr>lks := ?L\<rparr>)"
      using av L k by (subst pipewrite_loop.simps) (simp add: kop_simps lock_simps)
    then show "pipewrite env pi a n s = Ok (-1) (s\<lparr>lks := settle (lks s)\<rparr>)"
      using L av by (simp add: pipewrite_def kop_simps lock_simps)
  next
    assume e: "pipe_contents (pipes s pi) = [] \<and> \<not> writeopen (pipes s pi)"
    then have "piperead_wait env pi p ?s = Ok True ?s" by (cases env) (auto simp: kop_simps pipe_empty)
    moreover have "piperead_loop (nat n) 0 pi a p ?s = Ok 0 ?s"
      using e k by (simp add: kop_simps pipe_empty)
    ultimately show "\<exists>t. piperead env pi a n s = Ok 0 t \<and> mem t = mem s \<and> pipes t = pipes s"
      using L av c wk by (simp add: piperead_def kop_simps lock_simps)
  next
    assume f: "readopen (pipes s pi) \<and> length (pipe_contents (pipes s pi)) = PIPESIZE"
    have full: "nwrite (pipes s pi) = nread (pipes s pi) + of_nat PIPESIZE"
    proof -
      have "of_nat (unat (nwrite (pipes s pi) - nread (pipes s pi))) = (of_nat PIPESIZE :: u32)"
        using f by (simp add: pipe_contents_def)
      then show ?thesis by (simp add: algebra_simps)
    qed
    have kd: "killed p ?s = Ok 0 ?s" using av assms(3) L by (simp add: killed_ok lock_simps)
    let ?u = "?s\<lparr>procs := wake (ChNread pi) (others (Some p)) (procs s)\<rparr>"
    have wu: "wakeup (ChNread pi) ?s = Ok () ?u" using c wk L by (simp add: lock_simps)
    obtain t where "sleep (blocked (ChNwrite pi)) (ChNwrite pi) (LkPipe pi) ?u = Stop (Asleep (ChNwrite pi)) t"
      "pipes t = pipes s" "pstate (procs t p) = SLEEPING" "pchan (procs t p) = Some (ChNwrite pi)"
      using sleep_enter [of "LkPipe pi" ?L ?u p "blocked (ChNwrite pi)" "ChNwrite pi"] ip av L
      by (auto simp: kop_simps)
    then have "\<exists>t. pipewrite_loop [] pi a p 0 (nat n) ?s = Stop (Asleep (ChNwrite pi)) t \<and> pipes t = pipes s \<and>
        pstate (procs t p) = SLEEPING \<and> pchan (procs t p) = Some (ChNwrite pi)"
      using f full k kd wu by (subst pipewrite_loop.simps) (simp add: kop_simps)
    then show "\<exists>t. pipewrite [] pi a n s = Stop (Asleep (ChNwrite pi)) t \<and> pipes t = pipes s \<and>
        pstate (procs t p) = SLEEPING \<and> pchan (procs t p) = Some (ChNwrite pi)"
      using L av by (auto simp: pipewrite_def kop_simps lock_simps)
  }
qed

theorem pipe_end_conditions_witness:
  "pipewrite [] 7 16 3 ((demo 1)\<lparr>pipes := (\<lambda>_. demo_pipe\<lparr>readopen := False\<rparr>)\<rparr>) =
     Ok (-1) ((demo 1)\<lparr>pipes := (\<lambda>_. demo_pipe\<lparr>readopen := False\<rparr>), lks := settle (lks (demo 1))\<rparr>) \<and>
   (\<exists>t. piperead [] 7 16 3 ((demo 1)\<lparr>pipes := (\<lambda>_. demo_pipe\<lparr>writeopen := False\<rparr>)\<rparr>) = Ok 0 t)"
proof
  have e: "pipe_contents (demo_pipe\<lparr>writeopen := b\<rparr>) = []" for b
    by (simp add: pipe_contents_def demo_pipe_def ring_contents_def)
  have i: "in_proc 1 (lks (demo 1))" by (rule demo_in_proc) simp
  show "pipewrite [] 7 16 3 ((demo 1)\<lparr>pipes := (\<lambda>_. demo_pipe\<lparr>readopen := False\<rparr>)\<rparr>) =
     Ok (-1) ((demo 1)\<lparr>pipes := (\<lambda>_. demo_pipe\<lparr>readopen := False\<rparr>), lks := settle (lks (demo 1))\<rparr>)"
    using pipe_end_conditions [of 1 "(demo 1)\<lparr>pipes := (\<lambda>_. demo_pipe\<lparr>readopen := False\<rparr>)\<rparr>" 3 7 "[]" 16] i
    by simp
  show "\<exists>t. piperead [] 7 16 3 ((demo 1)\<lparr>pipes := (\<lambda>_. demo_pipe\<lparr>writeopen := False\<rparr>)\<rparr>) = Ok 0 t"
    using pipe_end_conditions [of 1 "(demo 1)\<lparr>pipes := (\<lambda>_. demo_pipe\<lparr>writeopen := False\<rparr>)\<rparr>" 3 7 "[]" 16] i e
    by auto
qed

end
