(* ===== verification/Bio_Ring.thy ===== *)
theory Bio_Ring
  imports Bio
begin

text \<open>
  The list of the buffer cache: a ring of buffers through \<open>bnext\<close> and \<open>bprev\<close> with the
  head in it, abstracted to the list of its buffers, most recently used first.
\<close>

section \<open>Rings\<close>

fun adj :: "'a list \<Rightarrow> ('a \<times> 'a) list" where
  "adj (x # y # zs) = (x, y) # adj (y # zs)"
| "adj xs = []"

definition linked :: "('a \<Rightarrow> 'a) \<Rightarrow> ('a \<Rightarrow> 'a) \<Rightarrow> 'a list \<Rightarrow> bool" where
  "linked nx pv ys \<longleftrightarrow> (\<forall>(u, v) \<in> set (adj ys). nx u = v \<and> pv v = u)"

lemma linked_simps [simp]:
  "linked nx pv []" "linked nx pv [x]"
  "linked nx pv (x # y # zs) \<longleftrightarrow> nx x = y \<and> pv y = x \<and> linked nx pv (y # zs)"
  by (auto simp: linked_def)

lemma linked_append:
  "linked nx pv (xs @ y # z # ys) \<longleftrightarrow> linked nx pv (xs @ [y]) \<and> linked nx pv (y # z # ys)"
proof (induction xs)
  case (Cons x xs)
  then show ?case by (cases xs) auto
qed simp

lemma linked_rev: "linked nx pv (rev ys) = linked pv nx ys"
proof (induction ys)
  case (Cons y ys)
  then show ?case by (cases ys) (auto simp: linked_append)
qed simp

lemma linked_cong:
  assumes "\<And>x. x \<in> set (butlast ys) \<Longrightarrow> nx x = nx' x" and "\<And>x. x \<in> set (tl ys) \<Longrightarrow> pv x = pv' x"
  shows "linked nx pv ys = linked nx' pv' ys"
  using assms
proof (induction ys)
  case (Cons y ys)
  then show ?case by (cases ys) auto
qed simp

definition ring :: "('a \<Rightarrow> 'a) \<Rightarrow> ('a \<Rightarrow> 'a) \<Rightarrow> 'a \<Rightarrow> 'a list \<Rightarrow> bool" where
  "ring nx pv h xs \<longleftrightarrow> distinct (h # xs) \<and> linked nx pv (h # xs @ [h])"

lemma ring_rev: "ring nx pv h xs \<Longrightarrow> ring pv nx h (rev xs)"
  using linked_rev [of pv nx "h # xs @ [h]"] by (simp add: ring_def)

text \<open>
  Taking an element out of a ring and putting one behind the head: the assignments of
  \<open>binit\<close> and \<open>brelse\<close>.
\<close>

lemma ring_unlink:
  assumes "ring nx pv h (us @ b # vs)"
  shows "ring (nx(pv b := nx b)) (pv(nx b := pv b)) h (us @ vs)"
proof -
  obtain p l where l: "h # us = p @ [l]" by (metis append_butlast_last_id list.distinct(1))
  obtain r q where r: "vs @ [h] = r # q" by (cases "vs @ [h]") auto
  have d: "distinct (h # us @ b # vs)" and k: "linked nx pv ((h # us) @ b # (vs @ [h]))"
    using assms by (simp_all add: ring_def)
  have "linked nx pv ((p @ [l]) @ b # (r # q))" using k unfolding l r .
  then have 1: "linked nx pv (p @ [l])" "nx l = b" "pv b = l" "nx b = r" "linked nx pv (r # q)"
    by (simp_all add: linked_append)
  have lr: "l \<in> set (h # us)" "set p \<subseteq> set (h # us)" "l \<notin> set p" "set (tl (p @ [l])) = set us"
  proof -
    have "set (h # us) = set (p @ [l])" "distinct (p @ [l])" "tl (p @ [l]) = us"
      using d unfolding l [symmetric] by simp_all
    then show "l \<in> set (h # us)" "set p \<subseteq> set (h # us)" "l \<notin> set p" "set (tl (p @ [l])) = set us" by auto
  qed
  have rq: "r \<in> set (vs @ [h])" "r \<notin> set q" "set (butlast (r # q)) = set vs"
    using d r by (cases vs; auto)+
  have "linked (nx(l := r)) (pv(r := l)) (p @ [l])"
    using 1(1) lr rq(1) d by (subst linked_cong [where nx' = nx and pv' = pv]) auto
  moreover have "linked (nx(l := r)) (pv(r := l)) (r # q)"
    using 1(5) lr(1) rq d by (subst linked_cong [where nx' = nx and pv' = pv]) auto
  ultimately have "linked (nx(l := r)) (pv(r := l)) ((p @ [l]) @ (r # q))"
    by (simp add: linked_append [of _ _ p l r q])
  then show ?thesis using d 1 unfolding l [symmetric] r [symmetric] by (simp add: ring_def)
qed

lemma ring_insert:
  assumes "ring nx pv h xs" and "b \<notin> set (h # xs)"
  shows "ring (nx(b := nx h, h := b)) (pv(b := h, nx h := b)) h (b # xs)"
proof -
  obtain r q where r: "xs @ [h] = r # q" by (cases "xs @ [h]") auto
  have d: "distinct (h # xs)" and l: "nx h = r" "linked nx pv (r # q)"
    using assms(1) by (simp_all add: ring_def r)
  have rq: "r \<in> set (h # xs)" "r \<notin> set q" "set (butlast (r # q)) = set xs" "set q \<subseteq> set (h # xs)"
    using d r by (cases xs; auto)+
  have "linked (nx(b := r, h := b)) (pv(b := h, r := b)) (r # q)"
    using l(2) rq d assms(2) by (subst linked_cong [where nx' = nx and pv' = pv]) auto
  then show ?thesis using d l rq assms(2) by (auto simp: ring_def r)
qed

lemma ring_alone: "ring nx pv h [] \<longleftrightarrow> nx h = h \<and> pv h = h"
  by (auto simp: ring_def)

lemma bscan_find:
  assumes "linked link pv (x # xs @ [bhead])" and "bhead \<notin> set xs" and "length xs < n"
  shows "bscan n link P (link x) = Some (find P xs)"
  using assms
proof (induction xs arbitrary: n x)
  case Nil
  then show ?case by (cases n) simp_all
next
  case (Cons y ys)
  then show ?case by (cases n) auto
qed

lemma ring_scan:
  assumes "ring nx pv bhead xs" and "length xs < n"
  shows "bscan n nx P (nx bhead) = Some (find P xs)" "bscan n pv P (pv bhead) = Some (find P (rev xs))"
  using assms bscan_find [of nx pv bhead xs n P] ring_rev [OF assms(1)] bscan_find [of pv nx bhead "rev xs" n P]
  by (simp_all add: ring_def)

end
