(* ===== verification/Outcome.thy ===== *)
theory Outcome
  imports Prelude
begin

text \<open>
  Reasoning about operations that may stop half-way: \<open>kout m Q E s\<close> says that from \<open>s\<close>
  the operation returns with \<open>Q\<close>, or stops in a state with \<open>E\<close>. With \<open>E\<close> false it is
  total correctness; with \<open>E\<close> a condition on the disk it covers a loss of power.
\<close>

definition kout :: "('s, 'a) kop \<Rightarrow> ('a \<Rightarrow> 's \<Rightarrow> bool) \<Rightarrow> ('s \<Rightarrow> bool) \<Rightarrow> 's \<Rightarrow> bool" where
  "kout m Q E s \<longleftrightarrow> (case m s of Ok a t \<Rightarrow> Q a t | Stop h t \<Rightarrow> E t)"

named_theorems kout_simps \<open>outcomes of the combinators\<close>

lemma kout_Ok: "m s = Ok a t \<Longrightarrow> kout m Q E s = Q a t"
  by (simp add: kout_def)

lemma kout_Stop: "m s = Stop h t \<Longrightarrow> kout m Q E s = E t"
  by (simp add: kout_def)

lemma kout_OkD: "kout m Q E s \<Longrightarrow> m s = Ok a t \<Longrightarrow> Q a t"
  by (simp add: kout_def)

lemma kout_StopD: "kout m Q E s \<Longrightarrow> m s = Stop h t \<Longrightarrow> E t"
  by (simp add: kout_def)

lemma kout_total: "kout m Q (\<lambda>_. False) s \<longleftrightarrow> (\<exists>a t. m s = Ok a t \<and> Q a t)"
  by (simp add: kout_def split: kres.split)

lemma kout_kret [kout_simps]: "kout (kret a) Q E s = Q a s"
  by (simp add: kout_def kret_def)

lemma kout_kget [kout_simps]: "kout (kget f) Q E s = Q (f s) s"
  by (simp add: kout_def kget_def)

lemma kout_kmod [kout_simps]: "kout (kmod f) Q E s = Q () (f s)"
  by (simp add: kout_def kmod_def)

lemma kout_kbind [kout_simps]: "kout (kbind m f) Q E s = kout m (\<lambda>a. kout (f a) Q E) E s"
  by (simp add: kout_def kbind_def split: kres.split)

lemma kout_kwhen [kout_simps]: "kout (kwhen b m) Q E s = (if b then kout m Q E s else Q () s)"
  by (simp add: kwhen_def kout_kret)

lemma kout_mono:
  "kout m Q E s \<Longrightarrow> (\<And>a t. Q a t \<Longrightarrow> Q' a t) \<Longrightarrow> (\<And>t. E t \<Longrightarrow> E' t) \<Longrightarrow> kout m Q' E' s"
  by (simp add: kout_def split: kres.splits)

lemma kout_bindI:
  assumes "kout m Q E s" and "\<And>a t. Q a t \<Longrightarrow> kout (f a) Q' E' t" and "\<And>t. E t \<Longrightarrow> E' t"
  shows "kout (kbind m f) Q' E' s"
  unfolding kout_kbind using assms by (rule kout_mono)

text \<open>A loop with an invariant over the number of rounds done.\<close>

lemma kout_kfor:
  assumes "I 0 s" and "\<And>i t. i < n \<Longrightarrow> I i t \<Longrightarrow> kout (body i) (\<lambda>_. I (Suc i)) E t"
  shows "kout (kfor [0..<n] body) (\<lambda>_. I n) E s"
proof -
  have "kout (kfor [i..<n] body) (\<lambda>_. I n) E t" if "i \<le> n" "I i t" for i t
    using that
  proof (induction "n - i" arbitrary: i t)
    case 0
    then show ?case by (simp add: kout_simps)
  next
    case (Suc k)
    then have i: "i < n" by simp
    then have "[i..<n] = i # [Suc i..<n]" by (simp add: upt_conv_Cons)
    moreover have "kout (kseq (body i) (kfor [Suc i..<n] body)) (\<lambda>_. I n) E t"
      by (rule kout_bindI [OF assms(2) [OF i Suc.prems(2)]]) (use Suc.hyps i in auto)
    ultimately show ?case by simp
  qed
  from this [of 0 s] assms(1) show ?thesis by simp
qed

end
