(* ===== verification/Bio_Spec.thy ===== *)
theory Bio_Spec
  imports Bio_Ring Virtio_Rw Outcome
begin

text \<open>
  What the buffer cache promises. The abstract state maps every block number to its content,
  the number of references, the holder of its lock and the buffer that represents it while
  it is referenced. Each operation of \<open>bio.c\<close> changes the entry of one block; all the rest,
  the recycling of buffers and the order of the list, is invisible. The disk may lose power
  at any request: then the platter is as before the request.
\<close>

section \<open>Abstraction\<close>

definition pblk :: "(nat \<Rightarrow> byte) \<Rightarrow> u32 \<Rightarrow> block" where
  "pblk pl bn k = (if k < BSIZE then platter_block pl (unat bn) k else 0)"

definition bcut :: "block \<Rightarrow> block" where
  "bcut d k = (if k < BSIZE then d k else 0)"

record ablock =
  a_view :: block
  a_pins :: u32
  a_lock :: "int option"
  a_buf :: "nat option"

definition hot :: "'x diskstate_scheme \<Rightarrow> nat \<Rightarrow> u32 \<Rightarrow> bool" where
  "hot s b bn \<longleftrightarrow> b < NBUF \<and> refcnt (bufs s b) \<noteq> 0 \<and> blockno (bufs s b) = bn"

definition cold :: "(nat \<Rightarrow> byte) \<Rightarrow> u32 \<Rightarrow> ablock" where
  "cold pl bn = \<lparr>a_view = pblk pl bn, a_pins = 0, a_lock = None, a_buf = None\<rparr>"

definition ab_of :: "'x diskstate_scheme \<Rightarrow> nat \<Rightarrow> ablock" where
  "ab_of s b = \<lparr>a_view = bcut (bdata (bufs s b)), a_pins = refcnt (bufs s b),
     a_lock = (if sl_locked (slocks s (SlBuf b)) = 0 then None else Some (sl_pid (slocks s (SlBuf b)))),
     a_buf = Some b\<rparr>"

definition cache :: "'x diskstate_scheme \<Rightarrow> u32 \<Rightarrow> ablock" where
  "cache s bn = (case find (\<lambda>b. hot s b bn) [0..<NBUF] of None \<Rightarrow> cold (platter s) bn | Some b \<Rightarrow> ab_of s b)"

text \<open>
  The invariant: the list is a ring of all buffers, a block has at most one buffer, a buffer
  nobody refers to is unlocked and clean, one that is referred to holds a block of the disk.
\<close>

definition bring :: "(nat \<Rightarrow> buf) \<Rightarrow> nat list \<Rightarrow> bool" where
  "bring B xs \<longleftrightarrow> ring (\<lambda>b. bnext (B b)) (\<lambda>b. bprev (B b)) bhead xs \<and> set xs = {..<NBUF}"

definition buf_ok :: "'x diskstate_scheme \<Rightarrow> nat \<Rightarrow> bool" where
  "buf_ok s b \<longleftrightarrow>
     (if refcnt (bufs s b) = 0
      then sl_locked (slocks s (SlBuf b)) = 0 \<and>
        (valid (bufs s b) \<and> bdev (bufs s b) = 1 \<longrightarrow> bcut (bdata (bufs s b)) = pblk (platter s) (blockno (bufs s b)))
      else valid (bufs s b) \<and> bdev (bufs s b) = 1 \<and> unat (blockno (bufs s b)) < 2 ^ 31)"

definition one_buf :: "(nat \<Rightarrow> buf) \<Rightarrow> bool" where
  "one_buf B \<longleftrightarrow> (\<forall>a<NBUF. \<forall>b<NBUF. bdev (B a) = 1 \<and> bdev (B b) = 1 \<and> blockno (B a) = blockno (B b) \<longrightarrow> a = b)"

definition bufs_ok :: "'x diskstate_scheme \<Rightarrow> bool" where
  "bufs_ok s \<longleftrightarrow> (\<exists>xs. bring (bufs s) xs) \<and> (\<forall>b<NBUF. buf_ok s b) \<and> one_buf (bufs s)"

definition bc_ok :: "nat \<Rightarrow> 'x diskstate_scheme \<Rightarrow> bool" where
  "bc_ok p s \<longleftrightarrow> proc_ready p s \<and> vd_idle (vd s) \<and> failing_device (device s) \<and> bufs_ok s"

lemma bcut_bcut [simp]: "bcut (bcut d) = bcut d"
  by (simp add: bcut_def fun_eq_iff)

lemma bcut_pblk [simp]: "bcut (pblk pl bn) = pblk pl bn"
  by (simp add: bcut_def pblk_def fun_eq_iff)

lemma cold_simps [simp]:
  "a_view (cold pl bn) = pblk pl bn" "a_pins (cold pl bn) = 0" "a_lock (cold pl bn) = None" "a_buf (cold pl bn) = None"
  by (simp_all add: cold_def)

lemma ab_of_simps [simp]:
  "a_view (ab_of s b) = bcut (bdata (bufs s b))" "a_pins (ab_of s b) = refcnt (bufs s b)" "a_buf (ab_of s b) = Some b"
  "a_lock (ab_of s b) = (if sl_locked (slocks s (SlBuf b)) = 0 then None else Some (sl_pid (slocks s (SlBuf b))))"
  by (simp_all add: ab_of_def)

lemma find_in: "find P xs = Some x \<Longrightarrow> P x \<and> x \<in> set xs"
  by (auto simp: find_Some_iff)

lemma hot_unique: "bufs_ok s \<Longrightarrow> hot s a bn \<Longrightarrow> hot s b bn \<Longrightarrow> a = b"
  by (simp add: hot_def bufs_ok_def buf_ok_def one_buf_def)

lemma cache_hot:
  assumes "bufs_ok s" and "hot s b bn"
  shows "cache s bn = ab_of s b"
proof (cases "find (\<lambda>b. hot s b bn) [0..<30]")
  case None
  then show ?thesis using assms(2) by (auto simp: find_None_iff hot_def)
next
  case (Some a)
  then have "hot s a bn" by (auto dest: find_in)
  then show ?thesis using Some hot_unique [OF assms(1) _ assms(2)] by (simp add: cache_def)
qed

lemma cache_cold: "(\<And>b. \<not> hot s b bn) \<Longrightarrow> cache s bn = cold (platter s) bn"
  by (simp add: cache_def find_None_iff [THEN iffD2])

lemma cache_cases [consumes 1]:
  assumes "bufs_ok s"
  obtains (hot) b where "hot s b bn" "cache s bn = ab_of s b"
  | (cold) "\<And>b. \<not> hot s b bn" "cache s bn = cold (platter s) bn"
  using cache_hot [OF assms] cache_cold by blast

lemma cache_buf: "bufs_ok s \<Longrightarrow> a_buf (cache s bn) = Some b \<longleftrightarrow> hot s b bn"
  by (metis ab_of_simps(3) cache_hot cache_cold cold_simps(4) option.distinct(1) option.inject)

lemma cache_pins: "bufs_ok s \<Longrightarrow> a_pins (cache s bn) \<noteq> 0 \<longleftrightarrow> (\<exists>b. hot s b bn)"
  by (metis ab_of_simps(2) cache_hot cache_cold cold_simps(2) hot_def)

text \<open>Operations touch one buffer; \<open>apart b s t\<close> says that the others are the same.\<close>

definition core :: "buf \<Rightarrow> bool \<times> u32 \<times> u32 \<times> u32 \<times> block" where
  "core x = (valid x, bdev x, blockno x, refcnt x, bdata x)"

definition apart :: "nat \<Rightarrow> 'x diskstate_scheme \<Rightarrow> 'x diskstate_scheme \<Rightarrow> bool" where
  "apart b s t \<longleftrightarrow> (\<forall>a<NBUF. a \<noteq> b \<longrightarrow> core (bufs t a) = core (bufs s a) \<and> slocks t (SlBuf a) = slocks s (SlBuf a) \<and>
     (refcnt (bufs s a) = 0 \<and> bdev (bufs s a) = 1 \<longrightarrow>
        pblk (platter t) (blockno (bufs s a)) = pblk (platter s) (blockno (bufs s a))))"

lemma bufs_ok_upd:
  assumes "bufs_ok s" and "apart b s t" and "\<exists>xs. bring (bufs t) xs" and "buf_ok t b"
    and "\<And>a. a < NBUF \<Longrightarrow> a \<noteq> b \<Longrightarrow> bdev (bufs s a) = 1 \<Longrightarrow> bdev (bufs t b) = 1 \<Longrightarrow> blockno (bufs s a) \<noteq> blockno (bufs t b)"
  shows "bufs_ok t"
proof -
  have "buf_ok t a" if "a < 30" for a
    using assms(1,2,4) that by (cases "a = b") (auto simp: bufs_ok_def apart_def buf_ok_def core_def)
  moreover have "one_buf (bufs t)"
    unfolding one_buf_def
  proof (intro allI impI, elim conjE)
    fix a c assume ac: "a < 30" "c < 30" "bdev (bufs t a) = 1" "bdev (bufs t c) = 1" "blockno (bufs t a) = blockno (bufs t c)"
    have same: "bdev (bufs t x) = bdev (bufs s x) \<and> blockno (bufs t x) = blockno (bufs s x)" if "x < 30" "x \<noteq> b" for x
      using assms(2) that by (simp add: apart_def core_def)
    show "a = c"
    proof (cases "a = b \<or> c = b")
      case True
      then show ?thesis using assms(5) [of a] assms(5) [of c] ac same [of a] same [of c] by metis
    next
      case False
      then show ?thesis using assms(1) ac same [of a] same [of c] by (simp add: bufs_ok_def one_buf_def)
    qed
  qed
  ultimately show ?thesis using assms(3) by (simp add: bufs_ok_def)
qed

lemma cache_upd:
  assumes "bufs_ok s" and "bufs_ok t" and "apart b s t" and "b < NBUF"
    and "\<And>bn'. bn' \<noteq> bn \<Longrightarrow> pblk (platter t) bn' = pblk (platter s) bn'"
    and "\<And>bn'. hot s b bn' \<Longrightarrow> bn' = bn" and "refcnt (bufs t b) \<noteq> 0 \<Longrightarrow> blockno (bufs t b) = bn"
    and "refcnt (bufs t b) = 0 \<Longrightarrow> \<not> (\<exists>a. a \<noteq> b \<and> hot s a bn)"
  shows "cache t = (cache s)(bn := (if refcnt (bufs t b) = 0 then cold (platter t) bn else ab_of t b))"
proof
  fix m
  have other: "hot t a m = hot s a m \<and> (hot s a m \<longrightarrow> ab_of t a = ab_of s a)" if "a \<noteq> b" for a
    using assms(3) that by (auto simp: hot_def apart_def core_def ab_of_def)
  show "cache t m = ((cache s)(bn := (if refcnt (bufs t b) = 0 then cold (platter t) bn else ab_of t b))) m"
  proof (cases "m = bn")
    case True
    have "hot t b bn \<longleftrightarrow> refcnt (bufs t b) \<noteq> 0" using assms(4,7) by (auto simp: hot_def)
    moreover have "\<not> hot t a bn" if "refcnt (bufs t b) = 0" for a
      using assms(8) [OF that] other [of a] that True by (cases "a = b") (auto simp: hot_def)
    ultimately show ?thesis using True cache_hot [OF assms(2), of b bn] cache_cold [of t bn] by auto
  next
    case False
    have b: "\<not> hot t b m" "\<not> hot s b m" using assms(6,7) False by (auto simp: hot_def)
    from assms(1) show ?thesis
    proof (cases rule: cache_cases [where bn = m])
      case (hot a)
      then have "a \<noteq> b" using b by blast
      then show ?thesis using hot other [of a] cache_hot [OF assms(2), of a m] False by simp
    next
      case cold
      have "\<not> hot t a m" for a using cold(1) [of a] other [of a] b by (cases "a = b") auto
      then show ?thesis using cold(2) assms(5) [OF False] False by (simp add: cache_cold)
    qed
  qed
qed

section \<open>The operations on buffers\<close>

lemma bring_length: "bring B xs \<Longrightarrow> length xs = 30"
  using distinct_card [of xs] by (simp add: bring_def ring_def)

lemma bring_scan:
  assumes "bring B xs"
  shows "bscan (Suc NBUF) (\<lambda>b. bnext (B b)) P (bnext (B bhead)) = Some (find P xs)"
    "bscan (Suc NBUF) (\<lambda>b. bprev (B b)) P (bprev (B bhead)) = Some (find P (rev xs))"
proof -
  have r: "ring (\<lambda>b. bnext (B b)) (\<lambda>b. bprev (B b)) bhead xs" and l: "length xs < Suc NBUF"
    using assms bring_length [OF assms] by (simp_all add: bring_def)
  show "bscan (Suc NBUF) (\<lambda>b. bnext (B b)) P (bnext (B bhead)) = Some (find P xs)"
    by (rule ring_scan(1) [OF r l])
  show "bscan (Suc NBUF) (\<lambda>b. bprev (B b)) P (bprev (B bhead)) = Some (find P (rev xs))"
    by (rule ring_scan(2) [OF r l])
qed

lemma bget_hit:
  assumes "in_proc p (lks s)" and "bring (bufs s) xs"
    and "find (\<lambda>b. bdev (bufs s b) = dev \<and> blockno (bufs s b) = bn) xs = Some b"
    and "sl_locked (slocks s (SlBuf b)) = 0"
  shows "bget dev bn s = Ok b (s\<lparr>lks := settle (lks s),
    bufs := (bufs s)(b := (bufs s b)\<lparr>refcnt := refcnt (bufs s b) + 1\<rparr>),
    slocks := (slocks s)(SlBuf b := (slocks s (SlBuf b))\<lparr>sl_locked := 1, sl_pid := ppid (procs s p)\<rparr>)\<rparr>)"
proof -
  note L = in_procD [OF assms(1)] and scan = bring_scan [OF assms(2), simplified]
  show ?thesis
    using L assms(1,3,4)
    unfolding bget_def by (simp add: acquiresleep_free [where p = p] kop_simps lock_simps scan del: bscan.simps)
qed

lemma bget_miss:
  assumes "in_proc p (lks s)" and "bring (bufs s) xs"
    and "find (\<lambda>b. bdev (bufs s b) = dev \<and> blockno (bufs s b) = bn) xs = None"
    and "find (\<lambda>b. refcnt (bufs s b) = 0) (rev xs) = Some b"
    and "sl_locked (slocks s (SlBuf b)) = 0"
  shows "bget dev bn s = Ok b (s\<lparr>lks := settle (lks s),
    bufs := (bufs s)(b := (bufs s b)\<lparr>bdev := dev, blockno := bn, valid := False, refcnt := 1\<rparr>),
    slocks := (slocks s)(SlBuf b := (slocks s (SlBuf b))\<lparr>sl_locked := 1, sl_pid := ppid (procs s p)\<rparr>)\<rparr>)"
proof -
  note L = in_procD [OF assms(1)] and scan = bring_scan [OF assms(2), simplified]
  show ?thesis
    using L assms(1,3,4,5)
    unfolding bget_def by (simp add: acquiresleep_free [where p = p] kop_simps lock_simps scan del: bscan.simps)
qed

lemma bget_none:
  assumes "in_proc p (lks s)" and "bring (bufs s) xs"
    and "find (\<lambda>b. bdev (bufs s b) = dev \<and> blockno (bufs s b) = bn) xs = None"
    and "find (\<lambda>b. refcnt (bufs s b) = 0) (rev xs) = None"
  shows "\<exists>t. bget dev bn s = Stop (Panicked ''bget: no buffers'') t"
proof -
  note L = in_procD [OF assms(1)] and scan = bring_scan [OF assms(2), simplified]
  show ?thesis
    using L assms(1,3,4)
    unfolding bget_def by (simp add: kop_simps lock_simps scan del: bscan.simps)
qed

text \<open>The blocks in use; a buffer is free when they are fewer than \<open>NBUF\<close>.\<close>

definition pinned :: "'x diskstate_scheme \<Rightarrow> u32 set" where
  "pinned s = {bn. a_pins (cache s bn) \<noteq> 0}"

lemma pinned_blocks:
  assumes "bufs_ok s"
  shows "pinned s = (\<lambda>b. blockno (bufs s b)) ` {b. b < NBUF \<and> refcnt (bufs s b) \<noteq> 0}"
  using cache_pins [OF assms] by (auto simp: pinned_def hot_def)

lemma free_buf:
  assumes "bufs_ok s" and "card (pinned s) < NBUF"
  shows "\<exists>b<NBUF. refcnt (bufs s b) = 0"
proof (rule ccontr)
  assume "\<not> (\<exists>b<NBUF. refcnt (bufs s b) = 0)"
  then have all: "refcnt (bufs s b) \<noteq> 0" if "b < 30" for b using that by blast
  have dev: "bdev (bufs s b) = 1" if "b < 30" for b
    using all [OF that] that assms(1) by (auto simp: bufs_ok_def buf_ok_def)
  have "inj_on (\<lambda>b. blockno (bufs s b)) {..<30}"
    using assms(1) dev by (auto simp: inj_on_def bufs_ok_def one_buf_def)
  then have "card ((\<lambda>b. blockno (bufs s b)) ` {..<30}) = 30" by (simp add: card_image)
  moreover have "pinned s = (\<lambda>b. blockno (bufs s b)) ` {..<30}"
    using pinned_blocks [OF assms(1)] all by (auto simp: image_def)
  ultimately show False using assms(2) by simp
qed

definition dsys :: "nat \<Rightarrow> 'x diskstate_scheme \<Rightarrow> 'x diskstate_scheme \<Rightarrow> bool" where
  "dsys p s t \<longleftrightarrow> (\<exists>ks ps sl v r B pl. t = s\<lparr>lks := ks, procs := ps, slocks := sl, vd := v, vregs := r, bufs := B, platter := pl\<rparr> \<and>
     ps p = procs s p)"

lemma dsysI: "ps p = procs s p \<Longrightarrow>
    dsys p s (s\<lparr>lks := ks, procs := ps, slocks := sl, vd := v, vregs := r, bufs := B, platter := pl\<rparr>)"
  unfolding dsys_def by blast

lemma dsys_refl [simp]: "dsys p s s"
  using dsysI [where ps = "procs s" and s = s and ks = "lks s" and sl = "slocks s" and v = "vd s" and
    r = "vregs s" and B = "bufs s" and pl = "platter s"] by simp

lemma dsys_trans [trans]: "dsys p s t \<Longrightarrow> dsys p t u \<Longrightarrow> dsys p s u"
  unfolding dsys_def [of p s t] dsys_def [of p t u] by (elim exE conjE) (simp add: dsysI)

lemma dsys_simps: "dsys p s t \<Longrightarrow> procs t p = procs s p" "dsys p s t \<Longrightarrow> device t = device s"
  by (auto simp: dsys_def)

abbreviation (input) taken :: "'x diskstate_scheme \<Rightarrow> nat \<Rightarrow> nat \<Rightarrow> sleepid \<Rightarrow> sleeplock" where
  "taken s p b \<equiv> (slocks s)(SlBuf b := (slocks s (SlBuf b))\<lparr>sl_locked := 1, sl_pid := ppid (procs s p)\<rparr>)"

lemma bget_spec:
  assumes "bc_ok p s" and "a_lock (cache s bn) = None" and "a_pins (cache s bn) \<noteq> 0 \<or> card (pinned s) < NBUF"
  obtains b x where "bget 1 bn s = Ok b (s\<lparr>lks := settle (lks s), bufs := (bufs s)(b := x), slocks := taken s p b\<rparr>)"
    and "b < NBUF" and "bdev x = 1" and "blockno x = bn" and "refcnt x = a_pins (cache s bn) + 1"
    and "bnext x = bnext (bufs s b)" and "bprev x = bprev (bufs s b)"
    and "valid x \<Longrightarrow> bcut (bdata x) = a_view (cache s bn)" and "\<not> valid x \<Longrightarrow> a_pins (cache s bn) = 0"
    and "\<And>a. a < NBUF \<Longrightarrow> a \<noteq> b \<Longrightarrow> bdev (bufs s a) = 1 \<Longrightarrow> blockno (bufs s a) \<noteq> bn"
    and "\<And>m. hot s b m \<Longrightarrow> m = bn"
proof -
  have ok: "bufs_ok s" "in_proc p (lks s)" using assms(1) by (simp_all add: bc_ok_def proc_ready_def)
  then obtain xs where xs: "bring (bufs s) xs" and bs: "\<And>b. b < 30 \<Longrightarrow> buf_ok s b" and one: "one_buf (bufs s)"
    by (auto simp: bufs_ok_def)
  have set: "set xs = {..<30}" using xs by (simp add: bring_def)
  let ?P = "\<lambda>b. bdev (bufs s b) = 1 \<and> blockno (bufs s b) = bn"
  show thesis
  proof (cases "find ?P xs")
    case (Some b)
    then have b: "b < 30" "bdev (bufs s b) = 1" "blockno (bufs s b) = bn"
      using set find_in [OF Some] by auto
    have c: "cache s bn = (if refcnt (bufs s b) = 0 then cold (platter s) bn else ab_of s b)"
    proof (cases "refcnt (bufs s b) = 0")
      case True
      have "\<not> hot s a bn" for a
        using one b True bs [of a] by (auto simp: hot_def one_buf_def buf_ok_def)
      then show ?thesis using True by (simp add: cache_cold)
    next
      case False
      then show ?thesis using b cache_hot [OF ok(1), of b bn] by (simp add: hot_def)
    qed
    have free: "sl_locked (slocks s (SlBuf b)) = 0"
      using assms(2) c bs [OF b(1)] by (auto simp: buf_ok_def split: if_splits)
    show thesis
      by (rule that [OF bget_hit [OF ok(2) xs Some free]])
        (use b c bs [OF b(1)] one in \<open>auto simp: buf_ok_def hot_def one_buf_def split: if_splits\<close>)
  next
    case None
    then have no: "\<And>a. a < 30 \<Longrightarrow> bdev (bufs s a) = 1 \<Longrightarrow> blockno (bufs s a) \<noteq> bn"
      using set by (auto simp: find_None_iff)
    have "\<not> hot s a bn" for a using no [of a] bs [of a] by (auto simp: hot_def buf_ok_def)
    then have c: "cache s bn = cold (platter s) bn" by (rule cache_cold)
    then have "\<exists>b \<in> set (rev xs). refcnt (bufs s b) = 0"
      using assms(3) free_buf [OF ok(1)] set by auto
    then obtain b where b: "find (\<lambda>b. refcnt (bufs s b) = 0) (rev xs) = Some b"
      by (cases "find (\<lambda>b. refcnt (bufs s b) = 0) (rev xs)") (auto simp: find_None_iff)
    have "b \<in> set (rev xs)" "refcnt (bufs s b) = 0" using find_in [OF b] by auto
    then have b0: "b < 30" "refcnt (bufs s b) = 0" using set by auto
    then have free: "sl_locked (slocks s (SlBuf b)) = 0" using bs [of b] by (simp add: buf_ok_def)
    show thesis
      by (rule that [OF bget_miss [OF ok(2) xs None b free]]) (use b0 c no in \<open>auto simp: hot_def\<close>)
  qed
qed

text \<open>An operation that touches one buffer keeps the invariant and changes one abstract block.\<close>

lemma buf_step:
  assumes s: "bc_ok p s" and b: "b < NBUF"
    and t: "t = s\<lparr>lks := ks, procs := ps, slocks := sl, vd := v, vregs := r, bufs := B, platter := pl\<rparr>"
    and p: "in_proc p ks" "ps p = procs s p" "vd_idle v"
    and B: "apart b s t" "\<exists>xs. bring B xs" "buf_ok t b"
    and u: "\<And>a. a < NBUF \<Longrightarrow> a \<noteq> b \<Longrightarrow> bdev (bufs s a) = 1 \<Longrightarrow> bdev (B b) = 1 \<Longrightarrow> blockno (bufs s a) \<noteq> bn"
    and n: "blockno (B b) = bn" "\<And>m. hot s b m \<Longrightarrow> m = bn"
    and c: "\<And>m. m \<noteq> bn \<Longrightarrow> pblk pl m = pblk (platter s) m"
    and z: "refcnt (B b) = 0 \<Longrightarrow> bdev (B b) = 1"
  shows "bc_ok p t" "dsys p s t"
    "cache t = (cache s)(bn := (if refcnt (B b) = 0 then cold pl bn else ab_of t b))"
proof -
  have f: "bufs t = B" "platter t = pl" "lks t = ks" "procs t = ps" "vd t = v" "device t = device s" by (simp_all add: t)
  have ok: "bufs_ok s" using s by (simp add: bc_ok_def)
  have t_ok: "bufs_ok t"
    by (rule bufs_ok_upd [OF ok B(1) _ B(3)]) (use B(2) u n(1) f in simp_all)
  then show "bc_ok p t" using s p by (simp add: bc_ok_def proc_ready_def f)
  show "dsys p s t" unfolding t by (rule dsysI) (rule p(2))
  have h: "\<not> hot s a bn" if "refcnt (B b) = 0" "a \<noteq> b" for a
  proof
    assume a: "hot s a bn"
    then have "buf_ok s a" using ok by (simp add: bufs_ok_def hot_def)
    then show False using a u [of a] z that by (simp add: hot_def buf_ok_def)
  qed
  show "cache t = (cache s)(bn := (if refcnt (B b) = 0 then cold pl bn else ab_of t b))"
    unfolding f(1,2) [symmetric]
    by (rule cache_upd [OF ok t_ok B(1) b]) (use n c f h in blast)+
qed

lemma bring_links:
  assumes "bring B xs" and "bnext x = bnext (B b)" and "bprev x = bprev (B b)"
  shows "bring (B(b := x)) xs"
proof -
  have "(\<lambda>a. bnext ((B(b := x)) a)) = (\<lambda>a. bnext (B a))" "(\<lambda>a. bprev ((B(b := x)) a)) = (\<lambda>a. bprev (B a))"
    using assms(2,3) by (simp_all add: fun_eq_iff)
  then show ?thesis using assms(1) by (simp add: bring_def)
qed

lemma bc_okD:
  assumes "bc_ok p s"
  shows "bufs_ok s" "in_proc p (lks s)" "pstate (procs s p) = RUNNING" "pchan (procs s p) = None"
    "vd_idle (vd s)" "failing_device (device s)" "\<exists>xs. bring (bufs s) xs" "\<And>b. b < NBUF \<Longrightarrow> buf_ok s b"
  using assms by (simp_all add: bc_ok_def proc_ready_def bufs_ok_def)

lemma hot_alone:
  assumes "bc_ok p s" and "hot s b bn"
  shows "bdev (bufs s b) = 1" "valid (bufs s b)" "unat bn < 2 ^ 31" "\<And>m. hot s b m \<Longrightarrow> m = bn"
    "\<And>a. a < NBUF \<Longrightarrow> a \<noteq> b \<Longrightarrow> bdev (bufs s a) = 1 \<Longrightarrow> blockno (bufs s a) \<noteq> bn"
proof -
  have "one_buf (bufs s)" and b: "buf_ok s b" using assms by (auto simp: bc_ok_def bufs_ok_def hot_def)
  then show "\<And>a. a < NBUF \<Longrightarrow> a \<noteq> b \<Longrightarrow> bdev (bufs s a) = 1 \<Longrightarrow> blockno (bufs s a) \<noteq> bn"
    using assms(2) unfolding one_buf_def hot_def buf_ok_def by (metis (full_types))
  show "bdev (bufs s b) = 1" "valid (bufs s b)" "unat bn < 2 ^ 31" "\<And>m. hot s b m \<Longrightarrow> m = bn"
    using b assms(2) by (auto simp: hot_def buf_ok_def)
qed

abbreviation lock_pin :: "int \<Rightarrow> nat \<Rightarrow> ablock \<Rightarrow> ablock" where
  "lock_pin pid b x \<equiv> x\<lparr>a_pins := a_pins x + 1, a_lock := Some pid, a_buf := Some b\<rparr>"

lemma bread_done:
  assumes s: "bc_ok p s" and b: "b < NBUF"
    and t: "t = s\<lparr>lks := settle (lks s), procs := ps, slocks := taken s p b, vd := w, vregs := r,
      bufs := (bufs s)(b := y), platter := platter s\<rparr>" and w: "ps p = procs s p" "vd_idle w"
    and y: "bdev y = 1" "blockno y = bn" "refcnt y = a_pins (cache s bn) + 1" "bnext y = bnext (bufs s b)"
      "bprev y = bprev (bufs s b)" "valid y" "bcut (bdata y) = a_view (cache s bn)"
    and u: "\<And>a. a < NBUF \<Longrightarrow> a \<noteq> b \<Longrightarrow> bdev (bufs s a) = 1 \<Longrightarrow> blockno (bufs s a) \<noteq> bn"
    and h: "\<And>m. hot s b m \<Longrightarrow> m = bn"
    and n: "a_pins (cache s bn) + 1 \<noteq> 0" "unat bn < 2 ^ 31"
  shows "bc_ok p t \<and> dsys p s t \<and> platter t = platter s \<and>
    cache t = (cache s)(bn := lock_pin (ppid (procs s p)) b (cache s bn))"
proof -
  note ok = bc_okD [OF s]
  have "apart b s t" by (simp add: apart_def t)
  moreover have "\<exists>xs. bring ((bufs s)(b := y)) xs" using bring_links y ok(7) by metis
  moreover have "buf_ok t b" using y n by (simp add: buf_ok_def t)
  ultimately have 1: "bc_ok p t" "dsys p s t" "cache t = (cache s)(bn := ab_of t b)"
    using buf_step [OF s b t _ w, of bn] ok(2) y u h n by auto
  moreover have "ab_of t b = lock_pin (ppid (procs s p)) b (cache s bn)"
    using y by (simp add: ab_of_def t)
  ultimately show ?thesis by (simp add: t)
qed

lemma bread_spec:
  assumes "bc_ok p s" and "a_lock (cache s bn) = None" and "a_pins (cache s bn) \<noteq> 0 \<or> card (pinned s) < NBUF"
    and "a_pins (cache s bn) + 1 \<noteq> 0" and "unat bn < 2 ^ 31"
  shows "kout (bread 1 bn)
    (\<lambda>b t. bc_ok p t \<and> dsys p s t \<and> platter t = platter s \<and>
       cache t = (cache s)(bn := lock_pin (ppid (procs s p)) b (cache s bn)))
    (\<lambda>t. \<not> virtio_device (device s) \<and> platter t = platter s) s"
proof -
  note ok = bc_okD [OF assms(1)]
  obtain b x where get: "bget 1 bn s = Ok b (s\<lparr>lks := settle (lks s), bufs := (bufs s)(b := x), slocks := taken s p b\<rparr>)"
      (is "_ = Ok b ?u")
    and b: "b < NBUF" "bdev x = 1" "blockno x = bn" "refcnt x = a_pins (cache s bn) + 1"
      "bnext x = bnext (bufs s b)" "bprev x = bprev (bufs s b)"
    and v: "valid x \<Longrightarrow> bcut (bdata x) = a_view (cache s bn)" "\<not> valid x \<Longrightarrow> a_pins (cache s bn) = 0"
    and u: "\<And>a. a < NBUF \<Longrightarrow> a \<noteq> b \<Longrightarrow> bdev (bufs s a) = 1 \<Longrightarrow> blockno (bufs s a) \<noteq> bn"
    and h: "\<And>m. hot s b m \<Longrightarrow> m = bn"
    by (rule bget_spec [OF assms(1-3)]) (rule that; blast)
  show ?thesis
  proof (cases "valid x")
    case True
    let ?t = "s\<lparr>lks := settle (lks s), procs := procs s, slocks := taken s p b, vd := vd s, vregs := vregs s,
      bufs := (bufs s)(b := x), platter := platter s\<rparr>"
    have "bread 1 bn s = Ok b ?t" using True by (simp add: bread_def kop_simps get)
    moreover have "bc_ok p ?t \<and> dsys p s ?t \<and> platter ?t = platter s \<and>
        cache ?t = (cache s)(bn := lock_pin (ppid (procs s p)) b (cache s bn))"
      by (rule bread_done [OF assms(1) b(1) refl]) (use ok(5) b v(1) True u h assms(4,5) in simp_all)
    ultimately show ?thesis by (simp only: kout_Ok)
  next
    case False
    have uu: "in_proc p (lks ?u)" "pstate (procs ?u p) = RUNNING" "pchan (procs ?u p) = None"
      "vd_idle (vd ?u)" "failing_device (device ?u)" "unat (blockno (bufs ?u b)) < 2 ^ 31"
      using ok b assms(5) by simp_all
    from v(2) [OF False] have "cache s bn = cold (platter s) bn"
      using ok(1) cache_pins [OF ok(1), of bn] cache_cold [of s bn] by blast
    then have view: "a_view (cache s bn) = pblk (platter s) bn" by simp
    show ?thesis
    proof (rule virtio_disk_rw_cases [OF uu, of False])
      fix ps w r
      assume rw: "virtio_disk_rw b False ?u = Ok () (?u\<lparr>lks := settle (lks ?u), procs := ps, vd := w, vregs := r,
          bufs := (bufs ?u)(b := (bufs ?u b)\<lparr>bdata := xfer_data False (unat (blockno (bufs ?u b))) (platter ?u) (bdata (bufs ?u b)), bdisk := False\<rparr>),
          platter := xfer_platter False (unat (blockno (bufs ?u b))) (bdata (bufs ?u b)) (platter ?u)\<rparr>)"
        and w: "ps p = procs ?u p" "vd_idle w"
      let ?y = "x\<lparr>bdata := xfer_data False (unat bn) (platter s) (bdata x), bdisk := False, valid := True\<rparr>"
      let ?t = "s\<lparr>lks := settle (lks s), procs := ps, slocks := taken s p b, vd := w, vregs := r,
          bufs := (bufs s)(b := ?y), platter := platter s\<rparr>"
      have "bread 1 bn s = Ok b ?t"
        using False b rw by (simp add: bread_def kop_simps get xfer_platter_def lock_simps)
      moreover have "bcut (bdata ?y) = pblk (platter s) bn"
        by (simp add: bcut_def xfer_data_def pblk_def fun_eq_iff)
      moreover have "bc_ok p ?t \<and> dsys p s ?t \<and> platter ?t = platter s \<and>
          cache ?t = (cache s)(bn := lock_pin (ppid (procs s p)) b (cache s bn))"
        by (rule bread_done [OF assms(1) b(1) refl]) (use w b view calculation(2) u h assms(4,5) in simp_all)
      ultimately show ?thesis by (simp only: kout_Ok)
    next
      fix t assume "virtio_disk_rw b False ?u = Stop Descheduled t" "platter t = platter ?u" "\<not> virtio_device (device ?u)"
      then show ?thesis using False by (simp add: kout_def bread_def kop_simps get)
    qed
  qed
qed

end
