(* ===== verification/Bio_Ops.thy ===== *)
theory Bio_Ops
  imports Bio_Spec
begin

text \<open>
  The operations of the buffer cache on its abstract state, after \<open>bread\<close>: writing a
  block, releasing it, pinning it, and setting up the cache.
\<close>

text \<open>Writing to a locked buffer, in memory and to the disk.\<close>

lemma data_spec:
  assumes "bc_ok p s" and "a_buf (cache s bn) = Some b"
    and t: "t = s\<lparr>bufs := (bufs s)(b := (bufs s b)\<lparr>bdata := d\<rparr>)\<rparr>"
  shows "bc_ok p t" "dsys p s t" "cache t = (cache s)(bn := (cache s bn)\<lparr>a_view := bcut d\<rparr>)"
proof -
  note ok = bc_okD [OF assms(1)]
  have h: "hot s b bn" using assms(2) cache_buf [OF ok(1)] by simp
  note a = hot_alone [OF assms(1) h]
  have b: "b < 30" "refcnt (bufs s b) \<noteq> 0" "blockno (bufs s b) = bn" using h by (simp_all add: hot_def)
  let ?B = "(bufs s)(b := (bufs s b)\<lparr>bdata := d\<rparr>)"
  have t': "t = s\<lparr>lks := lks s, procs := procs s, slocks := slocks s, vd := vd s, vregs := vregs s,
    bufs := ?B, platter := platter s\<rparr>" by (simp add: t)
  have "apart b s t" "buf_ok t b" using a b by (simp_all add: apart_def t buf_ok_def)
  moreover have "\<exists>xs. bring ?B xs" using ok(7) bring_links [where x = "(bufs s b)\<lparr>bdata := d\<rparr>"] by auto
  ultimately have 1: "bc_ok p t" "dsys p s t" "cache t = (cache s)(bn := ab_of t b)"
    using buf_step [OF assms(1) b(1) t', of bn] ok a b by auto
  moreover have "ab_of t b = (cache s bn)\<lparr>a_view := bcut d\<rparr>"
    using cache_hot [OF ok(1) h] by (simp add: ab_of_def t)
  ultimately show "bc_ok p t" "dsys p s t" "cache t = (cache s)(bn := (cache s bn)\<lparr>a_view := bcut d\<rparr>)" by simp_all
qed

lemma pblk_xfer: "pblk (xfer_platter True (unat bn) d pl) = (pblk pl)(bn := bcut d)"
proof (intro ext)
  fix m k
  have "unat m = unat bn \<longleftrightarrow> m = bn" by (simp add: word_unat_eq_iff)
  moreover have "unat m < unat bn \<Longrightarrow> 1024 * unat m + 1024 \<le> 1024 * unat bn"
    and "unat bn < unat m \<Longrightarrow> 1024 * unat bn + 1024 \<le> 1024 * unat m" by simp_all
  ultimately show "pblk (xfer_platter True (unat bn) d pl) m k = ((pblk pl)(bn := bcut d)) m k"
    by (cases "unat m" "unat bn" rule: linorder_cases)
      (auto simp: pblk_def bcut_def xfer_platter_def platter_block_def)
qed

lemma holding:
  assumes "bc_ok p s" and "a_buf (cache s bn) = Some b" and "a_lock (cache s bn) = Some (ppid (procs s p))"
  shows "holdingsleep (SlBuf b) s = Ok True (s\<lparr>lks := settle (lks s)\<rparr>)" "hot s b bn" "cache s bn = ab_of s b"
    "b < NBUF" "refcnt (bufs s b) \<noteq> 0" "blockno (bufs s b) = bn"
proof -
  note ok = bc_okD [OF assms(1)]
  show h: "hot s b bn" using assms(2) cache_buf [OF ok(1)] by simp
  then show "cache s bn = ab_of s b" by (rule cache_hot [OF ok(1)])
  then show "holdingsleep (SlBuf b) s = Ok True (s\<lparr>lks := settle (lks s)\<rparr>)"
    using assms(3) holdingsleep_ok [OF ok(2), of "SlBuf b"] by (simp split: if_splits)
  show "b < NBUF" "refcnt (bufs s b) \<noteq> 0" "blockno (bufs s b) = bn" using h by (simp_all add: hot_def)
qed

lemma bwrite_done:
  assumes s: "bc_ok p s" "hot s b bn" and w: "ps p = procs s p" "vd_idle w"
    and t: "t = s\<lparr>lks := settle (lks s), procs := ps, slocks := slocks s, vd := w, vregs := r,
      bufs := (bufs s)(b := (bufs s b)\<lparr>bdisk := False\<rparr>),
      platter := xfer_platter True (unat bn) (bdata (bufs s b)) (platter s)\<rparr>"
  shows "bc_ok p t \<and> dsys p s t \<and> cache t = cache s \<and>
    pblk (platter t) = (pblk (platter s))(bn := a_view (cache s bn))"
proof -
  note ok = bc_okD [OF s(1)] and a = hot_alone [OF s]
  have b: "b < 30" "refcnt (bufs s b) \<noteq> 0" "blockno (bufs s b) = bn" using s(2) by (simp_all add: hot_def)
  let ?x = "(bufs s b)\<lparr>bdisk := False\<rparr>" and ?pl = "xfer_platter True (unat bn) (bdata (bufs s b)) (platter s)"
  have c: "\<And>m. m \<noteq> bn \<Longrightarrow> pblk ?pl m = pblk (platter s) m" by (simp add: pblk_xfer)
  have 1: "apart b s t" using a(5) c by (simp add: apart_def t)
  have 2: "buf_ok t b" using a b by (simp add: buf_ok_def t)
  have 3: "\<exists>xs. bring ((bufs s)(b := ?x)) xs" using ok(7) bring_links [where x = ?x] by auto
  have 4: "in_proc p (settle (lks s))" using ok(2) by simp
  note st = buf_step [OF s(1) b(1) t 4 w 1 3 2, of bn]
  have "bc_ok p t" "dsys p s t" "cache t = (cache s)(bn := ab_of t b)"
    using a b c by (intro st; simp)+ (use a b c in \<open>subst st; simp\<close>)
  moreover have "ab_of t b = cache s bn" using cache_hot [OF ok(1) s(2)] by (simp add: ab_of_def t)
  moreover have "pblk (platter t) = (pblk (platter s))(bn := a_view (cache s bn))"
    using cache_hot [OF ok(1) s(2)] by (simp add: pblk_xfer t)
  ultimately show ?thesis by simp
qed

lemma bwrite_spec:
  assumes "bc_ok p s" and "a_buf (cache s bn) = Some b" and "a_lock (cache s bn) = Some (ppid (procs s p))"
  shows "kout (bwrite b)
    (\<lambda>_ t. bc_ok p t \<and> dsys p s t \<and> cache t = cache s \<and>
       pblk (platter t) = (pblk (platter s))(bn := a_view (cache s bn)))
    (\<lambda>t. \<not> virtio_device (device s) \<and> platter t = platter s) s"
proof -
  note ok = bc_okD [OF assms(1)] and hd = holding [OF assms]
  let ?u = "s\<lparr>lks := settle (lks s)\<rparr>"
  have uu: "in_proc p (lks ?u)" "pstate (procs ?u p) = RUNNING" "pchan (procs ?u p) = None"
      "vd_idle (vd ?u)" "failing_device (device ?u)" "unat (blockno (bufs ?u b)) < 2 ^ 31"
    using ok hd(6) hot_alone(3) [OF assms(1) hd(2)] by simp_all
  show ?thesis
  proof (rule virtio_disk_rw_cases [OF uu, of True])
    fix ps w r
    let ?t = "s\<lparr>lks := settle (lks s), procs := ps, slocks := slocks s, vd := w, vregs := r,
      bufs := (bufs s)(b := (bufs s b)\<lparr>bdisk := False\<rparr>),
      platter := xfer_platter True (unat bn) (bdata (bufs s b)) (platter s)\<rparr>"
    assume "virtio_disk_rw b True ?u = Ok () (?u\<lparr>lks := settle (lks ?u), procs := ps, vd := w, vregs := r,
          bufs := (bufs ?u)(b := (bufs ?u b)\<lparr>bdata := xfer_data True (unat (blockno (bufs ?u b))) (platter ?u) (bdata (bufs ?u b)), bdisk := False\<rparr>),
          platter := xfer_platter True (unat (blockno (bufs ?u b))) (bdata (bufs ?u b)) (platter ?u)\<rparr>)"
      and w: "ps p = procs ?u p" "vd_idle w"
    then have run: "bwrite b s = Ok () ?t"
      using hd(1,6) by (simp add: bwrite_def kop_simps xfer_data_def lock_simps)
    have "bc_ok p ?t \<and> dsys p s ?t \<and> cache ?t = cache s \<and>
        pblk (platter ?t) = (pblk (platter s))(bn := a_view (cache s bn))"
      by (rule bwrite_done [OF assms(1) hd(2) _ w(2) refl]) (use w(1) in simp)
    with run show ?thesis by (simp only: kout_Ok)
  next
    fix t assume "virtio_disk_rw b True ?u = Stop Descheduled t" "platter t = platter ?u" "\<not> virtio_device (device ?u)"
    then show ?thesis using hd(1) by (simp add: kout_def bwrite_def kop_simps)
  qed
qed

text \<open>Pinning: one more or one less reference to a block in use.\<close>

lemma pins_step:
  assumes s: "bc_ok p s" "a_buf (cache s bn) = Some b" and n: "n \<noteq> 0"
    and t: "t = s\<lparr>lks := settle (lks s), bufs := (bufs s)(b := (bufs s b)\<lparr>refcnt := n\<rparr>)\<rparr>"
  shows "bc_ok p t \<and> dsys p s t \<and> platter t = platter s \<and> cache t = (cache s)(bn := (cache s bn)\<lparr>a_pins := n\<rparr>)"
proof -
  note ok = bc_okD [OF s(1)]
  have h: "hot s b bn" using s(2) cache_buf [OF ok(1)] by simp
  note a = hot_alone [OF s(1) h]
  have b: "b < 30" "blockno (bufs s b) = bn" using h by (simp_all add: hot_def)
  let ?x = "(bufs s b)\<lparr>refcnt := n\<rparr>"
  have t': "t = s\<lparr>lks := settle (lks s), procs := procs s, slocks := slocks s, vd := vd s, vregs := vregs s,
    bufs := (bufs s)(b := ?x), platter := platter s\<rparr>" by (simp add: t)
  have 1: "apart b s t" "buf_ok t b" using a b n by (simp_all add: apart_def t buf_ok_def)
  have 3: "\<exists>xs. bring ((bufs s)(b := ?x)) xs" using ok(7) bring_links [where x = ?x] by auto
  note st = buf_step [OF s(1) b(1) t' _ refl ok(5) 1(1) 3 1(2), of bn]
  have "bc_ok p t" "dsys p s t" "cache t = (cache s)(bn := ab_of t b)"
    using a b n ok(2) by (intro st; simp)+ (use a b n ok(2) in \<open>subst st; simp\<close>)
  moreover have "ab_of t b = (cache s bn)\<lparr>a_pins := n\<rparr>" using cache_hot [OF ok(1) h] by (simp add: ab_of_def t)
  ultimately show ?thesis by (simp add: t)
qed

lemma bpin_spec:
  assumes "bc_ok p s" and "a_buf (cache s bn) = Some b" and "a_pins (cache s bn) + 1 \<noteq> 0"
  shows "kout (bpin b)
    (\<lambda>_ t. bc_ok p t \<and> dsys p s t \<and> platter t = platter s \<and>
       cache t = (cache s)(bn := (cache s bn)\<lparr>a_pins := a_pins (cache s bn) + 1\<rparr>)) (\<lambda>_. False) s"
proof -
  note ok = bc_okD [OF assms(1)] and L = in_procD [OF bc_okD(2) [OF assms(1)]]
  have n: "a_pins (cache s bn) = refcnt (bufs s b)"
    using assms(2) cache_buf [OF ok(1)] cache_hot [OF ok(1), of b bn] by simp
  have "bpin b s = Ok () (s\<lparr>lks := settle (lks s), bufs := (bufs s)(b := (bufs s b)\<lparr>refcnt := a_pins (cache s bn) + 1\<rparr>)\<rparr>)"
    using L by (simp add: bpin_def kop_simps lock_simps n)
  then show ?thesis using pins_step [OF assms refl] by (simp only: kout_Ok)
qed

lemma bunpin_spec:
  assumes "bc_ok p s" and "a_buf (cache s bn) = Some b" and "a_pins (cache s bn) \<noteq> 1"
  shows "kout (bunpin b)
    (\<lambda>_ t. bc_ok p t \<and> dsys p s t \<and> platter t = platter s \<and>
       cache t = (cache s)(bn := (cache s bn)\<lparr>a_pins := a_pins (cache s bn) - 1\<rparr>)) (\<lambda>_. False) s"
proof -
  note ok = bc_okD [OF assms(1)] and L = in_procD [OF bc_okD(2) [OF assms(1)]]
  have n: "a_pins (cache s bn) = refcnt (bufs s b)"
    using assms(2) cache_buf [OF ok(1)] cache_hot [OF ok(1), of b bn] by simp
  have "bunpin b s = Ok () (s\<lparr>lks := settle (lks s), bufs := (bufs s)(b := (bufs s b)\<lparr>refcnt := a_pins (cache s bn) - 1\<rparr>)\<rparr>)"
    using L by (simp add: bunpin_def kop_simps lock_simps n)
  moreover have "a_pins (cache s bn) - 1 \<noteq> 0" using assms(3) by simp
  ultimately show ?thesis using pins_step [OF assms(1,2) _ refl] by (simp only: kout_Ok)
qed

text \<open>The last reference goes: \<open>brelse\<close> moves the buffer to the front of the list.\<close>

definition nextp :: "nat \<Rightarrow> nat \<Rightarrow> (nat \<Rightarrow> buf) \<Rightarrow> nat \<Rightarrow> buf" where
  "nextp x v B = B(x := (B x)\<lparr>bnext := v\<rparr>)"

definition prevp :: "nat \<Rightarrow> nat \<Rightarrow> (nat \<Rightarrow> buf) \<Rightarrow> nat \<Rightarrow> buf" where
  "prevp x v B = B(x := (B x)\<lparr>bprev := v\<rparr>)"

definition link_in :: "nat \<Rightarrow> (nat \<Rightarrow> buf) \<Rightarrow> nat \<Rightarrow> buf" where
  "link_in b B = (let f = bnext (B bhead) in nextp bhead b (prevp f b (prevp b bhead (nextp b f B))))"

definition to_front :: "nat \<Rightarrow> (nat \<Rightarrow> buf) \<Rightarrow> nat \<Rightarrow> buf" where
  "to_front b B = link_in b (nextp (bprev (B b)) (bnext (B b)) (prevp (bnext (B b)) (bprev (B b)) B))"

lemma core_links [simp]: "core (nextp x v B a) = core (B a)" "core (prevp x v B a) = core (B a)"
  by (simp_all add: nextp_def prevp_def core_def)

lemma core_to_front [simp]: "core (link_in b B a) = core (B a)" "core (to_front b B a) = core (B a)"
  by (simp_all add: link_in_def to_front_def Let_def)

lemma bnext_links: "bnext (nextp x v B a) = (if a = x then v else bnext (B a))" "bnext (prevp x v B a) = bnext (B a)"
  by (simp_all add: nextp_def prevp_def)

lemma bprev_links: "bprev (prevp x v B a) = (if a = x then v else bprev (B a))" "bprev (nextp x v B a) = bprev (B a)"
  by (simp_all add: nextp_def prevp_def)

lemma ring_link_in:
  assumes "ring (\<lambda>a. bnext (B a)) (\<lambda>a. bprev (B a)) bhead xs" and "b \<notin> set (bhead # xs)"
  shows "ring (\<lambda>a. bnext (link_in b B a)) (\<lambda>a. bprev (link_in b B a)) bhead (b # xs)"
proof -
  let ?n = "\<lambda>a. bnext (B a)" and ?p = "\<lambda>a. bprev (B a)"
  have "(\<lambda>a. bnext (link_in b B a)) = ?n(b := ?n bhead, bhead := b)"
    "(\<lambda>a. bprev (link_in b B a)) = ?p(b := bhead, ?n bhead := b)"
    by (simp_all add: link_in_def Let_def bnext_links bprev_links fun_eq_iff)
  then show ?thesis using ring_insert [OF assms] by simp
qed

lemma bring_to_front:
  assumes "bring B xs" and "b < NBUF"
  shows "\<exists>ys. bring (to_front b B) ys"
proof -
  let ?n = "\<lambda>a. bnext (B a)" and ?p = "\<lambda>a. bprev (B a)"
  obtain us vs where xs: "xs = us @ b # vs" using assms by (metis bring_def in_set_conv_decomp lessThan_iff)
  have r: "ring ?n ?p bhead (us @ b # vs)" and set: "set (us @ b # vs) = {..<30}"
    using assms(1) by (simp_all add: bring_def xs)
  let ?n1 = "?n(?p b := ?n b)" and ?p1 = "?p(?n b := ?p b)"
  have u: "ring ?n1 ?p1 bhead (us @ vs)" by (rule ring_unlink [OF r])
  have b: "b \<notin> set (bhead # us @ vs)" using r assms(2) by (simp add: ring_def)
  let ?B = "nextp (bprev (B b)) (bnext (B b)) (prevp (bnext (B b)) (bprev (B b)) B)"
  have "(\<lambda>a. bnext (?B a)) = ?n1" "(\<lambda>a. bprev (?B a)) = ?p1"
    by (simp_all add: bnext_links bprev_links fun_eq_iff)
  then have "ring (\<lambda>a. bnext (to_front b B a)) (\<lambda>a. bprev (to_front b B a)) bhead (b # us @ vs)"
    using ring_link_in [of ?B "us @ vs" b] u b by (simp add: to_front_def)
  moreover have "set (b # us @ vs) = {..<30}" using set by auto
  ultimately have "bring (to_front b B) (b # us @ vs)" unfolding bring_def by simp
  then show ?thesis by blast
qed

lemma move_front_run: "move_front b s = Ok () (s\<lparr>bufs := to_front b (bufs s)\<rparr>)"
  unfolding move_front_def to_front_def link_in_def nextp_def prevp_def Let_def
  by (simp add: kop_simps del: fun_upd_apply)

lemma brelse_run:
  assumes "in_proc p (lks s)" and "holdingsleep (SlBuf b) s = Ok True (s\<lparr>lks := settle (lks s)\<rparr>)"
    and "n = refcnt (bufs s b) - 1" and "B = (bufs s)(b := (bufs s b)\<lparr>refcnt := n\<rparr>)"
  shows "brelse b s = Ok () (s\<lparr>lks := settle (lks s), procs := wake (ChSleep (SlBuf b)) (others (Some p)) (procs s),
    slocks := (slocks s)(SlBuf b := (slocks s (SlBuf b))\<lparr>sl_locked := 0, sl_pid := 0\<rparr>), vd := vd s, vregs := vregs s,
    bufs := (if n = 0 then to_front b B else B), platter := platter s\<rparr>)"
proof -
  note L = in_procD [OF assms(1)]
  have "n = 0 \<longleftrightarrow> refcnt (bufs s b) = 1" using assms(3) by auto
  then show ?thesis
    using L assms(1,2) unfolding assms(3,4) brelse_def
    by (simp add: kop_simps lock_simps releasesleep_ok [where p = p] move_front_run)
qed

lemma brelse_spec:
  assumes "bc_ok p s" and "a_buf (cache s bn) = Some b" and "a_lock (cache s bn) = Some (ppid (procs s p))"
    and "a_pins (cache s bn) = 1 \<Longrightarrow> a_view (cache s bn) = pblk (platter s) bn"
  shows "kout (brelse b)
    (\<lambda>_ t. bc_ok p t \<and> dsys p s t \<and> platter t = platter s \<and>
       cache t = (cache s)(bn := (cache s bn)\<lparr>a_pins := a_pins (cache s bn) - 1, a_lock := None,
         a_buf := if a_pins (cache s bn) = 1 then None else Some b\<rparr>)) (\<lambda>_. False) s"
proof -
  note ok = bc_okD [OF assms(1)] and hd = holding [OF assms(1-3)]
  note a = hot_alone [OF assms(1) hd(2)]
  define n where "n = refcnt (bufs s b) - 1"
  define B where "B = (bufs s)(b := (bufs s b)\<lparr>refcnt := n\<rparr>)"
  define t where "t = s\<lparr>lks := settle (lks s), procs := wake (ChSleep (SlBuf b)) (others (Some p)) (procs s),
    slocks := (slocks s)(SlBuf b := (slocks s (SlBuf b))\<lparr>sl_locked := 0, sl_pid := 0\<rparr>), vd := vd s, vregs := vregs s,
    bufs := (if n = 0 then to_front b B else B), platter := platter s\<rparr>"
  have run: "brelse b s = Ok () t" unfolding t_def by (rule brelse_run [OF ok(2) hd(1) n_def B_def])
  have n0: "n = 0 \<longleftrightarrow> a_pins (cache s bn) = 1" and n1: "n = a_pins (cache s bn) - 1"
    unfolding n_def hd(3) by auto
  have f: "bufs t = (if n = 0 then to_front b B else B)" "platter t = platter s"
    "slocks t = (slocks s)(SlBuf b := (slocks s (SlBuf b))\<lparr>sl_locked := 0, sl_pid := 0\<rparr>)" by (simp_all add: t_def)
  have co: "core (bufs t x) = core (B x)" for x by (simp add: f)
  have "core (bufs t b) = (True, 1, bn, n, bdata (bufs s b))"
    unfolding co B_def using a(1,2) hd(6) by (simp add: core_def)
  then have cb: "refcnt (bufs t b) = n" "blockno (bufs t b) = bn" "bdev (bufs t b) = 1" "valid (bufs t b)"
      "bdata (bufs t b) = bdata (bufs s b)" by (simp_all add: core_def)
  have 1: "apart b s t" unfolding apart_def co by (simp add: f(2,3) B_def)
  have 2: "buf_ok t b" using assms(4) n0 a(3) hd(3) by (simp add: buf_ok_def cb f(2,3))
  have "\<exists>xs. bring B xs" using ok(7) bring_links [where x = "(bufs s b)\<lparr>refcnt := n\<rparr>"] unfolding B_def by auto
  then have 3: "\<exists>xs. bring (if n = 0 then to_front b B else B) xs" using bring_to_front [OF _ hd(4)] by auto
  have 4: "wake (ChSleep (SlBuf b)) (others (Some p)) (procs s) p = procs s p" by (simp add: wake_def others_def)
  have 5: "in_proc p (settle (lks s))" using ok(2) by simp
  note st = buf_step [OF assms(1) hd(4) t_def 5 4 ok(5) 1 3 2, of bn, folded f(1), unfolded cb]
  have "bc_ok p t" "dsys p s t" "cache t = (cache s)(bn := (if n = 0 then cold (platter s) bn else ab_of t b))"
    by (rule st; use a in blast)+
  moreover have "(if n = 0 then cold (platter s) bn else ab_of t b) =
      (cache s bn)\<lparr>a_pins := a_pins (cache s bn) - 1, a_lock := None, a_buf := if a_pins (cache s bn) = 1 then None else Some b\<rparr>"
    using assms(4) n0 n1 cb hd(3) by (simp add: cold_def ab_of_def f(2,3))
  ultimately show ?thesis using run by (simp add: kout_Ok f(2))
qed

section \<open>Setting up\<close>

lemma in_proc_initlock:
  "in_proc p L \<Longrightarrow> in_proc p (lock_upd lk (\<lambda>l. l\<lparr>lname := name, locked := 0, lcpu := None\<rparr>) L)"
  by (auto simp: in_proc_def lock_upd_def avail_def cpu_ok_def)

definition binit_inv :: "nat \<Rightarrow> 'x diskstate_scheme \<Rightarrow> nat \<Rightarrow> 'x diskstate_scheme \<Rightarrow> bool" where
  "binit_inv p s i t \<longleftrightarrow> (\<exists>ks sl B. t = s\<lparr>lks := ks, slocks := sl, bufs := B\<rparr> \<and> in_proc p ks \<and>
     ring (\<lambda>a. bnext (B a)) (\<lambda>a. bprev (B a)) bhead (rev [0..<i]) \<and>
     (\<forall>x. core (B x) = core (bufs s x)) \<and> (\<forall>b<i. sl_locked (sl (SlBuf b)) = 0))"

lemma binit_loop:
  assumes "binit_inv p s 0 u"
  shows "kout (kfor [0..<NBUF] (\<lambda>b.
        kbind (bget_field bhead bnext) (\<lambda>f.
        kseq (set_next b f)
       (kseq (set_prev b bhead)
       (kseq (initsleeplock (SlBuf b) ''buffer'')
       (kseq (set_prev f b)
        (set_next bhead b))))))) (\<lambda>_. binit_inv p s NBUF) (\<lambda>_. False) u"
proof (rule kout_kfor [where I = "binit_inv p s"], rule assms)
  fix b t assume "b < NBUF" and "binit_inv p s b t"
  then obtain ks sl B where t: "t = s\<lparr>lks := ks, slocks := sl, bufs := B\<rparr>" "in_proc p ks"
      "ring (\<lambda>a. bnext (B a)) (\<lambda>a. bprev (B a)) bhead (rev [0..<b])" "\<And>x. core (B x) = core (bufs s x)"
      "\<And>a. a < b \<Longrightarrow> sl_locked (sl (SlBuf a)) = 0" "b < 30"
    by (auto simp: binit_inv_def)
  let ?ks = "lock_upd (LkSleep (SlBuf b)) (\<lambda>l. l\<lparr>lname := ''sleep lock'', locked := 0, lcpu := None\<rparr>) ks"
  let ?sl = "sl(SlBuf b := (sl (SlBuf b))\<lparr>sl_name := ''buffer'', sl_locked := 0, sl_pid := 0\<rparr>)"
  let ?t = "s\<lparr>lks := ?ks, slocks := ?sl, bufs := link_in b B\<rparr>"
  have "binit_inv p s (Suc b) ?t"
    unfolding binit_inv_def using t ring_link_in [OF t(3), of b] in_proc_initlock [OF t(2)]
    by (intro exI [of _ ?ks] exI [of _ ?sl] exI [of _ "link_in b B"]) (simp add: less_Suc_eq)
  then show "kout (kbind (bget_field bhead bnext) (\<lambda>f.
        kseq (set_next b f)
       (kseq (set_prev b bhead)
       (kseq (initsleeplock (SlBuf b) ''buffer'')
       (kseq (set_prev f b)
        (set_next bhead b)))))) (\<lambda>_. binit_inv p s (Suc b)) (\<lambda>_. False) t"
    unfolding link_in_def nextp_def prevp_def Let_def
    by (simp add: kout_def kop_simps initsleeplock_def initlock_ok t(1) del: fun_upd_apply)
qed

lemma binit_spec:
  assumes p: "proc_ready p s" "vd_idle (vd s)" "failing_device (device s)"
    and b: "\<And>b. b < NBUF \<Longrightarrow> refcnt (bufs s b) = 0 \<and> bdev (bufs s b) \<noteq> 1"
  shows "kout binit (\<lambda>_ t. bc_ok p t \<and> dsys p s t \<and> platter t = platter s \<and> cache t = cold (platter s)) (\<lambda>_. False) s"
proof -
  let ?ks = "lock_upd LkBcache (\<lambda>l. l\<lparr>lname := ''bcache'', locked := 0, lcpu := None\<rparr>) (lks s)"
  let ?B = "nextp bhead bhead (prevp bhead bhead (bufs s))"
  let ?u = "s\<lparr>lks := ?ks, slocks := slocks s, bufs := ?B\<rparr>"
  have "in_proc p ?ks" using p(1) by (intro in_proc_initlock) (simp add: proc_ready_def)
  then have "binit_inv p s 0 ?u"
    unfolding binit_inv_def
    by (intro exI [of _ ?ks] exI [of _ "slocks s"] exI [of _ ?B]) (simp add: ring_alone bnext_links bprev_links)
  then obtain t where run: "binit s = Ok () t" and inv: "binit_inv p s 30 t"
    using binit_loop [of p s ?u] unfolding kout_total nextp_def prevp_def
    by (auto simp: binit_def kop_simps initlock_ok)
  from inv obtain ks sl B where t: "t = s\<lparr>lks := ks, slocks := sl, bufs := B\<rparr>" "in_proc p ks"
      "ring (\<lambda>a. bnext (B a)) (\<lambda>a. bprev (B a)) bhead (rev [0..<30])" "\<And>x. core (B x) = core (bufs s x)"
      "\<And>a. a < 30 \<Longrightarrow> sl_locked (sl (SlBuf a)) = 0"
    unfolding binit_inv_def by blast
  have B: "refcnt (B b) = 0 \<and> bdev (B b) \<noteq> 1" if "b < 30" for b
    using b [OF that] t(4) [of b] by (simp add: core_def)
  have "bring B (rev [0..<30])" using t(3) by (simp add: bring_def lessThan_atLeast0)
  then have "bufs_ok t" using B t(5) by (auto simp: bufs_ok_def buf_ok_def one_buf_def t(1))
  then have "bc_ok p t" using p t(2) by (simp add: bc_ok_def proc_ready_def t(1))
  moreover have "dsys p s t"
    using dsysI [where s = s and ps = "procs s" and ks = ks and sl = sl and v = "vd s" and r = "vregs s" and B = B and pl = "platter s"]
    by (simp add: t(1))
  moreover have "cache t = cold (platter s)"
  proof
    fix bn
    have "\<not> hot t b bn" for b using B by (auto simp: hot_def t(1))
    then show "cache t bn = cold (platter s) bn" by (simp add: cache_cold t(1))
  qed
  ultimately show ?thesis using run by (simp add: kout_Ok t(1))
qed

end
