(* ===== verification/Bio_Refine.thy ===== *)
theory Bio_Refine
  imports Bio_Ops
begin

text \<open>
  The contract of the buffer cache as an abstract machine, and the refinement: every sequence
  of calls that the contract allows runs without panic on the cache of \<open>bio.c\<close> and has
  the effect the abstract machine has; if the disk loses power in between, the platter holds
  what the abstract disk holds after some of the calls.
\<close>

section \<open>The abstract machine\<close>

record bspec =
  s_view :: block
  s_pins :: u32
  s_lock :: "int option"

datatype bop = BRead u32 | BFill u32 block | BWrite u32 | BRelse u32 | BPin u32 | BUnpin u32

type_synonym abio = "(u32 \<Rightarrow> bspec) \<times> (u32 \<Rightarrow> block)"

fun a_bop :: "int \<Rightarrow> bop \<Rightarrow> abio \<Rightarrow> abio option" where
  "a_bop pid (BRead bn) (c, d) =
     (if s_lock (c bn) = None \<and> (s_pins (c bn) \<noteq> 0 \<or> card {m. s_pins (c m) \<noteq> 0} < NBUF) \<and>
         s_pins (c bn) + 1 \<noteq> 0 \<and> unat bn < 2 ^ 31
      then Some (c(bn := (c bn)\<lparr>s_pins := s_pins (c bn) + 1, s_lock := Some pid\<rparr>), d) else None)"
| "a_bop pid (BFill bn x) (c, d) =
     (if s_lock (c bn) = Some pid then Some (c(bn := (c bn)\<lparr>s_view := bcut x\<rparr>), d) else None)"
| "a_bop pid (BWrite bn) (c, d) =
     (if s_lock (c bn) = Some pid then Some (c, d(bn := s_view (c bn))) else None)"
| "a_bop pid (BRelse bn) (c, d) =
     (if s_lock (c bn) = Some pid \<and> (s_pins (c bn) = 1 \<longrightarrow> s_view (c bn) = d bn)
      then Some (c(bn := (c bn)\<lparr>s_pins := s_pins (c bn) - 1, s_lock := None\<rparr>), d) else None)"
| "a_bop pid (BPin bn) (c, d) =
     (if s_pins (c bn) \<noteq> 0 \<and> s_pins (c bn) + 1 \<noteq> 0
      then Some (c(bn := (c bn)\<lparr>s_pins := s_pins (c bn) + 1\<rparr>), d) else None)"
| "a_bop pid (BUnpin bn) (c, d) =
     (if s_pins (c bn) \<noteq> 0 \<and> s_pins (c bn) \<noteq> 1
      then Some (c(bn := (c bn)\<lparr>s_pins := s_pins (c bn) - 1\<rparr>), d) else None)"

primrec a_bops :: "int \<Rightarrow> bop list \<Rightarrow> abio \<Rightarrow> abio option" where
  "a_bops pid [] A = Some A"
| "a_bops pid (op # rest) A = (case a_bop pid op A of None \<Rightarrow> None | Some B \<Rightarrow> a_bops pid rest B)"

section \<open>The calls on the cache\<close>

definition buf_of :: "u32 \<Rightarrow> 'x diskstate_scheme \<Rightarrow> nat" where
  "buf_of bn s = (case a_buf (cache s bn) of Some b \<Rightarrow> b | None \<Rightarrow> bhead)"

fun c_bop :: "bop \<Rightarrow> ('x diskstate_scheme, unit) kop" where
  "c_bop (BRead bn) = kbind (bread 1 bn) (\<lambda>_. kret ())"
| "c_bop (BFill bn x) = kbind (kget (buf_of bn)) (\<lambda>b. buf_upd b (\<lambda>y. y\<lparr>bdata := x\<rparr>))"
| "c_bop (BWrite bn) = kbind (kget (buf_of bn)) bwrite"
| "c_bop (BRelse bn) = kbind (kget (buf_of bn)) brelse"
| "c_bop (BPin bn) = kbind (kget (buf_of bn)) bpin"
| "c_bop (BUnpin bn) = kbind (kget (buf_of bn)) bunpin"

definition spec_of :: "ablock \<Rightarrow> bspec" where
  "spec_of x = \<lparr>s_view = a_view x, s_pins = a_pins x, s_lock = a_lock x\<rparr>"

definition abs_bio :: "'x diskstate_scheme \<Rightarrow> abio" where
  "abs_bio s = (\<lambda>bn. spec_of (cache s bn), pblk (platter s))"

lemma spec_of_simps [simp]:
  "s_view (spec_of x) = a_view x" "s_pins (spec_of x) = a_pins x" "s_lock (spec_of x) = a_lock x"
  by (simp_all add: spec_of_def)

lemma abs_upd:
  assumes "cache t = (cache s)(bn := x)"
  shows "(\<lambda>m. spec_of (cache t m)) = (\<lambda>m. spec_of (cache s m))(bn := spec_of x)"
  using assms by (simp add: fun_eq_iff)

lemma cache_used:
  assumes "bufs_ok s" and "a_lock (cache s bn) = Some i \<or> a_pins (cache s bn) \<noteq> 0"
  obtains b where "a_buf (cache s bn) = Some b" and "buf_of bn s = b"
  using assms by (cases rule: cache_cases [where bn = bn]) (auto simp: buf_of_def)

lemma bop_refines:
  assumes s: "bc_ok p s" and a: "a_bop (ppid (procs s p)) op (abs_bio s) = Some A"
  shows "kout (c_bop op) (\<lambda>_ t. bc_ok p t \<and> dsys p s t \<and> abs_bio t = A)
    (\<lambda>t. \<not> virtio_device (device s) \<and> pblk (platter t) = snd (abs_bio s)) s"
proof (cases op)
  case (BRead bn)
  have h: "a_lock (cache s bn) = None" "a_pins (cache s bn) \<noteq> 0 \<or> card (pinned s) < NBUF" "a_pins (cache s bn) + 1 \<noteq> 0"
      "unat bn < 2 ^ 31"
    and A: "A = ((\<lambda>m. spec_of (cache s m))(bn := (spec_of (cache s bn))\<lparr>s_pins := a_pins (cache s bn) + 1,
      s_lock := Some (ppid (procs s p))\<rparr>), pblk (platter s))"
    using a by (auto simp: BRead abs_bio_def pinned_def split: if_splits)
  show ?thesis unfolding BRead c_bop.simps
    by (rule kout_bindI [OF bread_spec [OF s h]])
      (auto simp: kout_simps A abs_bio_def abs_upd spec_of_def)
next
  case (BFill bn x)
  have h: "a_lock (cache s bn) = Some (ppid (procs s p))"
    and A: "A = ((\<lambda>m. spec_of (cache s m))(bn := (spec_of (cache s bn))\<lparr>s_view := bcut x\<rparr>), pblk (platter s))"
    using a by (auto simp: BFill abs_bio_def split: if_splits)
  obtain b where b: "a_buf (cache s bn) = Some b" "buf_of bn s = b" using cache_used [OF bc_okD(1) [OF s]] h by blast
  show ?thesis unfolding BFill c_bop.simps
    using data_spec [OF s b(1) refl, of x] by (simp add: kout_simps b(2) A abs_bio_def spec_of_def fun_eq_iff)
next
  case (BWrite bn)
  have h: "a_lock (cache s bn) = Some (ppid (procs s p))"
    and A: "A = (\<lambda>m. spec_of (cache s m), (pblk (platter s))(bn := a_view (cache s bn)))"
    using a by (auto simp: BWrite abs_bio_def split: if_splits)
  obtain b where b: "a_buf (cache s bn) = Some b" "buf_of bn s = b" using cache_used [OF bc_okD(1) [OF s]] h by blast
  show ?thesis unfolding BWrite c_bop.simps kout_kbind kout_kget b(2)
    by (rule kout_mono [OF bwrite_spec [OF s b(1) h]]) (auto simp: A abs_bio_def)
next
  case (BRelse bn)
  have h: "a_lock (cache s bn) = Some (ppid (procs s p))"
      "a_pins (cache s bn) = 1 \<Longrightarrow> a_view (cache s bn) = pblk (platter s) bn"
    and A: "A = ((\<lambda>m. spec_of (cache s m))(bn := (spec_of (cache s bn))\<lparr>s_pins := a_pins (cache s bn) - 1, s_lock := None\<rparr>),
      pblk (platter s))"
    using a by (auto simp: BRelse abs_bio_def split: if_splits)
  obtain b where b: "a_buf (cache s bn) = Some b" "buf_of bn s = b" using cache_used [OF bc_okD(1) [OF s]] h(1) by blast
  show ?thesis unfolding BRelse c_bop.simps kout_kbind kout_kget b(2)
    by (rule kout_mono [OF brelse_spec [OF s b(1) h]]) (auto simp: A abs_bio_def abs_upd spec_of_def)
next
  case (BPin bn)
  have h: "a_pins (cache s bn) \<noteq> 0" "a_pins (cache s bn) + 1 \<noteq> 0"
    and A: "A = ((\<lambda>m. spec_of (cache s m))(bn := (spec_of (cache s bn))\<lparr>s_pins := a_pins (cache s bn) + 1\<rparr>), pblk (platter s))"
    using a by (auto simp: BPin abs_bio_def split: if_splits)
  obtain b where b: "a_buf (cache s bn) = Some b" "buf_of bn s = b" using cache_used [OF bc_okD(1) [OF s]] h(1) by blast
  show ?thesis unfolding BPin c_bop.simps kout_kbind kout_kget b(2)
    by (rule kout_mono [OF bpin_spec [OF s b(1) h(2)]]) (auto simp: A abs_bio_def abs_upd spec_of_def)
next
  case (BUnpin bn)
  have h: "a_pins (cache s bn) \<noteq> 0" "a_pins (cache s bn) \<noteq> 1"
    and A: "A = ((\<lambda>m. spec_of (cache s m))(bn := (spec_of (cache s bn))\<lparr>s_pins := a_pins (cache s bn) - 1\<rparr>), pblk (platter s))"
    using a by (auto simp: BUnpin abs_bio_def split: if_splits)
  obtain b where b: "a_buf (cache s bn) = Some b" "buf_of bn s = b" using cache_used [OF bc_okD(1) [OF s]] h(1) by blast
  show ?thesis unfolding BUnpin c_bop.simps kout_kbind kout_kget b(2)
    by (rule kout_mono [OF bunpin_spec [OF s b(1) h(2)]]) (auto simp: A abs_bio_def abs_upd spec_of_def)
qed

lemma bops_refine:
  assumes "bc_ok p s" and "a_bops (ppid (procs s p)) cs (abs_bio s) = Some A"
  shows "kout (kfor cs c_bop) (\<lambda>_ t. bc_ok p t \<and> dsys p s t \<and> abs_bio t = A)
    (\<lambda>t. \<not> virtio_device (device s) \<and>
       (\<exists>k B. a_bops (ppid (procs s p)) (take k cs) (abs_bio s) = Some B \<and> pblk (platter t) = snd B)) s"
  using assms
proof (induction cs arbitrary: s)
  case Nil
  then show ?case by (simp add: kout_simps)
next
  case (Cons op cs)
  let ?pid = "ppid (procs s p)"
  obtain B where B: "a_bop ?pid op (abs_bio s) = Some B" and A: "a_bops ?pid cs B = Some A"
    using Cons.prems(2) by (auto split: option.splits)
  show ?case unfolding kfor.simps
  proof (rule kout_bindI [OF bop_refines [OF Cons.prems(1) B]])
    fix u t assume t: "bc_ok p t \<and> dsys p s t \<and> abs_bio t = B"
    then have d: "device t = device s" "procs t p = procs s p" by (auto dest: dsys_simps)
    have "kout (kfor cs c_bop) (\<lambda>_ v. bc_ok p v \<and> dsys p t v \<and> abs_bio v = A)
      (\<lambda>v. \<not> virtio_device (device t) \<and>
        (\<exists>k C. a_bops (ppid (procs t p)) (take k cs) (abs_bio t) = Some C \<and> pblk (platter v) = snd C)) t"
      using Cons.IH [of t] t A d by simp
    then show "kout (kfor cs c_bop) (\<lambda>_ v. bc_ok p v \<and> dsys p s v \<and> abs_bio v = A)
      (\<lambda>v. \<not> virtio_device (device s) \<and>
        (\<exists>k C. a_bops ?pid (take k (op # cs)) (abs_bio s) = Some C \<and> pblk (platter v) = snd C)) t"
    proof (rule kout_mono)
      fix v assume "bc_ok p v \<and> dsys p t v \<and> abs_bio v = A"
      then show "bc_ok p v \<and> dsys p s v \<and> abs_bio v = A" using t dsys_trans by blast
    next
      fix v assume "\<not> virtio_device (device t) \<and>
        (\<exists>k C. a_bops (ppid (procs t p)) (take k cs) (abs_bio t) = Some C \<and> pblk (platter v) = snd C)"
      then obtain k C where "\<not> virtio_device (device s)" "a_bops ?pid (take (Suc k) (op # cs)) (abs_bio s) = Some C"
          "pblk (platter v) = snd C"
        using t d B by auto
      then show "\<not> virtio_device (device s) \<and>
        (\<exists>k C. a_bops ?pid (take k (op # cs)) (abs_bio s) = Some C \<and> pblk (platter v) = snd C)" by blast
    qed
  next
    fix v assume v: "\<not> virtio_device (device s) \<and> pblk (platter v) = snd (abs_bio s)"
    have "a_bops ?pid (take 0 (op # cs)) (abs_bio s) = Some (abs_bio s)" by simp
    with v show "\<not> virtio_device (device s) \<and>
        (\<exists>k C. a_bops ?pid (take k (op # cs)) (abs_bio s) = Some C \<and> pblk (platter v) = snd C)" by blast
  qed
qed

section \<open>Properties\<close>

text \<open>
  C2: The buffer cache refines its contract. From every state that satisfies the invariant,
  each sequence of \<open>bread\<close>, updates of locked buffers, \<open>bwrite\<close>, \<open>brelse\<close>, \<open>bpin\<close> and
  \<open>bunpin\<close> that the abstract machine allows returns, keeps the invariant, touches nothing
  but locks, processes, disk and buffers, and ends in the abstract state the machine computes. A disk that fails at some request leaves on the
  platter what the abstract disk holds after a prefix of the sequence.
\<close>

theorem buffer_cache_refines:
  assumes "bc_ok p s" and "a_bops (ppid (procs s p)) cs (abs_bio s) = Some A"
  shows "case kfor cs c_bop s of
      Ok _ t \<Rightarrow> bc_ok p t \<and> dsys p s t \<and> abs_bio t = A
    | Stop h t \<Rightarrow> \<not> virtio_device (device s) \<and>
        (\<exists>k B. a_bops (ppid (procs s p)) (take k cs) (abs_bio s) = Some B \<and> pblk (platter t) = snd B)"
  using bops_refine [OF assms] by (simp only: kout_def)

theorem buffer_cache_refines_witness:
  "\<exists>t u. binit (boot_disk 1 (\<lambda>_. empty_buf)) = Ok () t \<and>
     kfor [BRead 5, BFill 5 (\<lambda>_. 42), BWrite 5, BRelse 5, BRead 6] c_bop t = Ok () u \<and>
     pblk (platter u) 5 1023 = 42 \<and> a_pins (cache u 6) = 1 \<and> a_pins (cache u 5) = 0"
proof -
  let ?s = "boot_disk 1 (\<lambda>_. empty_buf)" and ?cs = "[BRead 5, BFill 5 (\<lambda>_. 42), BWrite 5, BRelse 5, BRead 6]"
  have "refcnt (bufs ?s b) = 0 \<and> bdev (bufs ?s b) \<noteq> 1" for b by (simp add: boot_disk_unfold empty_buf_def)
  then have "kout binit (\<lambda>_ t. bc_ok 1 t \<and> dsys 1 ?s t \<and> platter t = platter ?s \<and> cache t = cold (platter ?s)) (\<lambda>_. False) ?s"
    using boot_disk_idle [of 1 "\<lambda>_. empty_buf"] boot_disk_ready [of 1] by (intro binit_spec) (simp_all add: virtio_failing)
  then obtain t where t: "binit ?s = Ok () t" "bc_ok 1 t" "dsys 1 ?s t" "platter t = platter ?s" "cache t = cold (platter ?s)"
    unfolding kout_total by auto
  obtain c d where A: "a_bops (ppid (procs t 1)) ?cs (abs_bio t) = Some (c, d)" "d 5 1023 = 42" "s_pins (c 5) = 0" "s_pins (c 6) = 1"
    by (simp add: abs_bio_def t(4,5) bcut_def split: if_splits)
  have "virtio_device (device t)" using t(3) boot_disk_idle by (simp add: dsys_simps)
  then show ?thesis
    using buffer_cache_refines [OF t(2) A(1)] t(1) A by (auto simp: abs_bio_def split: kres.splits)
qed

end
