(* ===== verification/Log_Spec.thy ===== *)
theory Log_Spec
  imports Log Bio_Refine
begin

text \<open>
  The steps of the log on the abstract cache and disk: copying a block to the log, installing
  one at home, writing and reading the header. Each makes at most one write; if the disk
  loses power before it, the platter is as it was.
\<close>

abbreviation disk :: "'x diskstate_scheme \<Rightarrow> u32 \<Rightarrow> block" where
  "disk s \<equiv> pblk (platter s)"

abbreviation bk :: "'x diskstate_scheme \<Rightarrow> u32 \<Rightarrow> bspec" where
  "bk s m \<equiv> spec_of (cache s m)"

definition lost :: "'x diskstate_scheme \<Rightarrow> 'x diskstate_scheme \<Rightarrow> bool" where
  "lost s t \<longleftrightarrow> \<not> virtio_device (device s) \<and> disk t = disk s"

definition clean :: "block \<Rightarrow> bspec" where
  "clean d = \<lparr>s_view = d, s_pins = 0, s_lock = None\<rparr>"

lemma bkD:
  assumes "bk s = F"
  shows "a_pins (cache s m) = s_pins (F m)" "a_lock (cache s m) = s_lock (F m)" "a_view (cache s m) = s_view (F m)"
  unfolding assms [symmetric] by simp_all

lemma dsys_klog: "dsys p s t \<Longrightarrow> klog t = klog s"
  by (auto simp: dsys_def)

lemma dsys_facts:
  assumes "dsys p s t"
  shows "klog t = klog s" "procs t p = procs s p" "device t = device s"
  using assms by (simp_all add: dsys_klog dsys_simps)

lemma cache_clean:
  assumes "bufs_ok s" and "a_pins (cache s m) = 0"
  shows "cache s m = cold (platter s) m"
  using assms by (cases rule: cache_cases [where bn = m]) (auto simp: hot_def)

lemma lock_none: "bufs_ok s \<Longrightarrow> a_pins (cache s m) = 0 \<Longrightarrow> a_lock (cache s m) = None"
  by (simp add: cache_clean)

lemma view_of: "bufs_ok s \<Longrightarrow> a_buf (cache s m) = Some b \<Longrightarrow> bcut (bdata (bufs s b)) = a_view (cache s m)"
  using cache_buf [of s m b] cache_hot [of s b m] by simp

lemma bcut_put: "bcut (put_bytes d 0 BSIZE e) = bcut e"
  by (auto simp: bcut_def put_bytes_def fun_eq_iff)

lemma bread_lost: "\<not> virtio_device (device s) \<and> platter t = platter s \<Longrightarrow> lost s t"
  by (simp add: lost_def)

text \<open>Two blocks read, the second copied into the first, which is written: \<open>l\<close> gets the content of \<open>h\<close>.\<close>

lemma pins_two:
  assumes "bc_ok p s" and "l \<noteq> h" and "cache t = (cache s)(l := x)" and "a_pins (cache s h) \<noteq> 0 \<or> card (pinned s) < 29"
  shows "a_pins (cache t h) \<noteq> 0 \<or> card (pinned t) < NBUF"
proof -
  have "pinned t \<subseteq> insert l (pinned s)" using assms(3) by (auto simp: pinned_def)
  then have "card (pinned t) \<le> card (insert l (pinned s))" by (intro card_mono) simp_all
  also have "\<dots> \<le> Suc (card (pinned s))" by (simp add: card_insert_if)
  finally show ?thesis using assms(2,3,4) by auto
qed

lemma read_two:
  assumes s: "bc_ok p s" and l: "a_pins (cache s l) = 0" "unat l < 2 ^ 31" "card (pinned s) < NBUF"
    and h: "l \<noteq> h" "unat h < 2 ^ 31" "a_lock (cache s h) = None" "a_pins (cache s h) + 1 \<noteq> 0"
      "a_pins (cache s h) \<noteq> 0 \<or> card (pinned s) < 29"
    and k: "\<And>a b t. bc_ok p t \<Longrightarrow> dsys p s t \<Longrightarrow> disk t = disk s \<Longrightarrow>
      cache t = (cache s)(l := lock_pin (ppid (procs s p)) a (cache s l), h := lock_pin (ppid (procs s p)) b (cache s h)) \<Longrightarrow>
      kout (f a b) Q (lost s) t"
  shows "kout (kbind (bread 1 l) (\<lambda>a. kbind (bread 1 h) (f a))) Q (lost s) s"
proof (rule kout_bindI [OF bread_spec [OF s]])
  show "a_lock (cache s l) = None" using lock_none [OF bc_okD(1) [OF s] l(1)] .
  fix a t assume t: "bc_ok p t \<and> dsys p s t \<and> platter t = platter s \<and>
    cache t = (cache s)(l := lock_pin (ppid (procs s p)) a (cache s l))"
  then have t1: "bc_ok p t" "cache t = (cache s)(l := lock_pin (ppid (procs s p)) a (cache s l))" by simp_all
  show "kout (kbind (bread 1 h) (f a)) Q (lost s) t"
  proof (rule kout_bindI [OF bread_spec [OF t1(1)]])
    show "a_pins (cache t h) \<noteq> 0 \<or> card (pinned t) < NBUF" by (rule pins_two [OF s h(1) t1(2) h(5)])
    fix b u assume "bc_ok p u \<and> dsys p t u \<and> platter u = platter t \<and>
      cache u = (cache t)(h := lock_pin (ppid (procs t p)) b (cache t h))"
    then show "kout (f a b) Q (lost s) u"
      using t h(1) dsys_simps(1) [of p s t] dsys_trans [of p s t u] by (intro k) auto
  qed (use t h in \<open>auto simp: lost_def dsys_simps\<close>)
qed (use l in \<open>auto simp: lost_def\<close>)

lemma copy_writeI:
  fixes t :: "'x diskstate_scheme"
  assumes t: "bc_ok p t" and x: "a_buf (cache t x) = Some d" "a_lock (cache t x) = Some (ppid (procs t p))"
    and y: "a_buf (cache t y) = Some e" and E: "\<And>u. lost t u \<Longrightarrow> E u"
    and k: "\<And>u. bc_ok p u \<Longrightarrow> dsys p t u \<Longrightarrow> disk u = (disk t)(x := a_view (cache t y)) \<Longrightarrow>
      cache u = (cache t)(x := (cache t x)\<lparr>a_view := a_view (cache t y)\<rparr>) \<Longrightarrow> kout rest Q E u"
  shows "kout (kseq (buf_copy d e) (kseq (bwrite d) rest)) Q E t"
proof -
  let ?v = "a_view (cache t y)"
  define r where "r = t\<lparr>bufs := (bufs t)(d := (bufs t d)\<lparr>bdata := put_bytes (bdata (bufs t d)) 0 BSIZE (bdata (bufs t e))\<rparr>)\<rparr>"
  have cut: "bcut (put_bytes (bdata (bufs t d)) 0 BSIZE (bdata (bufs t e))) = ?v"
    using view_of [OF bc_okD(1) [OF t] y] by (simp only: bcut_put)
  note r = data_spec [OF t x(1) r_def, unfolded cut]
  have pl: "platter r = platter t" by (simp add: r_def)
  have r1: "a_buf (cache r x) = Some d" "a_lock (cache r x) = Some (ppid (procs r p))" "a_view (cache r x) = ?v"
    using r(3) x dsys_simps(1) [OF r(2)] by simp_all
  have "kout (kbind (bwrite d) (\<lambda>_. rest)) Q E r"
  proof (rule kout_bindI [OF bwrite_spec [OF r(1) r1(1,2)]])
    fix u :: "'x diskstate_scheme"
    assume "\<not> virtio_device (device r) \<and> platter u = platter r"
    then show "E u" using dsys_simps(2) [OF r(2)] pl by (intro E) (simp add: lost_def)
  next
    fix w and u :: "'x diskstate_scheme"
    assume "bc_ok p u \<and> dsys p r u \<and> cache u = cache r \<and> disk u = (disk r)(x := a_view (cache r x))"
    then show "kout rest Q E u"
      using r dsys_trans [OF r(2)] pl by (intro k) (simp_all add: r1)
  qed
  then show ?thesis by (simp add: kout_simps r_def)
qed

lemma relseI:
  assumes t: "bc_ok p t" and x: "a_buf (cache t x) = Some d" "a_lock (cache t x) = Some (ppid (procs t p))"
      "a_pins (cache t x) = 1 \<Longrightarrow> a_view (cache t x) = disk t x"
    and k: "\<And>u. bc_ok p u \<Longrightarrow> dsys p t u \<Longrightarrow> disk u = disk t \<Longrightarrow>
      cache u = (cache t)(x := (cache t x)\<lparr>a_pins := a_pins (cache t x) - 1, a_lock := None,
        a_buf := if a_pins (cache t x) = 1 then None else Some d\<rparr>) \<Longrightarrow> kout rest Q E u"
  shows "kout (kseq (brelse d) rest) Q E t"
  by (rule kout_bindI [OF brelse_spec [OF t x]]) (use k in auto)

lemma kseq_kret: "kseq m (kret ()) = m"
  by (simp add: fun_eq_iff kop_simps split: kres.split)

lemma relse_lastI:
  assumes t: "bc_ok p t" and x: "a_buf (cache t x) = Some d" "a_lock (cache t x) = Some (ppid (procs t p))"
      "a_pins (cache t x) = 1 \<Longrightarrow> a_view (cache t x) = disk t x"
    and k: "\<And>u. bc_ok p u \<Longrightarrow> dsys p t u \<Longrightarrow> disk u = disk t \<Longrightarrow>
      cache u = (cache t)(x := (cache t x)\<lparr>a_pins := a_pins (cache t x) - 1, a_lock := None,
        a_buf := if a_pins (cache t x) = 1 then None else Some d\<rparr>) \<Longrightarrow> Q () u"
  shows "kout (brelse d) Q E t"
  using relseI [OF t x, where rest = "kret ()" and Q = Q and E = E] k by (simp add: kseq_kret kout_simps)

lemma write_log_one_spec:
  assumes s: "bc_ok p s" and g: "lg_dev (klog s) = 1" "l = log_bno (klog s) i" "h = lh_block (lh (klog s)) i"
    and l: "a_pins (cache s l) = 0" "unat l < 2 ^ 31" "card (pinned s) < NBUF"
    and h: "l \<noteq> h" "unat h < 2 ^ 31" "a_lock (cache s h) = None" "a_pins (cache s h) + 1 \<noteq> 0" "a_pins (cache s h) \<noteq> 0"
  shows "kout (write_log_one i)
    (\<lambda>_ t. bc_ok p t \<and> dsys p s t \<and> disk t = (disk s)(l := a_view (cache s h)) \<and>
       bk t = (bk s)(l := clean (a_view (cache s h)))) (lost s) s"
proof -
  let ?pid = "ppid (procs s p)" and ?v = "a_view (cache s h)"
  have l0: "a_lock (cache s l) = None" by (rule lock_none [OF bc_okD(1) [OF s] l(1)])
  have h': "a_pins (cache s h) \<noteq> 0 \<or> card (pinned s) < 29" using h by simp
  have "kout (kbind (bread 1 l) (\<lambda>to. kbind (bread 1 h) (\<lambda>from.
      kseq (buf_copy to from) (kseq (bwrite to) (kseq (brelse from) (brelse to))))))
    (\<lambda>_ t. bc_ok p t \<and> dsys p s t \<and> disk t = (disk s)(l := ?v) \<and> bk t = (bk s)(l := clean ?v)) (lost s) s"
  proof (rule read_two [OF s l h(1-4) h'])
    fix a b t
    assume t: "bc_ok p t" "dsys p s t" "disk t = disk s"
      "cache t = (cache s)(l := lock_pin ?pid a (cache s l), h := lock_pin ?pid b (cache s h))"
    have d: "device t = device s" "procs t p = procs s p" using t(2) by (simp_all add: dsys_simps)
    show "kout (kseq (buf_copy a b) (kseq (bwrite a) (kseq (brelse b) (brelse a))))
      (\<lambda>_ t. bc_ok p t \<and> dsys p s t \<and> disk t = (disk s)(l := ?v) \<and> bk t = (bk s)(l := clean ?v)) (lost s) t"
    proof (rule copy_writeI [OF t(1), where x = l and y = h])
      fix u assume u: "bc_ok p u" "dsys p t u" "disk u = (disk t)(l := a_view (cache t h))"
        "cache u = (cache t)(l := (cache t l)\<lparr>a_view := a_view (cache t h)\<rparr>)"
      then have du: "procs u p = procs s p" using d by (simp add: dsys_simps)
      show "kout (kseq (brelse b) (brelse a))
        (\<lambda>_ t. bc_ok p t \<and> dsys p s t \<and> disk t = (disk s)(l := ?v) \<and> bk t = (bk s)(l := clean ?v)) (lost s) u"
      proof (rule relseI [OF u(1), where x = h])
        fix v assume v: "bc_ok p v" "dsys p u v" "disk v = disk u"
          "cache v = (cache u)(h := (cache u h)\<lparr>a_pins := a_pins (cache u h) - 1, a_lock := None,
            a_buf := if a_pins (cache u h) = 1 then None else Some b\<rparr>)"
        show "kout (brelse a)
          (\<lambda>_ t. bc_ok p t \<and> dsys p s t \<and> disk t = (disk s)(l := ?v) \<and> bk t = (bk s)(l := clean ?v)) (lost s) v"
        proof (rule relse_lastI [OF v(1), where x = l])
          fix w assume w: "bc_ok p w" "dsys p v w" "disk w = disk v"
            "cache w = (cache v)(l := (cache v l)\<lparr>a_pins := a_pins (cache v l) - 1, a_lock := None,
              a_buf := if a_pins (cache v l) = 1 then None else Some a\<rparr>)"
          have "dsys p s w" using t(2) u(2) v(2) w(2) dsys_trans by blast
          moreover have "bk w = (bk s)(l := clean ?v)"
            unfolding w(4) v(4) u(4) t(4) using h l by (auto simp: fun_eq_iff spec_of_def clean_def)
          moreover have "disk w = (disk s)(l := ?v)" unfolding w(3) v(3) u(3) t(3) using t(4) h(1) by simp
          ultimately show "bc_ok p w \<and> dsys p s w \<and> disk w = (disk s)(l := ?v) \<and> bk w = (bk s)(l := clean ?v)"
            using w(1) by blast
        qed (use v u t h l du in \<open>auto simp: dsys_simps\<close>)
      qed (use u t h l du in \<open>auto simp: dsys_simps\<close>)
    qed (use t h d in \<open>auto simp: lost_def\<close>)
  qed
  then show ?thesis by (simp add: write_log_one_def kout_simps g)
qed

lemma unpinI:
  assumes t: "bc_ok p t" and x: "a_buf (cache t x) = Some d" "\<not> r \<Longrightarrow> a_pins (cache t x) \<noteq> 1"
    and k: "\<And>u. bc_ok p u \<Longrightarrow> dsys p t u \<Longrightarrow> disk u = disk t \<Longrightarrow>
      cache u = (cache t)(x := (cache t x)\<lparr>a_pins := a_pins (cache t x) - (if r then 0 else 1)\<rparr>) \<Longrightarrow> kout rest Q E u"
  shows "kout (kseq (kwhen (\<not> r) (bunpin d)) rest) Q E t"
proof (cases r)
  case True
  then have "kout rest Q E t" using t by (intro k) simp_all
  then show ?thesis using True by (simp add: kout_simps)
next
  case False
  then show ?thesis
    unfolding kout_kbind kout_kwhen using k by (auto intro!: kout_mono [OF bunpin_spec [OF t x]])
qed

lemma install_one_spec:
  assumes s: "bc_ok p s" and g: "lg_dev (klog s) = 1" "l = log_bno (klog s) i" "h = lh_block (lh (klog s)) i"
    and l: "a_pins (cache s l) = 0" "unat l < 2 ^ 31" "card (pinned s) < NBUF"
    and h: "l \<noteq> h" "unat h < 2 ^ 31" "a_lock (cache s h) = None" "a_pins (cache s h) + 1 \<noteq> 0"
    and r: "if r then a_pins (cache s h) = 0 \<and> card (pinned s) < 29 else a_pins (cache s h) \<noteq> 0"
  shows "kout (install_one r i)
    (\<lambda>_ t. bc_ok p t \<and> dsys p s t \<and> disk t = (disk s)(h := disk s l) \<and>
       bk t = (bk s)(h := \<lparr>s_view = disk s l, s_pins = a_pins (cache s h) - (if r then 0 else 1), s_lock = None\<rparr>)) (lost s) s"
proof -
  let ?pid = "ppid (procs s p)" and ?v = "disk s l"
  let ?Q = "\<lambda>_ t. bc_ok p t \<and> dsys p s t \<and> disk t = (disk s)(h := ?v) \<and>
    bk t = (bk s)(h := \<lparr>s_view = ?v, s_pins = a_pins (cache s h) - (if r then 0 else 1), s_lock = None\<rparr>)"
  have cl: "cache s l = cold (platter s) l" by (rule cache_clean [OF bc_okD(1) [OF s] l(1)])
  have h': "a_pins (cache s h) \<noteq> 0 \<or> card (pinned s) < 29" using r by (simp split: if_splits)
  have "kout (kbind (bread 1 l) (\<lambda>lbuf. kbind (bread 1 h) (\<lambda>dbuf.
      kseq (buf_copy dbuf lbuf) (kseq (bwrite dbuf) (kseq (kwhen (\<not> r) (bunpin dbuf)) (kseq (brelse lbuf) (brelse dbuf)))))))
    ?Q (lost s) s"
  proof (rule read_two [OF s l h(1-4) h'])
    fix a b t
    assume t: "bc_ok p t" "dsys p s t" "disk t = disk s"
      "cache t = (cache s)(l := lock_pin ?pid a (cache s l), h := lock_pin ?pid b (cache s h))"
    have d: "device t = device s" "procs t p = procs s p" using t(2) by (simp_all add: dsys_simps)
    show "kout (kseq (buf_copy b a) (kseq (bwrite b) (kseq (kwhen (\<not> r) (bunpin b)) (kseq (brelse a) (brelse b))))) ?Q (lost s) t"
    proof (rule copy_writeI [OF t(1), where x = h and y = l])
      fix u assume u: "bc_ok p u" "dsys p t u" "disk u = (disk t)(h := a_view (cache t l))"
        "cache u = (cache t)(h := (cache t h)\<lparr>a_view := a_view (cache t l)\<rparr>)"
      then have du: "procs u p = procs s p" using d by (simp add: dsys_simps)
      show "kout (kseq (kwhen (\<not> r) (bunpin b)) (kseq (brelse a) (brelse b))) ?Q (lost s) u"
      proof (rule unpinI [OF u(1), where x = h])
        fix v assume v: "bc_ok p v" "dsys p u v" "disk v = disk u"
          "cache v = (cache u)(h := (cache u h)\<lparr>a_pins := a_pins (cache u h) - (if r then 0 else 1)\<rparr>)"
        then have dv: "procs v p = procs s p" using du by (simp add: dsys_simps)
        have cv: "cache v l = lock_pin ?pid a (cold (platter s) l)"
            "cache v h = (lock_pin ?pid b (cache s h))\<lparr>a_view := ?v, a_pins := a_pins (cache s h) + 1 - (if r then 0 else 1)\<rparr>"
            "disk v = (disk s)(h := ?v)"
          unfolding v(3,4) u(3,4) t(3) t(4) using h(1) cl by simp_all
        show "kout (kseq (brelse a) (brelse b)) ?Q (lost s) v"
        proof (rule relseI [OF v(1), where x = l])
          fix w assume w: "bc_ok p w" "dsys p v w" "disk w = disk v"
            "cache w = (cache v)(l := (cache v l)\<lparr>a_pins := a_pins (cache v l) - 1, a_lock := None,
              a_buf := if a_pins (cache v l) = 1 then None else Some a\<rparr>)"
          show "kout (brelse b) ?Q (lost s) w"
          proof (rule relse_lastI [OF w(1), where x = h])
            fix x assume x: "bc_ok p x" "dsys p w x" "disk x = disk w"
              "cache x = (cache w)(h := (cache w h)\<lparr>a_pins := a_pins (cache w h) - 1, a_lock := None,
                a_buf := if a_pins (cache w h) = 1 then None else Some b\<rparr>)"
            have "dsys p s x" using t(2) u(2) v(2) w(2) x(2) dsys_trans by blast
            moreover have "bk x = (bk s)(h := \<lparr>s_view = ?v, s_pins = a_pins (cache s h) - (if r then 0 else 1), s_lock = None\<rparr>)"
              unfolding x(4) w(4) v(4) u(4) t(4) using h(1) cl by (auto simp: fun_eq_iff spec_of_def)
            moreover have "disk x = (disk s)(h := ?v)" unfolding x(3) w(3) cv(3) ..
            ultimately show "?Q () x" using x(1) by blast
          qed (use w cv h dv in \<open>auto simp: dsys_simps\<close>)
        qed (use cv h dv in \<open>auto simp: dsys_simps\<close>)
      qed (use u t h r in \<open>auto split: if_splits\<close>)
    qed (use t h d in \<open>auto simp: lost_def\<close>)
  qed
  then show ?thesis by (simp add: install_one_def kout_simps g)
qed

section \<open>The header\<close>

primrec put_blocks :: "(nat \<Rightarrow> u32) \<Rightarrow> nat \<Rightarrow> block \<Rightarrow> block" where
  "put_blocks f 0 d = d"
| "put_blocks f (Suc n) d = put32 (put_blocks f n d) (4 + 4 * n) (f n)"

definition header :: "logheader \<Rightarrow> block \<Rightarrow> block" where
  "header h d = put_blocks (lh_block h) (nat (lh_n h)) (put32 d 0 (word_of_int (lh_n h)))"

lemma bcut_put32: "off + 4 \<le> BSIZE \<Longrightarrow> bcut (put32 d off w) = put32 (bcut d) off w"
  by (auto simp: bcut_def put32_def put_bytes_def fun_eq_iff)

lemma bcut_put_blocks: "n \<le> 255 \<Longrightarrow> bcut (put_blocks f n d) = put_blocks f n (bcut d)"
  by (induction n) (simp_all add: bcut_put32)

lemma bcut_header: "nat (lh_n h) \<le> LOGSIZE \<Longrightarrow> bcut (header h d) = header h (bcut d)"
  by (simp add: header_def bcut_put_blocks bcut_put32)

lemma get_put_blocks:
  "get32 (put_blocks f n d) 0 = get32 d 0"
  "i < n \<Longrightarrow> get32 (put_blocks f n d) (4 + 4 * i) = f i"
  by (induction n) (auto simp: get_put_other less_Suc_eq)

lemma header_reads:
  "get32 (header h d) 0 = word_of_int (lh_n h)"
  "i < nat (lh_n h) \<Longrightarrow> get32 (header h d) (4 + 4 * i) = lh_block h i"
  by (simp_all add: header_def get_put_blocks)

lemma put_blocks_loop:
  "kfor [0..<n] (\<lambda>i. buf_upd b (\<lambda>x. x\<lparr>bdata := put32 (bdata x) (4 + 4 * i) (f i)\<rparr>)) s =
     Ok () (s\<lparr>bufs := (bufs s)(b := (bufs s b)\<lparr>bdata := put_blocks f n (bdata (bufs s b))\<rparr>)\<rparr>)"
proof -
  have "kout (kfor [0..<n] (\<lambda>i. buf_upd b (\<lambda>x. x\<lparr>bdata := put32 (bdata x) (4 + 4 * i) (f i)\<rparr>)))
    (\<lambda>_ t. t = s\<lparr>bufs := (bufs s)(b := (bufs s b)\<lparr>bdata := put_blocks f n (bdata (bufs s b))\<rparr>)\<rparr>) (\<lambda>_. False) s"
    by (rule kout_kfor [where I = "\<lambda>n t. t = s\<lparr>bufs := (bufs s)(b := (bufs s b)\<lparr>bdata := put_blocks f n (bdata (bufs s b))\<rparr>)\<rparr>"])
      (simp_all add: kout_simps)
  then show ?thesis by (auto simp: kout_total)
qed

lemma read_blocks_loop:
  fixes s :: "'x logstate_scheme"
  shows "kfor [0..<n] (\<lambda>i. log_mod (\<lambda>g. g\<lparr>lh := (lh g)\<lparr>lh_block := (lh_block (lh g))(i := f i)\<rparr>\<rparr>)) s =
     Ok () (s\<lparr>klog := (klog s)\<lparr>lh := (lh (klog s))\<lparr>lh_block := (\<lambda>i. if i < n then f i else lh_block (lh (klog s)) i)\<rparr>\<rparr>\<rparr>)"
proof -
  let ?t = "\<lambda>n. s\<lparr>klog := (klog s)\<lparr>lh := (lh (klog s))\<lparr>lh_block := (\<lambda>i. if i < n then f i else lh_block (lh (klog s)) i)\<rparr>\<rparr>\<rparr>"
  have upd: "(\<lambda>j. if j < i then f j else lh_block (lh (klog s)) j)(i := f i) =
      (\<lambda>j. if j < Suc i then f j else lh_block (lh (klog s)) j)" for i
    by (auto simp: fun_eq_iff)
  have "kout (kfor [0..<n] (\<lambda>i. log_mod (\<lambda>g. g\<lparr>lh := (lh g)\<lparr>lh_block := (lh_block (lh g))(i := f i)\<rparr>\<rparr>)))
    (\<lambda>_ t. t = ?t n) (\<lambda>_. False) s"
    by (rule kout_kfor [where I = "\<lambda>n t. t = ?t n"]) (simp_all add: kout_simps upd)
  then show ?thesis by (auto simp: kout_total)
qed

lemma write_head_spec:
  assumes s: "bc_ok p s" and g: "lg_dev (klog s) = 1" "h = word_of_int (lg_start (klog s))"
    and h: "a_pins (cache s h) = 0" "unat h < 2 ^ 31" "card (pinned s) < NBUF" and n: "nat (lh_n (lh (klog s))) \<le> LOGSIZE"
  shows "kout write_head
    (\<lambda>_ t. bc_ok p t \<and> dsys p s t \<and> disk t = (disk s)(h := header (lh (klog s)) (disk s h)) \<and>
       bk t = (bk s)(h := clean (header (lh (klog s)) (disk s h)))) (lost s) s"
proof -
  let ?pid = "ppid (procs s p)" and ?v = "header (lh (klog s)) (disk s h)" and ?H = "lh (klog s)"
  let ?Q = "\<lambda>_ t. bc_ok p t \<and> dsys p s t \<and> disk t = (disk s)(h := ?v) \<and> bk t = (bk s)(h := clean ?v)"
  have cl: "cache s h = cold (platter s) h" by (rule cache_clean [OF bc_okD(1) [OF s] h(1)])
  have "kout (kbind (bread 1 h) (\<lambda>b.
     kseq (buf_upd b (\<lambda>x. x\<lparr>bdata := put32 (bdata x) 0 (word_of_int (lh_n ?H))\<rparr>))
    (kseq (kfor [0..<nat (lh_n ?H)] (\<lambda>i. buf_upd b (\<lambda>x. x\<lparr>bdata := put32 (bdata x) (4 + 4 * i) (lh_block ?H i)\<rparr>)))
    (kseq (bwrite b) (brelse b))))) ?Q (lost s) s"
  proof (rule kout_bindI [OF bread_spec [OF s]])
    fix b t assume t: "bc_ok p t \<and> dsys p s t \<and> platter t = platter s \<and> cache t = (cache s)(h := lock_pin ?pid b (cache s h))"
    then have t1: "bc_ok p t" "a_buf (cache t h) = Some b" "a_lock (cache t h) = Some ?pid" "dsys p s t"
      "cache t h = lock_pin ?pid b (cold (platter s) h)" using cl by simp_all
    define r where "r = t\<lparr>bufs := (bufs t)(b := (bufs t b)\<lparr>bdata := header ?H (bdata (bufs t b))\<rparr>)\<rparr>"
    have cut: "bcut (header ?H (bdata (bufs t b))) = ?v"
      using view_of [OF bc_okD(1) [OF t1(1)] t1(2)] t1(5) n by (simp add: bcut_header)
    note r = data_spec [OF t1(1,2) r_def, unfolded cut]
    have pl: "platter r = platter s" using t by (simp add: r_def)
    have d: "procs r p = procs s p" "device r = device s" using r(2) t1(4) by (simp_all add: dsys_simps)
    have r1: "a_buf (cache r h) = Some b" "a_lock (cache r h) = Some (ppid (procs r p))" "a_view (cache r h) = ?v"
      using r(3) t1 d by simp_all
    have "kout (kseq (bwrite b) (brelse b)) ?Q (lost s) r"
    proof (rule kout_bindI [OF bwrite_spec [OF r(1) r1(1,2)]])
      fix x u assume u: "bc_ok p u \<and> dsys p r u \<and> cache u = cache r \<and> disk u = (disk r)(h := a_view (cache r h))"
      then have du: "procs u p = procs s p" using d by (auto simp: dsys_simps)
      show "kout (brelse b) ?Q (lost s) u"
      proof (rule relse_lastI [where x = h and t = u and p = p])
        fix w assume w: "bc_ok p w" "dsys p u w" "disk w = disk u"
          "cache w = (cache u)(h := (cache u h)\<lparr>a_pins := a_pins (cache u h) - 1, a_lock := None,
            a_buf := if a_pins (cache u h) = 1 then None else Some b\<rparr>)"
        have "bk w = (bk s)(h := clean ?v)"
          using w(4) u r(3) t cl by (simp add: fun_eq_iff spec_of_def clean_def)
        moreover have "dsys p s w" using dsys_trans [OF t1(4) dsys_trans [OF r(2)]] dsys_trans u w(2) by blast
        ultimately show "?Q () w" using w(1,3) u r1(3) pl by simp
      qed (use u r1 du d in simp_all)
    qed (use d pl in \<open>simp add: lost_def\<close>)
    then show "kout (kseq (buf_upd b (\<lambda>x. x\<lparr>bdata := put32 (bdata x) 0 (word_of_int (lh_n ?H))\<rparr>))
      (kseq (kfor [0..<nat (lh_n ?H)] (\<lambda>i. buf_upd b (\<lambda>x. x\<lparr>bdata := put32 (bdata x) (4 + 4 * i) (lh_block ?H i)\<rparr>)))
      (kseq (bwrite b) (brelse b)))) ?Q (lost s) t"
      by (simp add: kout_simps kout_Ok [OF put_blocks_loop] r_def header_def)
  qed (use h cl in \<open>auto simp: lost_def\<close>)
  then show ?thesis by (simp add: write_head_def kout_simps g)
qed

text \<open>The header in memory changes independently of the cache.\<close>

lemma klog_upd [simp]: "bc_ok p (s\<lparr>klog := g\<rparr>) = bc_ok p s" "cache (s\<lparr>klog := g\<rparr>) = cache s" "pinned (s\<lparr>klog := g\<rparr>) = pinned s"
proof -
  have "hot (s\<lparr>klog := g\<rparr>) = hot s" "ab_of (s\<lparr>klog := g\<rparr>) = ab_of s" by (simp_all add: hot_def ab_of_def fun_eq_iff)
  then show c: "cache (s\<lparr>klog := g\<rparr>) = cache s" by (simp add: cache_def fun_eq_iff split: option.split)
  then show "pinned (s\<lparr>klog := g\<rparr>) = pinned s" by (simp add: pinned_def)
  show "bc_ok p (s\<lparr>klog := g\<rparr>) = bc_ok p s"
    by (simp add: bc_ok_def proc_ready_def bufs_ok_def buf_ok_def)
qed

lemma dsys_klog_upd: "dsys p s t \<Longrightarrow> dsys p (s\<lparr>klog := g\<rparr>) (t\<lparr>klog := g\<rparr>)"
  unfolding dsys_def [of p s t]
proof (elim exE conjE)
  fix ks ps sl v r B pl
  assume t: "t = s\<lparr>lks := ks, procs := ps, slocks := sl, vd := v, vregs := r, bufs := B, platter := pl\<rparr>" "ps p = procs s p"
  have "dsys p (s\<lparr>klog := g\<rparr>) ((s\<lparr>klog := g\<rparr>)\<lparr>lks := ks, procs := ps, slocks := sl, vd := v, vregs := r, bufs := B, platter := pl\<rparr>)"
    by (rule dsysI) (simp add: t)
  moreover have "(s\<lparr>klog := g\<rparr>)\<lparr>lks := ks, procs := ps, slocks := sl, vd := v, vregs := r, bufs := B, platter := pl\<rparr> = t\<lparr>klog := g\<rparr>"
    by (simp add: t)
  ultimately show ?thesis by (simp only:)
qed

definition head_n :: "block \<Rightarrow> int" where
  "head_n d = sint (get32 d 0)"

definition head_of :: "klog \<Rightarrow> block \<Rightarrow> klog" where
  "head_of g d = g\<lparr>lh := (lh g)\<lparr>lh_n := head_n d,
     lh_block := (\<lambda>i. if i < nat (head_n d) then get32 d (4 + 4 * i) else lh_block (lh g) i)\<rparr>\<rparr>"

lemma get32_bcut: "off + 4 \<le> BSIZE \<Longrightarrow> get32 (bcut d) off = get32 d off"
  by (rule get_bytes_cong) (simp add: bcut_def)

lemma read_head_spec:
  assumes s: "bc_ok p s" and g: "lg_dev (klog s) = 1" "h = word_of_int (lg_start (klog s))"
    and h: "a_pins (cache s h) = 0" "unat h < 2 ^ 31" "card (pinned s) < NBUF" and n: "head_n (disk s h) \<le> int LOGSIZE"
  shows "kout read_head
    (\<lambda>_ t. bc_ok p t \<and> dsys p (s\<lparr>klog := head_of (klog s) (disk s h)\<rparr>) t \<and> disk t = disk s \<and> bk t = bk s) (lost s) s"
proof -
  let ?pid = "ppid (procs s p)" and ?g = "head_of (klog s) (disk s h)"
  let ?Q = "\<lambda>_ t. bc_ok p t \<and> dsys p (s\<lparr>klog := ?g\<rparr>) t \<and> disk t = disk s \<and> bk t = bk s"
  have cl: "cache s h = cold (platter s) h" by (rule cache_clean [OF bc_okD(1) [OF s] h(1)])
  have "kout (kbind (bread 1 h) (\<lambda>b. kbind (bget_field b bdata) (\<lambda>d.
     let n = sint (get32 d 0) in
     kseq (set_lh_n n)
    (kseq (if n > int LOGSIZE then kstop (Faulted ''log.lh.block'') else kret ())
    (kseq (kfor [0..<nat n] (\<lambda>i. log_mod (\<lambda>g. g\<lparr>lh := (lh g)\<lparr>lh_block := (lh_block (lh g))(i := get32 d (4 + 4 * i))\<rparr>\<rparr>)))
     (brelse b)))))) ?Q (lost s) s"
  proof (rule kout_bindI [OF bread_spec [OF s]])
    fix b t assume t: "bc_ok p t \<and> dsys p s t \<and> platter t = platter s \<and> cache t = (cache s)(h := lock_pin ?pid b (cache s h))"
    then have t1: "bc_ok p t" "a_buf (cache t h) = Some b" "a_lock (cache t h) = Some ?pid" "dsys p s t"
      "cache t h = lock_pin ?pid b (cold (platter s) h)" using cl by simp_all
    have k: "klog t = klog s" "procs t p = procs s p" using dsys_facts [OF t1(4)] by simp_all
    let ?d = "bdata (bufs t b)"
    have rd: "get32 ?d off = get32 (disk s h) off" if "off + 4 \<le> 1024" for off
      using view_of [OF bc_okD(1) [OF t1(1)] t1(2)] t1(5) get32_bcut [OF that, of ?d] by simp
    have n': "sint (get32 ?d 0) = head_n (disk s h)" by (simp add: rd head_n_def)
    have g': "(klog t)\<lparr>lh := (lh (klog t))\<lparr>lh_n := head_n (disk s h), lh_block :=
        (\<lambda>i. if i < nat (head_n (disk s h)) then get32 ?d (4 + 4 * i) else lh_block (lh (klog t)) i)\<rparr>\<rparr> = ?g"
      using n by (auto simp: head_of_def k fun_eq_iff intro!: klog.equality logheader.equality rd)
    have "kout (brelse b) ?Q (lost s) (t\<lparr>klog := ?g\<rparr>)"
    proof (rule relse_lastI [where x = h and t = "t\<lparr>klog := ?g\<rparr>" and p = p])
      fix w assume w: "bc_ok p w" "dsys p (t\<lparr>klog := ?g\<rparr>) w" "disk w = disk (t\<lparr>klog := ?g\<rparr>)"
        "cache w = (cache (t\<lparr>klog := ?g\<rparr>))(h := (cache (t\<lparr>klog := ?g\<rparr>) h)\<lparr>a_pins := a_pins (cache (t\<lparr>klog := ?g\<rparr>) h) - 1, a_lock := None,
            a_buf := if a_pins (cache (t\<lparr>klog := ?g\<rparr>) h) = 1 then None else Some b\<rparr>)"
      have "bk w = bk s" using w(4) t cl by (simp add: fun_eq_iff spec_of_def)
      moreover have "dsys p (s\<lparr>klog := ?g\<rparr>) w" using dsys_trans [OF dsys_klog_upd [OF t1(4)] w(2)] .
      ultimately show "?Q () w" using w(1,3) t by simp
    qed (use t1 k t in simp_all)
    then show "kout (kbind (bget_field b bdata) (\<lambda>d.
     let n = sint (get32 d 0) in
     kseq (set_lh_n n)
    (kseq (if n > int LOGSIZE then kstop (Faulted ''log.lh.block'') else kret ())
    (kseq (kfor [0..<nat n] (\<lambda>i. log_mod (\<lambda>g. g\<lparr>lh := (lh g)\<lparr>lh_block := (lh_block (lh g))(i := get32 d (4 + 4 * i))\<rparr>\<rparr>)))
     (brelse b))))) ?Q (lost s) t"
      using n g' by (simp add: kout_simps n' Let_def kout_Ok [OF read_blocks_loop] cong: if_cong)
  qed (use h cl in \<open>auto simp: lost_def\<close>)
  then show ?thesis by (simp add: read_head_def kout_simps g)
qed

end
