(* ===== verification/Log_Crash.thy ===== *)
theory Log_Crash
  imports Log_Spec
begin

text \<open>
  Crash safety of the log. \<open>recovered\<close> says what a disk holds once its log has been
  replayed. A commit changes that content in one step, whatever the request at which the
  disk loses power, and recovery computes it and may itself be interrupted.
\<close>

section \<open>The log on the disk\<close>

text \<open>The header takes one of the \<open>LOGSIZE\<close> blocks of the log, so 29 are left for entries.\<close>

abbreviation (input) LOGMAX :: nat where "LOGMAX \<equiv> 29"

definition hblk :: "int \<Rightarrow> u32" where
  "hblk st = word_of_int st"

definition lblk :: "int \<Rightarrow> nat \<Rightarrow> u32" where
  "lblk st i = word_of_int (st + int i + 1)"

definition log_at :: "int \<Rightarrow> bool" where
  "log_at st \<longleftrightarrow> 0 \<le> st \<and> st + 31 < 2 ^ 31"

definition log_area :: "int \<Rightarrow> u32 set" where
  "log_area st = insert (hblk st) (lblk st ` {..<LOGMAX})"

lemma unat_blk: "0 \<le> x \<Longrightarrow> x < 2 ^ 31 \<Longrightarrow> unat (word_of_int x :: u32) = nat x"
  by (subst unat_eq_nat_uint, subst uint_word_of_int_eq, subst take_bit_int_eq_self) simp_all

lemma log_blocks:
  assumes "log_at st" and "i < LOGMAX"
  shows "unat (hblk st) = nat st" "unat (lblk st i) = nat st + i + 1" "unat (hblk st) < 2 ^ 31" "unat (lblk st i) < 2 ^ 31"
    "hblk st \<in> log_area st" "lblk st i \<in> log_area st"
proof -
  show 1: "unat (hblk st) = nat st" "unat (lblk st i) = nat st + i + 1"
    unfolding hblk_def lblk_def using assms unat_blk [of st] unat_blk [of "st + int i + 1"] by (auto simp: log_at_def)
  show "unat (hblk st) < 2 ^ 31" "unat (lblk st i) < 2 ^ 31" unfolding 1 using assms by (auto simp: log_at_def)
  show "hblk st \<in> log_area st" "lblk st i \<in> log_area st" using assms(2) by (auto simp: log_area_def)
qed

lemma log_distinct:
  assumes "log_at st" and "i < LOGMAX" and "j < LOGMAX"
  shows "lblk st i = lblk st j \<longleftrightarrow> i = j" "hblk st \<noteq> lblk st i"
proof -
  note u = log_blocks(1,2) [OF assms(1,2)] log_blocks(2) [OF assms(1,3)]
  show "lblk st i = lblk st j \<longleftrightarrow> i = j" using u(2,3) by (metis add_left_cancel add_right_cancel)
  show "hblk st \<noteq> lblk st i"
  proof
    assume "hblk st = lblk st i"
    then have "unat (hblk st) = unat (lblk st i)" by (simp only:)
    then show False unfolding u by simp
  qed
qed

primrec replay :: "int \<Rightarrow> (nat \<Rightarrow> u32) \<Rightarrow> nat \<Rightarrow> (u32 \<Rightarrow> block) \<Rightarrow> u32 \<Rightarrow> block" where
  "replay st B 0 D = D"
| "replay st B (Suc n) D = (replay st B n D)(B n := replay st B n D (lblk st n))"

definition head_blk :: "block \<Rightarrow> nat \<Rightarrow> u32" where
  "head_blk d i = get32 d (4 + 4 * i)"

definition recovered :: "int \<Rightarrow> (u32 \<Rightarrow> block) \<Rightarrow> u32 \<Rightarrow> block" where
  "recovered st D = replay st (head_blk (D (hblk st))) (nat (head_n (D (hblk st)))) D"

definition head_ok :: "int \<Rightarrow> block \<Rightarrow> bool" where
  "head_ok st d \<longleftrightarrow> head_n d \<le> int LOGMAX \<and> (\<forall>i<nat (head_n d). head_blk d i \<notin> log_area st \<and> unat (head_blk d i) < 2 ^ 31)"

text \<open>The blocks outside the log.\<close>

definition home_eq :: "int \<Rightarrow> (u32 \<Rightarrow> block) \<Rightarrow> (u32 \<Rightarrow> block) \<Rightarrow> bool" where
  "home_eq st D E \<longleftrightarrow> (\<forall>m. m \<notin> log_area st \<longrightarrow> D m = E m)"

primrec lastw :: "(nat \<Rightarrow> u32) \<Rightarrow> nat \<Rightarrow> u32 \<Rightarrow> nat option" where
  "lastw B 0 m = None"
| "lastw B (Suc n) m = (if B n = m then Some n else lastw B n m)"

lemma lastw_None: "lastw B n m = None \<longleftrightarrow> (\<forall>i<n. B i \<noteq> m)"
  by (induction n) (auto simp: less_Suc_eq)

lemma lastw_Some: "lastw B n m = Some i \<Longrightarrow> i < n \<and> B i = m"
  by (induction n) (auto split: if_splits)

lemma replay_eq:
  assumes "\<And>i. i < n \<Longrightarrow> B i \<notin> log_area st" and "n \<le> LOGMAX"
  shows "replay st B n D m = (case lastw B n m of None \<Rightarrow> D m | Some i \<Rightarrow> D (lblk st i))"
  using assms
proof (induction n arbitrary: m)
  case (Suc n)
  have "lblk st n \<in> log_area st" using Suc.prems(2) by (simp add: log_area_def)
  then have "lastw B n (lblk st n) = None" using Suc.prems(1) by (metis lastw_None less_Suc_eq)
  then show ?case using Suc by simp
qed simp

lemma replay_log:
  assumes "\<And>i. i < n \<Longrightarrow> B i \<notin> log_area st" and "n \<le> LOGMAX" and "m \<in> log_area st"
  shows "replay st B n D m = D m"
proof -
  have "lastw B n m = None" using assms(1,3) by (metis lastw_None)
  then show ?thesis using replay_eq [OF assms(1,2)] by simp
qed

lemma replay_again:
  assumes "\<And>i. i < n \<Longrightarrow> B i \<notin> log_area st" and "n \<le> LOGMAX" and "j \<le> n"
  shows "replay st B n (replay st B j D) = replay st B n D"
proof
  fix m
  show "replay st B n (replay st B j D) m = replay st B n D m"
  proof (cases "lastw B n m")
    case None
    then have "lastw B j m = None" using assms(3) by (auto simp: lastw_None)
    then have "replay st B j D m = D m" using replay_eq [of j B st D m] assms by simp
    then show ?thesis using None replay_eq [OF assms(1,2)] by simp
  next
    case (Some i)
    then have "i < n" by (simp add: lastw_Some)
    then have "replay st B j D (lblk st i) = D (lblk st i)"
      using assms by (intro replay_log) (auto simp: log_area_def)
    then show ?thesis using Some replay_eq [OF assms(1,2)] by simp
  qed
qed

lemma recovered_empty: "head_n (D (hblk st)) \<le> 0 \<Longrightarrow> recovered st D = D"
  by (simp add: recovered_def)

section \<open>Recovery\<close>

lemma install_recovering:
  fixes s :: "'x logstate_scheme"
  assumes s: "bc_ok p s" and g: "lg_dev (klog s) = 1" "st = lg_start (klog s)" "B = lh_block (lh (klog s))" "n = nat (lh_n (lh (klog s)))"
    and st: "log_at st" and n: "n \<le> LOGMAX" and B: "\<And>i. i < n \<Longrightarrow> B i \<notin> log_area st \<and> unat (B i) < 2 ^ 31"
    and c: "\<And>m. a_pins (cache s m) = 0"
  shows "kout (install_trans True)
    (\<lambda>_ t. bc_ok p t \<and> dsys p s t \<and> disk t = replay st B n (disk s) \<and> (\<forall>m. a_pins (cache t m) = 0))
    (\<lambda>t. \<not> virtio_device (device s) \<and> (\<exists>j\<le>n. disk t = replay st B j (disk s))) s"
proof -
  let ?I = "\<lambda>j t. bc_ok p t \<and> dsys p s t \<and> disk t = replay st B j (disk s) \<and> (\<forall>m. a_pins (cache t m) = 0)"
  have "kout (kfor [0..<n] (install_one True)) (\<lambda>_. ?I n)
      (\<lambda>t. \<not> virtio_device (device s) \<and> (\<exists>j\<le>n. disk t = replay st B j (disk s))) s"
  proof (rule kout_kfor [where I = ?I])
    fix j and t :: "'x logstate_scheme" assume j: "j < n" and t: "?I j t"
    have k: "klog t = klog s" "device t = device s" using t dsys_facts by blast+
    have pins: "a_pins (cache t m) = 0" for m using t by simp
    have l: "lblk st j \<in> log_area st" "unat (lblk st j) < 2 ^ 31" using log_blocks [OF st, of j] j n by simp_all
    have lb: "lblk st j = log_bno (klog t) j" "B j = lh_block (lh (klog t)) j" "lg_dev (klog t) = 1"
      by (simp_all only: lblk_def k g)
    have x: "pinned t = {}" "a_lock (cache t (B j)) = None"
      using pins lock_none [OF bc_okD(1), of p t] t by (simp_all add: pinned_def)
    have "kout (install_one True j) (\<lambda>_ u. bc_ok p u \<and> dsys p t u \<and> disk u = (disk t)(B j := disk t (lblk st j)) \<and>
       bk u = (bk t)(B j := \<lparr>s_view = disk t (lblk st j), s_pins = a_pins (cache t (B j)) - (if True then 0 else 1), s_lock = None\<rparr>)) (lost t) t"
      by (rule install_one_spec [OF _ lb(3,1,2)]) (use t pins l B [OF j] x in auto)
    then show "kout (install_one True j) (\<lambda>_. ?I (Suc j))
      (\<lambda>t. \<not> virtio_device (device s) \<and> (\<exists>j\<le>n. disk t = replay st B j (disk s))) t"
    proof (rule kout_mono)
      fix u assume "lost t u"
      then show "\<not> virtio_device (device s) \<and> (\<exists>j\<le>n. disk u = replay st B j (disk s))"
        using t j k by (auto simp: lost_def intro: less_imp_le)
    next
      fix u assume u: "bc_ok p u \<and> dsys p t u \<and> disk u = (disk t)(B j := disk t (lblk st j)) \<and>
        bk u = (bk t)(B j := \<lparr>s_view = disk t (lblk st j), s_pins = a_pins (cache t (B j)) - (if True then 0 else 1), s_lock = None\<rparr>)"
      then have "a_pins (cache u m) = 0" for m using pins bkD(1) [where s = u] by auto
      then show "?I (Suc j) u" using u t dsys_trans by auto
    qed
  qed (use s c in simp)
  then show ?thesis by (simp add: install_trans_def kout_simps g)
qed

lemma head_of_facts:
  "lg_dev (head_of g d) = lg_dev g" "lg_start (head_of g d) = lg_start g"
  "lh_n (lh (head_of g d)) = head_n d" "i < nat (head_n d) \<Longrightarrow> lh_block (lh (head_of g d)) i = head_blk d i"
  by (simp_all add: head_of_def head_blk_def)

lemma replay_cong: "(\<And>i. i < n \<Longrightarrow> B i = C i) \<Longrightarrow> replay st B n D = replay st C n D"
  by (induction n) simp_all

lemma zero_header: "head_n (header (h\<lparr>lh_n := 0\<rparr>) d) = 0"
  by (simp add: head_n_def header_reads)

definition reboot_ok :: "nat \<Rightarrow> 'x logstate_scheme \<Rightarrow> bool" where
  "reboot_ok p s \<longleftrightarrow> bc_ok p s \<and> (\<forall>m. a_pins (cache s m) = 0) \<and> lg_dev (klog s) = 1 \<and> log_at (lg_start (klog s))"

lemma recovery_spec:
  fixes s :: "'x logstate_scheme"
  assumes s: "reboot_ok p s" and st: "st = lg_start (klog s)" and h: "head_ok st (disk s (hblk st))"
  shows "kout recover_from_log
    (\<lambda>_ t. reboot_ok p t \<and> home_eq st (disk t) (recovered st (disk s)) \<and> head_n (disk t (hblk st)) = 0 \<and>
       lh_n (lh (klog t)) = 0 \<and> lg_start (klog t) = st)
    (\<lambda>t. \<not> virtio_device (device s) \<and> disk t (hblk st) = disk s (hblk st) \<and>
       recovered st (disk t) = recovered st (disk s)) s"
proof -
  let ?d = "disk s (hblk st)"
  let ?n = "nat (head_n ?d)" and ?g = "head_of (klog s) ?d"
  let ?E = "\<lambda>t. \<not> virtio_device (device s) \<and> disk t (hblk st) = ?d \<and> recovered st (disk t) = recovered st (disk s)"
  let ?Q = "\<lambda>_ t. reboot_ok p t \<and> home_eq st (disk t) (recovered st (disk s)) \<and> head_n (disk t (hblk st)) = 0 \<and>
    lh_n (lh (klog t)) = 0 \<and> lg_start (klog t) = st"
  have ok: "bc_ok p s" "\<And>m. a_pins (cache s m) = 0" "lg_dev (klog s) = 1" "log_at st"
    using s by (simp_all add: reboot_ok_def st)
  have hb: "hblk st = word_of_int (lg_start (klog s))" by (simp add: hblk_def st)
  have area: "hblk st \<in> log_area st" "unat (hblk st) < 2 ^ 31" using log_blocks [OF ok(4), of 0] by simp_all
  have n: "?n \<le> 29" and B: "\<And>i. i < ?n \<Longrightarrow> head_blk ?d i \<notin> log_area st \<and> unat (head_blk ?d i) < 2 ^ 31"
    using h by (auto simp: head_ok_def)
  have keep: "replay st (head_blk ?d) j (disk s) (hblk st) = ?d" if "j \<le> ?n" for j
    using n B that area(1) by (intro replay_log) auto
  have again: "recovered st (replay st (head_blk ?d) j (disk s)) = recovered st (disk s)" if "j \<le> ?n" for j
    unfolding recovered_def keep [OF that] using B n that by (intro replay_again) auto
  have none: "pinned t = {}" if "\<forall>m. a_pins (cache t m) = 0" for t :: "'x logstate_scheme" using that by (simp add: pinned_def)
  show ?thesis unfolding recover_from_log_def
  proof (rule kout_bindI [OF read_head_spec [OF ok(1,3) hb ok(2) area(2)]])
    show "card (pinned s) < NBUF" using none ok(2) by simp
    show "head_n ?d \<le> int LOGSIZE" using h by (simp add: head_ok_def)
    fix t assume "lost s t"
    then show "?E t" by (simp add: lost_def)
  next
    fix x t assume t: "bc_ok p t \<and> dsys p (s\<lparr>klog := ?g\<rparr>) t \<and> disk t = disk s \<and> bk t = bk s"
    then have k: "klog t = ?g" "device t = device s" using dsys_facts [of p "s\<lparr>klog := ?g\<rparr>" t] by simp_all
    have pins: "a_pins (cache t m) = 0" for m using t ok(2) bkD(1) [where s = t] by auto
    have rp: "replay st (lh_block (lh ?g)) j = replay st (head_blk ?d) j" if "j \<le> ?n" for j
      using that by (intro ext replay_cong [THEN fun_cong]) (simp add: head_of_facts)
    have "kout (install_trans True)
      (\<lambda>_ u. bc_ok p u \<and> dsys p t u \<and> disk u = replay st (lh_block (lh ?g)) ?n (disk t) \<and> (\<forall>m. a_pins (cache u m) = 0))
      (\<lambda>u. \<not> virtio_device (device t) \<and> (\<exists>j\<le>?n. disk u = replay st (lh_block (lh ?g)) j (disk t))) t"
      by (rule install_recovering) (use t k n B ok pins st in \<open>auto simp: head_of_facts\<close>)
    then show "kout (kseq (install_trans True) (kseq (set_lh_n 0) write_head)) ?Q ?E t"
    proof (rule kout_bindI)
      fix u assume "\<not> virtio_device (device t) \<and> (\<exists>j\<le>?n. disk u = replay st (lh_block (lh ?g)) j (disk t))"
      then show "?E u" using keep again rp t k by auto
    next
      fix y u assume u: "bc_ok p u \<and> dsys p t u \<and> disk u = replay st (lh_block (lh ?g)) ?n (disk t) \<and> (\<forall>m. a_pins (cache u m) = 0)"
      then have ku: "klog u = ?g" "device u = device s" using dsys_facts [of p t u] k by simp_all
      have du: "disk u = replay st (head_blk ?d) ?n (disk s)" using u t rp by simp
      let ?u = "u\<lparr>klog := ?g\<lparr>lh := (lh ?g)\<lparr>lh_n := 0\<rparr>\<rparr>\<rparr>"
      have "kout write_head
        (\<lambda>_ v. bc_ok p v \<and> dsys p ?u v \<and> disk v = (disk ?u)(hblk st := header (lh (klog ?u)) (disk ?u (hblk st))) \<and>
          bk v = (bk ?u)(hblk st := clean (header (lh (klog ?u)) (disk ?u (hblk st))))) (lost ?u) ?u"
        by (rule write_head_spec) (use u ok area hb none in \<open>simp_all add: head_of_facts\<close>)
      then have "kout write_head ?Q ?E ?u"
      proof (rule kout_mono)
        fix v assume "lost ?u v"
        then show "?E v" using du keep [of ?n] again [of ?n] ku by (simp add: lost_def)
      next
        fix v assume v: "bc_ok p v \<and> dsys p ?u v \<and> disk v = (disk ?u)(hblk st := header (lh (klog ?u)) (disk ?u (hblk st))) \<and>
          bk v = (bk ?u)(hblk st := clean (header (lh (klog ?u)) (disk ?u (hblk st))))"
        then have kv: "klog v = klog ?u" using dsys_klog by blast
        have "a_pins (cache v m) = 0" for m using v u bkD(1) [where s = v] by (auto simp: clean_def)
        then have "reboot_ok p v" using v kv ok(3,4) st by (simp add: reboot_ok_def head_of_facts)
        moreover have "home_eq st (disk v) (recovered st (disk s))"
          using v du area(1) by (auto simp: home_eq_def recovered_def)
        ultimately show "?Q () v" using v kv st by (simp add: head_of_facts zero_header)
      qed
      then show "kout (kseq (set_lh_n 0) write_head) ?Q ?E u" by (simp add: kout_simps ku)
    qed
  qed
qed

section \<open>Commit\<close>

text \<open>
  A transaction ready to commit: the blocks of the header are distinct, lie outside the log,
  are pinned in the cache and not locked; one buffer is free for the log.
\<close>

definition tx_ok :: "nat \<Rightarrow> 'x logstate_scheme \<Rightarrow> bool" where
  "tx_ok p s \<longleftrightarrow> bc_ok p s \<and> lg_dev (klog s) = 1 \<and> log_at (lg_start (klog s)) \<and> card (pinned s) < NBUF \<and>
     0 \<le> lh_n (lh (klog s)) \<and> lh_n (lh (klog s)) \<le> int LOGMAX \<and>
     inj_on (lh_block (lh (klog s))) {..<nat (lh_n (lh (klog s)))} \<and>
     (\<forall>m\<in>log_area (lg_start (klog s)). a_pins (cache s m) = 0) \<and>
     (\<forall>i<nat (lh_n (lh (klog s))). let m = lh_block (lh (klog s)) i in
        m \<notin> log_area (lg_start (klog s)) \<and> unat m < 2 ^ 31 \<and> a_lock (cache s m) = None \<and>
        a_pins (cache s m) \<noteq> 0 \<and> a_pins (cache s m) + 1 \<noteq> 0)"

definition committed :: "'x logstate_scheme \<Rightarrow> u32 \<Rightarrow> block" where
  "committed s m = (if m \<in> lh_block (lh (klog s)) ` {..<nat (lh_n (lh (klog s)))} then a_view (cache s m) else disk s m)"

definition logged :: "nat \<Rightarrow> 'x logstate_scheme \<Rightarrow> nat \<Rightarrow> 'x logstate_scheme \<Rightarrow> bool" where
  "logged p s j t \<longleftrightarrow> bc_ok p t \<and> dsys p s t \<and>
     (\<forall>m. m \<notin> log_area (lg_start (klog s)) \<longrightarrow> disk t m = disk s m \<and> bk t m = bk s m) \<and>
     disk t (hblk (lg_start (klog s))) = disk s (hblk (lg_start (klog s))) \<and>
     (\<forall>m\<in>log_area (lg_start (klog s)). a_pins (cache t m) = 0) \<and>
     (\<forall>i<j. disk t (lblk (lg_start (klog s)) i) = a_view (cache s (lh_block (lh (klog s)) i)))"

lemma tx_okD:
  assumes "tx_ok p s" and "st = lg_start (klog s)" and "n = nat (lh_n (lh (klog s)))" and "B = lh_block (lh (klog s))"
  shows "bc_ok p s" "lg_dev (klog s) = 1" "log_at st" "card (pinned s) < NBUF" "n \<le> LOGMAX"
    "\<And>m. m \<in> log_area st \<Longrightarrow> a_pins (cache s m) = 0" "lh_n (lh (klog s)) = int n" "inj_on B {..<n}"
    "\<And>i. i < n \<Longrightarrow> B i \<notin> log_area st \<and> unat (B i) < 2 ^ 31 \<and> a_lock (cache s (B i)) = None \<and>
      a_pins (cache s (B i)) \<noteq> 0 \<and> a_pins (cache s (B i)) + 1 \<noteq> 0"
  using assms by (simp_all add: tx_ok_def Let_def nat_le_iff)

lemma logged_pinned:
  assumes "tx_ok p s" and "logged p s j t"
  shows "pinned t = pinned s"
proof -
  have "a_pins (cache t m) = a_pins (cache s m)" for m
  proof (cases "m \<in> log_area (lg_start (klog s))")
    case True
    then show ?thesis using assms by (simp add: tx_ok_def logged_def)
  next
    case False
    then have "bk t m = bk s m" using assms(2) unfolding logged_def by blast
    then show ?thesis by (metis spec_of_simps(2))
  qed
  then show ?thesis by (simp add: pinned_def)
qed

lemma write_log_spec:
  fixes s :: "'x logstate_scheme"
  assumes tx: "tx_ok p s" and st: "st = lg_start (klog s)" and n: "n = nat (lh_n (lh (klog s)))"
  shows "kout write_log (\<lambda>_. logged p s n)
    (\<lambda>t. \<not> virtio_device (device s) \<and> home_eq st (disk t) (disk s) \<and> disk t (hblk st) = disk s (hblk st)) s"
proof -
  let ?B = "lh_block (lh (klog s))"
  let ?E = "\<lambda>t. \<not> virtio_device (device s) \<and> home_eq st (disk t) (disk s) \<and> disk t (hblk st) = disk s (hblk st)"
  note ok = tx_okD(1-6) [OF tx st n refl] and B = tx_okD(9) [OF tx st n refl]
  have "kout (kfor [0..<n] write_log_one) (\<lambda>_. logged p s n) ?E s"
  proof (rule kout_kfor [where I = "logged p s"])
    fix j and t :: "'x logstate_scheme" assume j: "j < n" and t: "logged p s j t"
    then have t1: "bc_ok p t" "dsys p s t" "\<And>m. m \<notin> log_area st \<Longrightarrow> disk t m = disk s m \<and> bk t m = bk s m"
      "disk t (hblk st) = disk s (hblk st)" "\<And>m. m \<in> log_area st \<Longrightarrow> a_pins (cache t m) = 0"
      "\<And>i. i < j \<Longrightarrow> disk t (lblk st i) = a_view (cache s (?B i))"
      by (simp_all add: logged_def st)
    have k: "klog t = klog s" "device t = device s" using dsys_facts [OF t1(2)] by simp_all
    have l: "lblk st j \<in> log_area st" "unat (lblk st j) < 2 ^ 31" using log_blocks [OF ok(3), of j] j ok(5) by simp_all
    have lb: "lblk st j = log_bno (klog t) j" "?B j = lh_block (lh (klog t)) j" "lg_dev (klog t) = 1"
      using ok(2) by (simp_all only: lblk_def k st)
    have "bk t (?B j) = bk s (?B j)" using t1(3) B [OF j] by simp
    then have h: "a_view (cache t (?B j)) = a_view (cache s (?B j))" "a_pins (cache t (?B j)) = a_pins (cache s (?B j))"
        "a_lock (cache t (?B j)) = a_lock (cache s (?B j))"
      by (metis spec_of_simps)+
    have ne: "lblk st j \<noteq> ?B j" using l(1) B [OF j] by metis
    have "kout (write_log_one j) (\<lambda>_ u. bc_ok p u \<and> dsys p t u \<and> disk u = (disk t)(lblk st j := a_view (cache t (?B j))) \<and>
       bk u = (bk t)(lblk st j := clean (a_view (cache t (?B j))))) (lost t) t"
      by (rule write_log_one_spec [OF t1(1) lb(3,1,2)])
        (use l t1(5) ne h B [OF j] logged_pinned [OF tx t] ok(4) in simp_all)
    then show "kout (write_log_one j) (\<lambda>_. logged p s (Suc j)) ?E t"
    proof (rule kout_mono)
      fix u assume "lost t u"
      then show "?E u" using t1(3,4) k by (simp add: lost_def home_eq_def)
    next
      fix u assume u: "bc_ok p u \<and> dsys p t u \<and> disk u = (disk t)(lblk st j := a_view (cache t (?B j))) \<and>
        bk u = (bk t)(lblk st j := clean (a_view (cache t (?B j))))"
      then have c: "a_pins (cache u m) = (if m = lblk st j then 0 else a_pins (cache t m))" for m
        using bkD(1) [where s = u and m = m] by (simp add: clean_def)
      have "disk u m = disk s m \<and> bk u m = bk s m" if "m \<notin> log_area st" for m
      proof -
        have "m \<noteq> lblk st j" using that l(1) by blast
        then have "disk u m = disk t m \<and> bk u m = bk t m" using u by (metis fun_upd_other)
        then show ?thesis using t1(3) [OF that] by metis
      qed
      moreover have "disk u (hblk st) = disk s (hblk st)"
        using u t1(4) log_distinct(2) [OF ok(3), of j j] j ok(5) by simp
      moreover have "disk u (lblk st i) = a_view (cache s (?B i))" if "i < Suc j" for i
        using that u t1(6) h j ok(5) log_distinct(1) [OF ok(3), of i j] by (cases "i = j") simp_all
      moreover have "dsys p s u" using u t1(2) dsys_trans by blast
      ultimately show "logged p s (Suc j) u" using u c t1(5) unfolding logged_def st by simp
    qed
  qed (use ok in \<open>simp add: logged_def st\<close>)
  then show ?thesis by (simp add: write_log_def kout_simps n)
qed

lemma install_spec:
  fixes t :: "'x logstate_scheme"
  assumes t: "bc_ok p t" and g: "lg_dev (klog t) = 1" "st = lg_start (klog t)" "B = lh_block (lh (klog t))" "n = nat (lh_n (lh (klog t)))"
    and st: "log_at st" and n: "n \<le> LOGMAX" "inj_on B {..<n}" "card (pinned t) < NBUF"
    and c: "\<And>m. m \<in> log_area st \<Longrightarrow> a_pins (cache t m) = 0"
    and B: "\<And>i. i < n \<Longrightarrow> B i \<notin> log_area st \<and> unat (B i) < 2 ^ 31 \<and> a_lock (cache t (B i)) = None \<and>
      a_pins (cache t (B i)) \<noteq> 0 \<and> a_pins (cache t (B i)) + 1 \<noteq> 0"
  shows "kout (install_trans False)
    (\<lambda>_ u. bc_ok p u \<and> dsys p t u \<and> disk u = replay st B n (disk t) \<and> pinned u \<subseteq> pinned t \<and>
       (\<forall>m. m \<notin> B ` {..<n} \<longrightarrow> bk u m = bk t m) \<and>
       (\<forall>i<n. a_pins (cache u (B i)) = a_pins (cache t (B i)) - 1 \<and> a_lock (cache u (B i)) = None))
    (\<lambda>u. \<not> virtio_device (device t) \<and> (\<exists>j\<le>n. disk u = replay st B j (disk t))) t"
proof -
  let ?E = "\<lambda>u. \<not> virtio_device (device t) \<and> (\<exists>j\<le>n. disk u = replay st B j (disk t))"
  let ?I = "\<lambda>j u. bc_ok p u \<and> dsys p t u \<and> disk u = replay st B j (disk t) \<and> pinned u \<subseteq> pinned t \<and>
    (\<forall>m. m \<notin> B ` {..<j} \<longrightarrow> bk u m = bk t m) \<and>
    (\<forall>i<j. a_pins (cache u (B i)) = a_pins (cache t (B i)) - 1 \<and> a_lock (cache u (B i)) = None)"
  have "kout (kfor [0..<n] (install_one False)) (\<lambda>_. ?I n) ?E t"
  proof (rule kout_kfor [where I = ?I])
    fix j and u :: "'x logstate_scheme" assume j: "j < n" and u: "?I j u"
    then have du: "dsys p t u" and same: "\<And>m. m \<notin> B ` {..<j} \<Longrightarrow> bk u m = bk t m" by blast+
    have k: "klog u = klog t" "device u = device t" using dsys_facts [OF du] by simp_all
    have l: "lblk st j \<in> log_area st" "unat (lblk st j) < 2 ^ 31" using log_blocks [OF st, of j] j n by simp_all
    have lb: "lblk st j = log_bno (klog u) j" "B j = lh_block (lh (klog u)) j" "lg_dev (klog u) = 1"
      by (simp_all only: lblk_def k g)
    have out: "B j \<notin> B ` {..<j}" "lblk st j \<notin> B ` {..<j}" "lblk st j \<noteq> B j"
      using n(2) j l(1) B by (force simp: inj_on_def, force, metis)
    have h: "a_pins (cache u (B j)) = a_pins (cache t (B j))" "a_lock (cache u (B j)) = a_lock (cache t (B j))"
        "a_pins (cache u (lblk st j)) = a_pins (cache t (lblk st j))"
      using same [OF out(1)] same [OF out(2)] by (metis spec_of_simps)+
    have "card (pinned u) \<le> card (pinned t)" using u by (intro card_mono) auto
    then have "kout (install_one False j) (\<lambda>_ v. bc_ok p v \<and> dsys p u v \<and> disk v = (disk u)(B j := disk u (lblk st j)) \<and>
       bk v = (bk u)(B j := \<lparr>s_view = disk u (lblk st j), s_pins = a_pins (cache u (B j)) - (if False then 0 else 1), s_lock = None\<rparr>)) (lost u) u"
      by (intro install_one_spec [OF _ lb(3,1,2)]) (use u l out(3) h c B [OF j] n(3) in auto)
    then show "kout (install_one False j) (\<lambda>_. ?I (Suc j)) ?E u"
    proof (rule kout_mono)
      fix v assume "lost u v"
      then show "?E v" using u j k by (auto simp: lost_def intro: less_imp_le)
    next
      fix v assume v: "bc_ok p v \<and> dsys p u v \<and> disk v = (disk u)(B j := disk u (lblk st j)) \<and>
        bk v = (bk u)(B j := \<lparr>s_view = disk u (lblk st j), s_pins = a_pins (cache u (B j)) - (if False then 0 else 1), s_lock = None\<rparr>)"
      then have c1: "a_pins (cache v m) = (if m = B j then a_pins (cache u (B j)) - 1 else a_pins (cache u m))"
        "a_lock (cache v m) = (if m = B j then None else a_lock (cache u m))" for m
        using bkD(1,2) [where s = v and m = m] by simp_all
      have "bk v m = bk t m" if "m \<notin> B ` {..<Suc j}" for m
      proof -
        have "m \<noteq> B j" "m \<notin> B ` {..<j}" using that by auto
        then show ?thesis using v same [of m] by (metis fun_upd_other)
      qed
      moreover have "pinned v \<subseteq> pinned t"
        using u c1(1) h(1) B [OF j] by (auto simp: pinned_def split: if_splits)
      moreover have "a_pins (cache v (B i)) = a_pins (cache t (B i)) - 1 \<and> a_lock (cache v (B i)) = None" if "i < Suc j" for i
        using that u c1 h(1) by (cases "B i = B j") (auto simp: less_Suc_eq)
      ultimately show "?I (Suc j) v" using u v dsys_trans [OF du, of v] by auto
    qed
  qed (use t in simp)
  then show ?thesis by (simp add: install_trans_def kout_simps g)
qed

lemma head_n_header: "0 \<le> lh_n h \<Longrightarrow> lh_n h \<le> int LOGMAX \<Longrightarrow> head_n (header h d) = lh_n h"
  unfolding head_n_def header_reads sint_sbintrunc' by (rule signed_take_bit_int_eq_self) simp_all

lemma home_replay:
  fixes s :: "'x logstate_scheme"
  assumes tx: "tx_ok p s" "st = lg_start (klog s)" "n = nat (lh_n (lh (klog s)))" "B = lh_block (lh (klog s))"
    and D: "home_eq st D (disk s)" "\<And>i. i < n \<Longrightarrow> D (lblk st i) = a_view (cache s (B i))"
  shows "home_eq st (replay st B n D) (committed s)"
  unfolding home_eq_def
proof (intro allI impI)
  fix m assume m: "m \<notin> log_area st"
  note ok = tx_okD [OF tx]
  have r: "replay st B n D m = (case lastw B n m of None \<Rightarrow> D m | Some i \<Rightarrow> D (lblk st i))"
    using ok(5,9) by (intro replay_eq) auto
  show "replay st B n D m = committed s m"
  proof (cases "lastw B n m")
    case None
    then have "m \<notin> B ` {..<n}" by (auto simp: lastw_None)
    then show ?thesis using r None D(1) m tx by (simp add: committed_def home_eq_def)
  next
    case (Some i)
    then have "i < n" "B i = m" by (auto dest: lastw_Some)
    then show ?thesis using r Some D(2) tx by (auto simp: committed_def)
  qed
qed

text \<open>After the header is on the disk, replaying the log gives the committed blocks, at every stage of the installation.\<close>

lemma logged_recovers:
  fixes s :: "'x logstate_scheme"
  assumes tx: "tx_ok p s" "st = lg_start (klog s)" "n = nat (lh_n (lh (klog s)))" "B = lh_block (lh (klog s))"
    and t: "logged p s n t" and D: "D = (disk t)(hblk st := header (lh (klog s)) (disk t (hblk st)))" and j: "j \<le> n"
  shows "recovered st (replay st B j D) = replay st B n D" "home_eq st (replay st B n D) (committed s)"
    "head_ok st (replay st B j D (hblk st))"
proof -
  note ok = tx_okD [OF tx]
  have a: "hblk st \<in> log_area st" using log_blocks [OF ok(3), of 0] by simp
  have h: "replay st B j D (hblk st) = D (hblk st)" using ok(5,9) j a by (intro replay_log) auto
  have hn: "head_n (D (hblk st)) = int n" using ok(5,7) by (simp add: D head_n_header)
  have hb: "head_blk (D (hblk st)) i = B i" if "i < n" for i
    using that ok(7) by (simp add: D head_blk_def header_reads tx(4))
  have "replay st (head_blk (D (hblk st))) n X = replay st B n X" for X using hb by (intro replay_cong) auto
  then show "recovered st (replay st B j D) = replay st B n D"
    using replay_again [of n B st j D] ok(5,9) j by (simp add: recovered_def h hn)
  show "head_ok st (replay st B j D (hblk st))" unfolding head_ok_def h hn using ok(5,9) hb by simp
  have "home_eq st D (disk s)" using t a by (auto simp: home_eq_def D logged_def tx(2))
  moreover have "D (lblk st i) = a_view (cache s (B i))" if "i < n" for i
    using that t log_distinct(2) [OF ok(3), of i i] ok(5) by (simp add: D logged_def tx(2,4))
  ultimately show "home_eq st (replay st B n D) (committed s)" by (intro home_replay [OF tx])
qed

lemma logged_bk:
  assumes tx: "tx_ok p s" "B = lh_block (lh (klog s))" "n = nat (lh_n (lh (klog s)))" and t: "logged p s j t" and i: "i < n"
  shows "bk t (B i) = bk s (B i)" "a_lock (cache t (B i)) = None" "a_pins (cache t (B i)) = a_pins (cache s (B i))"
proof -
  note ok = tx_okD [OF tx(1) refl tx(3,2)]
  show bk: "bk t (B i) = bk s (B i)" using t ok(9) [OF i] unfolding logged_def by blast
  show "a_lock (cache t (B i)) = None" using arg_cong [OF bk, of s_lock] ok(9) [OF i] by simp
  show "a_pins (cache t (B i)) = a_pins (cache s (B i))" using arg_cong [OF bk, of s_pins] by simp
qed

text \<open>The part of \<open>commit\<close> after the header is written.\<close>

lemma commit_tail:
  fixes s :: "'x logstate_scheme"
  assumes tx: "tx_ok p s" "st = lg_start (klog s)" "n = nat (lh_n (lh (klog s)))" "B = lh_block (lh (klog s))"
    and t: "logged p s n t" and D: "D = (disk t)(hblk st := header (lh (klog s)) (disk t (hblk st)))"
    and u: "bc_ok p u" "dsys p t u" "disk u = D" "bk u = (bk t)(hblk st := clean (D (hblk st)))"
  shows "kout (kseq (install_trans False) (kseq (set_lh_n 0) write_head))
    (\<lambda>_ v. bc_ok p v \<and> lh_n (lh (klog v)) = 0 \<and> head_n (disk v (hblk st)) = 0 \<and> home_eq st (disk v) (committed s) \<and>
       (\<forall>i<n. a_pins (cache v (B i)) = a_pins (cache s (B i)) - 1))
    (\<lambda>v. \<not> virtio_device (device s) \<and> head_ok st (disk v (hblk st)) \<and> home_eq st (recovered st (disk v)) (committed s)) u"
    (is "kout _ ?Q ?E u")
proof -
  note ok = tx_okD [OF tx] and rec = logged_recovers [OF tx t D]
  have area: "hblk st \<in> log_area st" "unat (hblk st) < 2 ^ 31" using log_blocks [OF ok(3), of 0] by simp_all
  have t1: "bc_ok p t" "dsys p s t" "\<And>m. m \<in> log_area st \<Longrightarrow> a_pins (cache t m) = 0"
    using t by (simp_all add: logged_def tx(2))
  have k: "klog u = klog s" "device u = device s" using dsys_facts [OF u(2)] dsys_facts [OF t1(2)] by simp_all
  have pu: "a_pins (cache u m) = a_pins (cache t m)" "m \<noteq> hblk st \<Longrightarrow> a_lock (cache u m) = a_lock (cache t m)" for m
    using bkD(1,2) [OF u(4), of m] t1(3) [OF area(1)] by (auto simp: clean_def)
  have pin: "card (pinned u) < 30" using logged_pinned [OF tx(1) t] ok(4) pu(1) by (simp add: pinned_def)
  have ne: "B i \<noteq> hblk st" if "i < n" for i using ok(9) [OF that] area(1) by metis
  have g: "lg_dev (klog u) = 1" "st = lg_start (klog u)" "B = lh_block (lh (klog u))" "n = nat (lh_n (lh (klog u)))"
    unfolding k by (rule ok(2) tx(2,3,4))+
  have Bu: "B i \<notin> log_area st \<and> unat (B i) < 2 ^ 31 \<and> a_lock (cache u (B i)) = None \<and>
      a_pins (cache u (B i)) \<noteq> 0 \<and> a_pins (cache u (B i)) + 1 \<noteq> 0" if "i < n" for i
    using ok(9) [OF that] pu(1) pu(2) [OF ne [OF that]] logged_bk(2,3) [OF tx(1,4,3) t that] by simp
  have "kout (install_trans False)
    (\<lambda>_ v. bc_ok p v \<and> dsys p u v \<and> disk v = replay st B n (disk u) \<and> pinned v \<subseteq> pinned u \<and>
       (\<forall>m. m \<notin> B ` {..<n} \<longrightarrow> bk v m = bk u m) \<and>
       (\<forall>i<n. a_pins (cache v (B i)) = a_pins (cache u (B i)) - 1 \<and> a_lock (cache v (B i)) = None))
    (\<lambda>v. \<not> virtio_device (device u) \<and> (\<exists>j\<le>n. disk v = replay st B j (disk u))) u"
    by (rule install_spec [OF u(1) g ok(3,5,8) pin _ Bu]) (use pu(1) t1(3) in simp)
  then show ?thesis
  proof (rule kout_bindI)
    fix v :: "'x logstate_scheme" assume "\<not> virtio_device (device u) \<and> (\<exists>j\<le>n. disk v = replay st B j (disk u))"
    then show "?E v" using rec k u(3) by auto
  next
    fix x v assume v: "bc_ok p v \<and> dsys p u v \<and> disk v = replay st B n (disk u) \<and> pinned v \<subseteq> pinned u \<and>
       (\<forall>m. m \<notin> B ` {..<n} \<longrightarrow> bk v m = bk u m) \<and>
       (\<forall>i<n. a_pins (cache v (B i)) = a_pins (cache u (B i)) - 1 \<and> a_lock (cache v (B i)) = None)"
    then have kv: "klog v = klog s" "device v = device s" using dsys_facts [of p u v] k by simp_all
    have "hblk st \<notin> B ` {..<n}" using ne by force
    then have "bk v (hblk st) = bk u (hblk st)" using v by blast
    then have hv: "a_pins (cache v (hblk st)) = 0" using pu(1) t1(3) [OF area(1)] by (metis spec_of_simps(2))
    have "card (pinned v) \<le> card (pinned u)" using v by (intro card_mono) auto
    then have cv: "card (pinned v) < 30" using pin by simp
    let ?v = "v\<lparr>klog := (klog s)\<lparr>lh := (lh (klog s))\<lparr>lh_n := 0\<rparr>\<rparr>\<rparr>"
    have "kout write_head
      (\<lambda>_ w. bc_ok p w \<and> dsys p ?v w \<and> disk w = (disk ?v)(hblk st := header (lh (klog ?v)) (disk ?v (hblk st))) \<and>
        bk w = (bk ?v)(hblk st := clean (header (lh (klog ?v)) (disk ?v (hblk st))))) (lost ?v) ?v"
      by (rule write_head_spec) (use v ok(2) area tx(2) hv cv in \<open>simp_all add: hblk_def\<close>)
    then have "kout write_head ?Q ?E ?v"
    proof (rule kout_mono)
      fix w :: "'x logstate_scheme" assume "lost ?v w"
      then show "?E w" using v kv u(3) rec [of n] by (simp add: lost_def)
    next
      fix w assume w: "bc_ok p w \<and> dsys p ?v w \<and> disk w = (disk ?v)(hblk st := header (lh (klog ?v)) (disk ?v (hblk st))) \<and>
        bk w = (bk ?v)(hblk st := clean (header (lh (klog ?v)) (disk ?v (hblk st))))"
      then have kw: "klog w = klog ?v" using dsys_klog by blast
      have "home_eq st (disk w) (committed s)"
        using w v u(3) rec(2) [of n] area(1) by (auto simp: home_eq_def)
      moreover have "a_pins (cache w (B i)) = a_pins (cache s (B i)) - 1" if "i < n" for i
        using w v that ne bkD(1) [where s = w and m = "B i"] pu(1) logged_bk(3) [OF tx(1,4,3) t that] by auto
      ultimately show "?Q () w" using w kw by (simp add: zero_header)
    qed
    then show "kout (kseq (set_lh_n 0) write_head) ?Q ?E v" by (simp add: kout_simps kv)
  qed
qed

lemma commit_spec:
  fixes s :: "'x logstate_scheme"
  assumes tx: "tx_ok p s" "st = lg_start (klog s)" "n = nat (lh_n (lh (klog s)))" "B = lh_block (lh (klog s))"
    and e: "head_n (disk s (hblk st)) = 0"
  shows "kout commit
    (\<lambda>_ v. bc_ok p v \<and> lh_n (lh (klog v)) = 0 \<and> head_n (disk v (hblk st)) = 0 \<and> home_eq st (disk v) (committed s) \<and>
       (\<forall>i<n. a_pins (cache v (B i)) = a_pins (cache s (B i)) - 1))
    (\<lambda>v. \<not> virtio_device (device s) \<and> head_ok st (disk v (hblk st)) \<and>
       (home_eq st (recovered st (disk v)) (disk s) \<or> home_eq st (recovered st (disk v)) (committed s))) s"
    (is "kout _ ?Q ?E s")
proof (cases "n = 0")
  case True
  then have z: "lh_n (lh (klog s)) = 0" using tx_okD(7) [OF tx] by simp
  then have "?Q () s" using tx_okD(1) [OF tx] e True by (simp add: home_eq_def committed_def)
  then show ?thesis using z by (simp add: commit_def kout_simps)
next
  case False
  note ok = tx_okD [OF tx]
  have area: "hblk st \<in> log_area st" "unat (hblk st) < 2 ^ 31" using log_blocks [OF ok(3), of 0] by simp_all
  have old: "?E t" if "\<not> virtio_device (device s)" "home_eq st (disk t) (disk s)" "disk t (hblk st) = disk s (hblk st)" for t :: "'x logstate_scheme"
    using that e by (simp add: recovered_empty head_ok_def)
  have "kout (kseq write_log (kseq write_head (kseq (install_trans False) (kseq (set_lh_n 0) write_head)))) ?Q ?E s"
  proof (rule kout_bindI [OF write_log_spec [OF tx(1-3)]])
    fix x t assume t: "logged p s n t"
    then have t1: "bc_ok p t" "dsys p s t" "home_eq st (disk t) (disk s)" "disk t (hblk st) = disk s (hblk st)"
        "\<And>m. m \<in> log_area st \<Longrightarrow> a_pins (cache t m) = 0"
      by (simp_all add: logged_def home_eq_def tx(2))
    have k: "klog t = klog s" "device t = device s" using dsys_facts [OF t1(2)] by simp_all
    have "kout write_head
      (\<lambda>_ u. bc_ok p u \<and> dsys p t u \<and> disk u = (disk t)(hblk st := header (lh (klog t)) (disk t (hblk st))) \<and>
        bk u = (bk t)(hblk st := clean (header (lh (klog t)) (disk t (hblk st))))) (lost t) t"
      by (rule write_head_spec)
        (use t1 k ok(2,4,5) tx(2,3) area logged_pinned [OF tx(1) t] in \<open>simp_all add: hblk_def\<close>)
    then show "kout (kseq write_head (kseq (install_trans False) (kseq (set_lh_n 0) write_head))) ?Q ?E t"
    proof (rule kout_bindI)
      fix u :: "'x logstate_scheme" assume "lost t u"
      then show "?E u" using t1 k by (intro old) (simp_all add: lost_def)
    next
      fix y u assume u: "bc_ok p u \<and> dsys p t u \<and> disk u = (disk t)(hblk st := header (lh (klog t)) (disk t (hblk st))) \<and>
        bk u = (bk t)(hblk st := clean (header (lh (klog t)) (disk t (hblk st))))"
      show "kout (kseq (install_trans False) (kseq (set_lh_n 0) write_head)) ?Q ?E u"
        by (rule kout_mono [OF commit_tail [OF tx t refl]]) (use u k in auto)
    qed
  qed (use old in auto)
  then show ?thesis using False ok(7) by (simp add: commit_def kout_simps)
qed

section \<open>A small machine with a log\<close>

definition boot_log :: "(nat \<Rightarrow> byte) \<Rightarrow> logstate" where
  "boot_log pl = diskstate.extend ((boot_disk 1 (\<lambda>_. empty_buf))\<lparr>platter := pl\<rparr>)
     \<lparr>klog = \<lparr>lg_start = 2, lg_size = 30, outstanding = 0, committing = False, lg_dev = 1,
        lh = \<lparr>lh_n = 1, lh_block = (\<lambda>_. 40)\<rparr>\<rparr>\<rparr>"

lemmas boot_log_unfold = boot_log_def diskstate.extend_def boot_disk_unfold

lemma boot_log_cache:
  obtains t where "binit (boot_log pl) = Ok () t" "bc_ok 1 t" "klog t = klog (boot_log pl)" "virtio_device (device t)"
    "platter t = pl" "cache t = cold pl"
proof -
  let ?s = "boot_log pl"
  have f: "platter ?s = pl" "device ?s = serve" "vd ?s = idle_vdisk" "bufs ?s = (\<lambda>_. empty_buf)"
      "lks ?s = on_cpu (Some 1) boot_locks" "procs ?s 1 = running_proc"
    by (simp_all add: boot_log_unfold)
  have d: "vd_idle (vd ?s)" "virtio_device (device ?s)"
    unfolding f by (simp_all add: vd_idle_def idle_vdisk_def virtio_device_def)
  have p: "proc_ready 1 ?s"
    unfolding proc_ready_def f using boot_in_proc [of 1] by (simp add: running_proc_def empty_proc_def)
  have "kout binit (\<lambda>_ t. bc_ok 1 t \<and> dsys 1 ?s t \<and> platter t = platter ?s \<and> cache t = cold (platter ?s)) (\<lambda>_. False) ?s"
    by (rule binit_spec [OF p d(1) virtio_failing [OF d(2)]]) (simp add: f empty_buf_def)
  then obtain t where "binit ?s = Ok () t" "bc_ok 1 t" "dsys 1 ?s t" "platter t = pl" "cache t = cold pl"
    unfolding kout_total f by auto
  then show thesis using that dsys_facts [of 1 ?s t] d(2) by simp
qed

lemma boot_area: "log_at 2" "40 \<notin> log_area 2"
proof -
  show a: "log_at 2" by (simp add: log_at_def)
  show "40 \<notin> log_area 2"
  proof
    assume "40 \<in> log_area 2"
    then consider "hblk 2 = 40" | i where "i < 29" "lblk 2 i = 40" by (auto simp: log_area_def)
    then show False
    proof cases
      case 1
      then show False using arg_cong [OF 1, of unat] log_blocks(1) [OF a, of 0] by simp
    next
      case (2 i)
      then show False using arg_cong [OF 2(2), of unat] log_blocks(2) [OF a, of i] by simp
    qed
  qed
qed

lemma zero_block: "get32 (pblk (\<lambda>_. 0) bn) off = 0"
  by (rule bit_eqI) (simp add: get32_def bit_le_get pblk_def platter_block_def)

text \<open>One block of a transaction, written in the cache only.\<close>

lemma boot_tx:
  obtains s :: logstate where "tx_ok 1 s" "klog s = klog (boot_log (\<lambda>_. 0))" "virtio_device (device s)"
    "head_n (disk s (hblk 2)) = 0" "committed s 40 = bcut (\<lambda>_. 42)"
proof -
  obtain t :: logstate where t: "bc_ok 1 t" "klog t = klog (boot_log (\<lambda>_. 0))" "virtio_device (device t)"
      "platter t = (\<lambda>_. 0)" "cache t = cold (\<lambda>_. 0)"
    using boot_log_cache [of "\<lambda>_. 0"] by metis
  let ?cs = "[BRead 40, BFill 40 (\<lambda>_. 42), BPin 40, BRelse 40]"
  let ?c = "(\<lambda>bn. spec_of (cold (\<lambda>_. 0) bn))(40 := \<lparr>s_view = bcut (\<lambda>_. 42), s_pins = 1, s_lock = None\<rparr>)"
  have "a_bops (ppid (procs t 1)) ?cs (abs_bio t) = Some (?c, pblk (\<lambda>_. 0))"
    by (simp add: abs_bio_def t(4,5) spec_of_def fun_eq_iff)
  from bops_refine [OF t(1) this] t(3)
  obtain s where s: "bc_ok 1 s" "dsys 1 t s" "abs_bio s = (?c, pblk (\<lambda>_. 0))"
    by (auto simp: kout_def split: kres.splits)
  then have c: "bk s = ?c" and d: "disk s = pblk (\<lambda>_. 0)" by (simp_all add: abs_bio_def)
  have k: "klog s = klog (boot_log (\<lambda>_. 0))" "device s = device t" using dsys_facts [OF s(2)] t(2) by simp_all
  have g: "lg_dev (klog s) = 1" "lg_start (klog s) = 2" "lh_n (lh (klog s)) = 1" "lh_block (lh (klog s)) i = 40" for i
    unfolding k by (simp_all add: boot_log_unfold)
  have x: "a_pins (cache s m) = (if m = 40 then 1 else 0)" "a_lock (cache s m) = None"
      "a_view (cache s 40) = bcut (\<lambda>_. 42)" for m
    using bkD [OF c, of m] bkD [OF c, of 40] by (simp_all split: if_splits)
  have "pinned s = {40}" by (auto simp: pinned_def x)
  then have "tx_ok 1 s" unfolding tx_ok_def g using s(1) boot_area x by (auto simp: Let_def inj_on_def)
  moreover have "head_n (disk s (hblk 2)) = 0"
    unfolding d by (simp add: head_n_def zero_block)
  moreover have "committed s 40 = bcut (\<lambda>_. 42)" by (simp add: committed_def g x(3))
  ultimately show thesis using that k t(3) by simp
qed

section \<open>Properties\<close>

text \<open>
  C1: A commit is atomic with respect to power loss. Whatever request of \<open>commit\<close> the disk
  fails at, if the machine restarts with what is on the platter, \<open>recover_from_log\<close>
  returns, and the blocks outside the log are then all as before the transaction or all as
  the transaction wrote them; they are the new ones if \<open>commit\<close> had returned.
\<close>

theorem commit_crash_atomic:
  fixes s :: "'x logstate_scheme" and r :: "'y logstate_scheme"
  assumes "tx_ok p s" and "st = lg_start (klog s)" and "head_n (disk s (hblk st)) = 0"
    and "commit s = Ok x v \<or> commit s = Stop h v"
    and "reboot_ok q r" and "lg_start (klog r) = st" and "virtio_device (device r)" and "platter r = platter v"
  shows "\<exists>w. recover_from_log r = Ok () w \<and>
    (home_eq st (disk w) (disk s) \<or> home_eq st (disk w) (committed s)) \<and>
    (commit s = Ok x v \<longrightarrow> home_eq st (disk w) (committed s))"
proof -
  note c = commit_spec [OF assms(1,2) refl refl assms(3)]
  have h: "head_ok st (disk r (hblk st))" and o: "home_eq st (recovered st (disk r)) (disk s) \<or> home_eq st (recovered st (disk r)) (committed s)"
    and n: "commit s = Ok x v \<Longrightarrow> home_eq st (recovered st (disk r)) (committed s)"
    using assms(4) kout_OkD [OF c, of x v] kout_StopD [OF c, of h v] by (auto simp: assms(8) recovered_empty head_ok_def)
  obtain w where "recover_from_log r = Ok () w" "home_eq st (disk w) (recovered st (disk r))"
    using recovery_spec [OF assms(5) assms(6) [symmetric] h] assms(7) by (auto simp: kout_def split: kres.splits)
  then show ?thesis using o n by (auto simp: home_eq_def)
qed

theorem commit_crash_atomic_witness:
  "\<exists>(s :: logstate) v (r :: logstate) w. tx_ok 1 s \<and> commit s = Ok () v \<and> platter r = platter v \<and>
     recover_from_log r = Ok () w \<and> disk w 40 7 = 42"
proof -
  obtain s :: logstate where s: "tx_ok 1 s" "klog s = klog (boot_log (\<lambda>_. 0))" "virtio_device (device s)"
      "head_n (disk s (hblk 2)) = 0" "committed s 40 = bcut (\<lambda>_. 42)"
    by (rule boot_tx)
  have st: "2 = lg_start (klog s)" unfolding s(2) by (simp add: boot_log_unfold)
  obtain v where v: "commit s = Ok () v"
    using commit_spec [OF s(1) st refl refl s(4)] s(3) by (auto simp: kout_def split: kres.splits)
  obtain r :: logstate where r: "bc_ok 1 r" "klog r = klog (boot_log (platter v))" "virtio_device (device r)"
      "platter r = platter v" "cache r = cold (platter v)"
    using boot_log_cache [of "platter v"] by metis
  have g: "lg_dev (klog r) = 1" "lg_start (klog r) = 2" unfolding r(2) by (simp_all add: boot_log_unfold)
  have "reboot_ok 1 r" using r g boot_area(1) by (simp add: reboot_ok_def)
  then obtain w where w: "recover_from_log r = Ok () w" "home_eq 2 (disk w) (committed s)"
    using commit_crash_atomic [OF s(1) st s(4), of "()" v] v g r by blast
  then have "disk w 40 = bcut (\<lambda>_. 42)" using boot_area(2) s(5) by (simp add: home_eq_def)
  then have "disk w 40 7 = 42" by (simp add: bcut_def)
  then show ?thesis using s(1) v w(1) r(4) by blast
qed

text \<open>
  C20: On a disk that works, \<open>commit\<close> returns: every block of the transaction is at home
  with the content the cache had, the other blocks are unchanged, the log is empty again,
  and each block has lost the reference the log held.
\<close>

theorem commit_installs:
  fixes s :: "'x logstate_scheme"
  assumes "tx_ok p s" and "st = lg_start (klog s)" and "head_n (disk s (hblk st)) = 0" and "virtio_device (device s)"
  shows "\<exists>v. commit s = Ok () v \<and> bc_ok p v \<and> lh_n (lh (klog v)) = 0 \<and> head_n (disk v (hblk st)) = 0 \<and>
    home_eq st (disk v) (committed s) \<and>
    (\<forall>i<nat (lh_n (lh (klog s))). a_pins (cache v (lh_block (lh (klog s)) i)) = a_pins (cache s (lh_block (lh (klog s)) i)) - 1)"
  using commit_spec [OF assms(1,2) refl refl assms(3)] assms(4) by (auto simp: kout_def split: kres.splits)

theorem commit_installs_witness:
  "\<exists>(s :: logstate) v. tx_ok 1 s \<and> commit s = Ok () v \<and> disk v 40 7 = 42 \<and> head_n (disk v (hblk 2)) = 0"
proof -
  obtain s :: logstate where s: "tx_ok 1 s" "klog s = klog (boot_log (\<lambda>_. 0))" "virtio_device (device s)"
      "head_n (disk s (hblk 2)) = 0" "committed s 40 = bcut (\<lambda>_. 42)"
    by (rule boot_tx)
  have st: "2 = lg_start (klog s)" unfolding s(2) by (simp add: boot_log_unfold)
  obtain v where v: "commit s = Ok () v" "home_eq 2 (disk v) (committed s)" "head_n (disk v (hblk 2)) = 0"
    using commit_installs [OF s(1) st s(4,3)] by blast
  then have "disk v 40 = bcut (\<lambda>_. 42)" using boot_area(2) s(5) by (simp add: home_eq_def)
  then have "disk v 40 7 = 42" by (simp add: bcut_def)
  then show ?thesis using s(1) v by blast
qed

text \<open>
  C19: Recovery computes the replayed log and can itself be interrupted: if it returns, the
  blocks outside the log are those of the replay and the log is empty; if the disk fails
  during recovery, the header is still there and replaying the log of what is on the
  platter gives the same blocks.
\<close>

theorem recovery_idempotent:
  fixes s :: "'x logstate_scheme"
  assumes "reboot_ok p s" and "st = lg_start (klog s)" and "head_ok st (disk s (hblk st))"
  shows "case recover_from_log s of
      Ok _ t \<Rightarrow> reboot_ok p t \<and> home_eq st (disk t) (recovered st (disk s)) \<and> head_n (disk t (hblk st)) = 0
    | Stop h t \<Rightarrow> \<not> virtio_device (device s) \<and> head_ok st (disk t (hblk st)) \<and> recovered st (disk t) = recovered st (disk s)"
  using recovery_spec [OF assms] assms(3) by (auto simp: kout_def split: kres.splits)

theorem recovery_idempotent_witness:
  "\<exists>(r :: logstate) t. reboot_ok 1 r \<and> recover_from_log r = Ok () t \<and> head_n (disk t (hblk 2)) = 0"
proof -
  obtain r :: logstate where r: "bc_ok 1 r" "klog r = klog (boot_log (\<lambda>_. 0))" "virtio_device (device r)"
      "platter r = (\<lambda>_. 0)" "cache r = cold (\<lambda>_. 0)"
    using boot_log_cache [of "\<lambda>_. 0"] by metis
  have g: "lg_dev (klog r) = 1" "2 = lg_start (klog r)" unfolding r(2) by (simp_all add: boot_log_unfold)
  have ok: "reboot_ok 1 r" using r g boot_area(1) by (simp add: reboot_ok_def)
  have "head_ok 2 (disk r (hblk 2))" by (simp add: head_ok_def head_n_def zero_block r(4))
  from recovery_idempotent [OF ok g(2) this] r(3)
  obtain t where "recover_from_log r = Ok () t" "head_n (disk t (hblk 2)) = 0" by (auto split: kres.splits)
  then show ?thesis using ok by blast
qed

end
