(* ===== verification/Log_Write.thy ===== *)
theory Log_Write
  imports Log_Crash
begin

text \<open>
  Building a transaction: \<open>begin_op\<close> admits operations, \<open>log_write\<close> records blocks in the
  header, each once.
\<close>

definition tx_blocks :: "'x logstate_scheme \<Rightarrow> u32 list" where
  "tx_blocks s = map (lh_block (lh (klog s))) [0..<nat (lh_n (lh (klog s)))]"

lemma log_slot_found:
  "bn \<in> set (map (lh_block h) [0..<nat (lh_n h)]) \<Longrightarrow> log_slot h bn < nat (lh_n h) \<and> lh_block h (log_slot h bn) = bn"
proof -
  assume "bn \<in> set (map (lh_block h) [0..<nat (lh_n h)])"
  then obtain i where "find (\<lambda>i. lh_block h i = bn) [0..<nat (lh_n h)] = Some i"
    by (cases "find (\<lambda>i. lh_block h i = bn) [0..<nat (lh_n h)]") (auto simp: find_None_iff)
  then show ?thesis using find_in by (fastforce simp: log_slot_def)
qed

lemma log_slot_new:
  "bn \<notin> set (map (lh_block h) [0..<nat (lh_n h)]) \<Longrightarrow> log_slot h bn = nat (lh_n h)"
proof -
  assume "bn \<notin> set (map (lh_block h) [0..<nat (lh_n h)])"
  then have "find (\<lambda>i. lh_block h i = bn) [0..<nat (lh_n h)] = None" by (auto simp: find_None_iff)
  then show ?thesis by (simp add: log_slot_def)
qed

lemma bpin_held:
  assumes "in_proc p L" and "lks s = acq lk L" and "lk \<noteq> LkBcache"
  shows "bpin b s = Ok () (s\<lparr>bufs := (bufs s)(b := (bufs s b)\<lparr>refcnt := refcnt (bufs s b) + 1\<rparr>)\<rparr>)"
  using in_procD [OF assms(1)] assms(2,3) by (simp add: bpin_def kop_simps lock_simps)

lemma log_write_run:
  assumes "in_proc p (lks s)" and "h = lh (klog s)" and "bn = blockno (bufs s b)"
    and "0 \<le> lh_n h" and "lh_n h < int LOGSIZE" and "lh_n h < lg_size (klog s) - 1" and "1 \<le> outstanding (klog s)"
  shows "log_write b s = Ok () (if bn \<in> set (tx_blocks s) then s\<lparr>lks := settle (lks s)\<rparr>
    else s\<lparr>lks := settle (lks s), klog := (klog s)\<lparr>lh := h\<lparr>lh_n := lh_n h + 1, lh_block := (lh_block h)(nat (lh_n h) := bn)\<rparr>\<rparr>,
      bufs := (bufs s)(b := (bufs s b)\<lparr>refcnt := refcnt (bufs s b) + 1\<rparr>)\<rparr>)"
proof (cases "bn \<in> set (tx_blocks s)")
  case True
  then have "log_slot h bn < nat (lh_n h)" "lh_block h (log_slot h bn) = bn"
    using log_slot_found [of bn h] assms(2) by (simp_all add: tx_blocks_def)
  then have "int (log_slot h bn) \<noteq> lh_n h" "(lh_block h)(log_slot h bn := bn) = lh_block h" by (auto simp: fun_eq_iff)
  then show ?thesis
    using in_procD [OF assms(1)] True assms(4-7) unfolding log_write_def assms(2,3)
    by (simp add: kop_simps lock_simps Let_def)
next
  case False
  then have "log_slot h bn = nat (lh_n h)" using log_slot_new [of bn h] assms(2) by (simp add: tx_blocks_def)
  then show ?thesis
    using in_procD [OF assms(1)] False assms(4-7) unfolding log_write_def assms(2,3)
    by (simp add: kop_simps lock_simps Let_def bpin_held [OF assms(1), of _ LkLog])
qed

lemma log_write_effect:
  assumes "in_proc p (lks s)" and "0 \<le> lh_n (lh (klog s))" and "lh_n (lh (klog s)) < int LOGSIZE"
    and "lh_n (lh (klog s)) < lg_size (klog s) - 1" and "1 \<le> outstanding (klog s)"
  shows "\<exists>t. log_write b s = Ok () t \<and>
    tx_blocks t = (if blockno (bufs s b) \<in> set (tx_blocks s) then tx_blocks s else tx_blocks s @ [blockno (bufs s b)]) \<and>
    bufs t = (if blockno (bufs s b) \<in> set (tx_blocks s) then bufs s
      else (bufs s)(b := (bufs s b)\<lparr>refcnt := refcnt (bufs s b) + 1\<rparr>)) \<and>
    lks t = settle (lks s) \<and> lg_size (klog t) = lg_size (klog s) \<and> outstanding (klog t) = outstanding (klog s) \<and>
    0 \<le> lh_n (lh (klog t))"
proof -
  have n: "nat (lh_n (lh (klog s)) + 1) = Suc (nat (lh_n (lh (klog s))))" using assms(2) by simp
  have "map (f(n := x)) [0..<n] = map f [0..<n]" for f :: "nat \<Rightarrow> u32" and n x by simp
  then show ?thesis
    using log_write_run [OF assms(1) refl refl assms(2-5), of b] assms(2) n
    by (cases "blockno (bufs s b) \<in> set (tx_blocks s)") (simp_all add: tx_blocks_def)
qed

lemma tx_length: "0 \<le> lh_n (lh (klog s)) \<Longrightarrow> int (length (tx_blocks s)) = lh_n (lh (klog s))"
  by (simp add: tx_blocks_def)

lemma log_writes:
  assumes "in_proc p (lks s)" and "0 \<le> lh_n (lh (klog s))" and "1 \<le> outstanding (klog s)"
    and "length (tx_blocks s) + length bs \<le> LOGMAX" and "lg_size (klog s) = int LOGSIZE"
    and "distinct (tx_blocks s @ map (\<lambda>b. blockno (bufs s b)) bs)"
  shows "\<exists>t. kfor bs log_write s = Ok () t \<and> in_proc p (lks t) \<and> lg_size (klog t) = int LOGSIZE \<and>
    outstanding (klog t) = outstanding (klog s) \<and> 0 \<le> lh_n (lh (klog t)) \<and>
    tx_blocks t = tx_blocks s @ map (\<lambda>b. blockno (bufs s b)) bs"
  using assms
proof (induction bs arbitrary: s)
  case Nil
  then show ?case by (auto simp: kop_simps)
next
  case (Cons b bs)
  have n: "lh_n (lh (klog s)) < 29" using Cons.prems(4) tx_length [OF Cons.prems(2)] by simp
  have new: "blockno (bufs s b) \<notin> set (tx_blocks s)" using Cons.prems(6) by simp
  obtain t where t: "log_write b s = Ok () t" "tx_blocks t = tx_blocks s @ [blockno (bufs s b)]"
      "bufs t = (bufs s)(b := (bufs s b)\<lparr>refcnt := refcnt (bufs s b) + 1\<rparr>)" "lks t = settle (lks s)"
      "lg_size (klog t) = 30" "outstanding (klog t) = outstanding (klog s)" "0 \<le> lh_n (lh (klog t))"
    using log_write_effect [OF Cons.prems(1,2), of b] n Cons.prems(3,5) new by auto
  have bn: "blockno (bufs t a) = blockno (bufs s a)" for a by (simp add: t(3))
  have "\<exists>u. kfor bs log_write t = Ok () u \<and> in_proc p (lks u) \<and> lg_size (klog u) = int LOGSIZE \<and>
      outstanding (klog u) = outstanding (klog t) \<and> 0 \<le> lh_n (lh (klog u)) \<and>
      tx_blocks u = tx_blocks t @ map (\<lambda>b. blockno (bufs t b)) bs"
    by (rule Cons.IH) (use Cons.prems t bn in simp_all)
  then show ?case using t bn by (auto simp: kop_simps)
qed

lemma begin_op_run:
  assumes "in_proc p (lks s)" and "\<not> committing (klog s)"
    and "lh_n (lh (klog s)) + (outstanding (klog s) + 1) * MAXOPBLOCKS \<le> int LOGSIZE"
  shows "begin_op env s = Ok () (s\<lparr>lks := settle (lks s), klog := (klog s)\<lparr>outstanding := outstanding (klog s) + 1\<rparr>\<rparr>)"
  using in_procD [OF assms(1)] assms(2,3)
  by (cases env) (simp_all add: begin_op_def kop_simps lock_simps)

section \<open>Properties\<close>

text \<open>
  C21: \<open>log_write\<close> records a block once. Inside a transaction that is not full it returns;
  a block already in the header is absorbed and nothing but the lock is touched; a new one is
  appended to the header and its buffer gets one more reference. So the block numbers of
  the header stay different.
\<close>

theorem log_write_absorbs:
  assumes "in_proc p (lks s)" and "0 \<le> lh_n (lh (klog s))" and "lh_n (lh (klog s)) < int LOGSIZE"
    and "lh_n (lh (klog s)) < lg_size (klog s) - 1" and "1 \<le> outstanding (klog s)" and "distinct (tx_blocks s)"
  shows "\<exists>t. log_write b s = Ok () t \<and> distinct (tx_blocks t) \<and>
    tx_blocks t = (if blockno (bufs s b) \<in> set (tx_blocks s) then tx_blocks s else tx_blocks s @ [blockno (bufs s b)]) \<and>
    refcnt (bufs t b) = refcnt (bufs s b) + (if blockno (bufs s b) \<in> set (tx_blocks s) then 0 else 1) \<and>
    (\<forall>a. a \<noteq> b \<longrightarrow> bufs t a = bufs s a)"
  using log_write_effect [OF assms(1-5), of b] assms(6) by (auto split: if_splits)

definition tx_demo :: logstate where
  "tx_demo = (boot_log (\<lambda>_. 0))\<lparr>klog := \<lparr>lg_start = 2, lg_size = 30, outstanding = 0, committing = False, lg_dev = 1,
     lh = \<lparr>lh_n = 0, lh_block = (\<lambda>_. 0)\<rparr>\<rparr>, bufs := (\<lambda>b. empty_buf\<lparr>blockno := of_nat b + 40, refcnt := 1\<rparr>)\<rparr>"

lemma tx_demo_facts:
  "in_proc 1 (lks tx_demo)" "lh_n (lh (klog tx_demo)) = 0" "lg_size (klog tx_demo) = 30" "outstanding (klog tx_demo) = 0"
  "\<not> committing (klog tx_demo)" "tx_blocks tx_demo = []" "blockno (bufs tx_demo b) = of_nat b + 40" "refcnt (bufs tx_demo b) = 1"
proof -
  have l: "lks tx_demo = on_cpu (Some 1) boot_locks" by (simp add: tx_demo_def boot_log_unfold)
  show "in_proc 1 (lks tx_demo)" unfolding l by (rule boot_in_proc) simp
qed (simp_all add: tx_demo_def boot_log_unfold tx_blocks_def)

theorem log_write_absorbs_witness:
  "\<exists>t. log_write 3 (tx_demo\<lparr>klog := (klog tx_demo)\<lparr>outstanding := 1\<rparr>\<rparr>) = Ok () t \<and> tx_blocks t = [43] \<and> refcnt (bufs t 3) = 2"
proof -
  let ?s = "tx_demo\<lparr>klog := (klog tx_demo)\<lparr>outstanding := 1\<rparr>\<rparr>"
  have b: "tx_blocks ?s = []" "blockno (bufs ?s 3) = 43" "refcnt (bufs ?s 3) = 1"
    by (simp_all add: tx_blocks_def tx_demo_facts)
  have "\<exists>t. log_write 3 ?s = Ok () t \<and> distinct (tx_blocks t) \<and>
      tx_blocks t = (if blockno (bufs ?s 3) \<in> set (tx_blocks ?s) then tx_blocks ?s else tx_blocks ?s @ [blockno (bufs ?s 3)]) \<and>
      refcnt (bufs t 3) = refcnt (bufs ?s 3) + (if blockno (bufs ?s 3) \<in> set (tx_blocks ?s) then 0 else 1) \<and>
      (\<forall>a. a \<noteq> 3 \<longrightarrow> bufs t a = bufs ?s a)"
    by (rule log_write_absorbs [of 1]) (use tx_demo_facts(1) in \<open>simp_all add: tx_demo_facts tx_blocks_def\<close>)
  then show ?thesis unfolding b by auto
qed

text \<open>
  C27: The reservation of \<open>begin_op\<close> is one block too generous. It admits three operations
  of \<open>MAXOPBLOCKS\<close> blocks each on an empty log of \<open>LOGSIZE\<close> blocks; when they write
  thirty different blocks, twenty-nine are recorded and the last \<open>log_write\<close> panics.
\<close>

theorem log_reservation_overrun:
  assumes "in_proc p (lks s)" and "lh_n (lh (klog s)) = 0" and "lg_size (klog s) = int LOGSIZE"
    and "outstanding (klog s) = 0" and "\<not> committing (klog s)"
    and "length bs = 3 * nat MAXOPBLOCKS" and "distinct (map (\<lambda>b. blockno (bufs s b)) bs)"
  shows "\<exists>t u. kseq (begin_op []) (kseq (begin_op []) (kseq (begin_op []) (kfor (butlast bs) log_write))) s = Ok () t \<and>
    length (tx_blocks t) = 29 \<and> log_write (last bs) t = Stop (Panicked ''too big a transaction'') u"
proof -
  let ?s = "s\<lparr>lks := settle (lks s), klog := (klog s)\<lparr>outstanding := 3\<rparr>\<rparr>"
  have e: "tx_blocks ?s = []" using assms(2) by (simp add: tx_blocks_def)
  have ops3: "kseq (begin_op []) (kseq (begin_op []) (kseq (begin_op []) (kfor (butlast bs) log_write))) s =
      kfor (butlast bs) log_write ?s"
    using assms(1-5) by (simp add: kop_simps begin_op_run [of p] lock_simps)
  have "distinct (map (\<lambda>b. blockno (bufs s b)) (butlast bs))"
    using assms(7) by (simp add: map_butlast distinct_butlast)
  then have "\<exists>t. kfor (butlast bs) log_write ?s = Ok () t \<and> in_proc p (lks t) \<and> lg_size (klog t) = int LOGSIZE \<and>
    outstanding (klog t) = outstanding (klog ?s) \<and> 0 \<le> lh_n (lh (klog t)) \<and>
    tx_blocks t = tx_blocks ?s @ map (\<lambda>b. blockno (bufs ?s b)) (butlast bs)"
    by (intro log_writes) (use assms e in simp_all)
  then obtain t where t: "kfor (butlast bs) log_write ?s = Ok () t" "in_proc p (lks t)" "lg_size (klog t) = 30"
      "0 \<le> lh_n (lh (klog t))" "length (tx_blocks t) = 29"
    using assms(6) e by auto
  have "lh_n (lh (klog t)) = 29" using tx_length [OF t(4)] t(5) by simp
  then have "\<exists>u. log_write (last bs) t = Stop (Panicked ''too big a transaction'') u"
    using in_procD [OF t(2)] t(3) by (simp add: log_write_def kop_simps lock_simps)
  then show ?thesis using ops3 t(1,5) by auto
qed

theorem log_reservation_overrun_witness:
  "\<exists>t u. kseq (begin_op []) (kseq (begin_op []) (kseq (begin_op []) (kfor (butlast [0..<30]) log_write))) tx_demo = Ok () t \<and>
     log_write 29 t = Stop (Panicked ''too big a transaction'') u"
proof -
  have "distinct (map (\<lambda>b. blockno (bufs tx_demo b)) [0..<30])"
  proof -
    have "inj_on (\<lambda>b. of_nat b + 40 :: u32) {0..<30}"
      by (auto simp: inj_on_def word_of_nat_eq_iff take_bit_nat_eq_self)
    then show ?thesis by (simp add: distinct_map tx_demo_facts)
  qed
  then show ?thesis
    using log_reservation_overrun [of 1 tx_demo "[0..<30]"] tx_demo_facts(1) by (auto simp: tx_demo_facts)
qed

end
