(* ===== verification/Grep.thy ===== *)
theory Grep
  imports Prelude
begin

text \<open>
  The user program \<open>grep\<close>, \<open>user/grep.c\<close>. A C string is the list of its characters
  before the NUL. The matcher of Kernighan and Pike is proved equal to the meaning of the
  patterns, and the loop over the input, which works on a buffer of 1024 bytes, to filter
  the lines however \<open>read\<close> cuts the input into pieces.
\<close>

section \<open>The matcher\<close>

function (sequential) matchhere :: "string \<Rightarrow> string \<Rightarrow> bool"
  and matchstar :: "char \<Rightarrow> string \<Rightarrow> string \<Rightarrow> bool" where
  "matchhere [] text = True"
| "matchhere (c # re) text =
     (if re \<noteq> [] \<and> hd re = CHR ''*'' then matchstar c (tl re) text
      else if c = CHR ''$'' \<and> re = [] then text = []
      else if text \<noteq> [] \<and> (c = CHR ''.'' \<or> c = hd text) then matchhere re (tl text)
      else False)"
| "matchstar c re text =
     (if matchhere re text then True
      else if text \<noteq> [] \<and> (hd text = c \<or> c = CHR ''.'') then matchstar c re (tl text)
      else False)"
  by pat_completeness auto

termination
  by (relation "measures [\<lambda>x. case x of Inl (re, text) \<Rightarrow> 2 * length re | Inr (c, re, text) \<Rightarrow> 2 * length re + 1,
      \<lambda>x. case x of Inl (re, text) \<Rightarrow> 0 | Inr (c, re, text) \<Rightarrow> length text]") auto

fun match_loop :: "string \<Rightarrow> string \<Rightarrow> bool" where
  "match_loop re text = (if matchhere re text then True else if text = [] then False else match_loop re (tl text))"

declare matchhere.simps(2) [simp del] matchstar.simps [simp del] match_loop.simps [simp del]

definition match :: "string \<Rightarrow> string \<Rightarrow> bool" where
  "match re text = (if re \<noteq> [] \<and> hd re = CHR ''^'' then matchhere (tl re) text else match_loop re text)"

section \<open>The loop over the input\<close>

text \<open>
  \<open>strchr\<close> of \<open>user/ulib.c\<close> as an offset; the bytes in the buffer may contain a NUL, at
  which it stops.
\<close>

fun strchr :: "string \<Rightarrow> char \<Rightarrow> nat option" where
  "strchr [] c = None"
| "strchr (x # s) c = (if x = CHR 0x00 then None else if x = c then Some 0 else map_option Suc (strchr s c))"

lemma strchr_bound: "strchr s c = Some i \<Longrightarrow> i < length s"
  by (induction s arbitrary: i) (auto split: if_splits)

text \<open>The inner loop: the output, and the bytes left in the buffer from \<open>p\<close> on.\<close>

function grep_lines :: "string \<Rightarrow> string \<Rightarrow> string \<times> string" where
  "grep_lines re p =
     (case strchr p (CHR 0x0A) of
        None \<Rightarrow> ([], p)
      | Some q \<Rightarrow> (let (out, left) = grep_lines re (drop (q + 1) p)
          in (if match re (take q p) then take (q + 1) p @ out else out, left)))"
  by pat_completeness auto

termination
  by (relation "measure (\<lambda>(re, p). length p)") (auto dest: strchr_bound)

declare grep_lines.simps [simp del]

text \<open>
  The outer loop. \<open>buf\<close> holds the \<open>m\<close> bytes left over, \<open>input\<close> what can still be read.
  A call of \<open>read\<close> returns at least one byte if there is input and room, and at most what
  is asked for; \<open>ks i\<close> is the number of bytes, less one, that read number \<open>i\<close> has at hand.
\<close>

function grep :: "string \<Rightarrow> (nat \<Rightarrow> nat) \<Rightarrow> nat \<Rightarrow> string \<Rightarrow> string \<Rightarrow> string" where
  "grep re ks i buf input =
     (let n = min (1024 - length buf - 1) (min (length input) (Suc (ks i))) in
      if n = 0 then []
      else let (out, left) = grep_lines re (buf @ take n input)
        in out @ grep re ks (Suc i) left (drop n input))"
  by pat_completeness auto

termination
  by (relation "measure (\<lambda>(re, ks, i, buf, input). length input)") auto

declare grep.simps [simp del]

section \<open>The meaning of patterns\<close>

datatype item = One char | Star char | End

fun items :: "string \<Rightarrow> item list" where
  "items [] = []"
| "items (c # re) =
     (if re \<noteq> [] \<and> hd re = CHR ''*'' then Star c # items (tl re)
      else if c = CHR ''$'' \<and> re = [] then [End]
      else One c # items re)"

definition fits :: "char \<Rightarrow> char \<Rightarrow> bool" where
  "fits c x \<longleftrightarrow> c = CHR ''.'' \<or> c = x"

text \<open>\<open>denotes its u r\<close>: the items accept the text \<open>u\<close> when \<open>r\<close> follows.\<close>

inductive denotes :: "item list \<Rightarrow> string \<Rightarrow> string \<Rightarrow> bool" where
  nil: "denotes [] [] r"
| one: "fits c x \<Longrightarrow> denotes its u r \<Longrightarrow> denotes (One c # its) (x # u) r"
| star: "\<forall>x\<in>set v. fits c x \<Longrightarrow> denotes its u r \<Longrightarrow> denotes (Star c # its) (v @ u) r"
| last: "denotes [End] [] []"

inductive_simps denotes_nil: "denotes [] u r"
inductive_simps denotes_one: "denotes (One c # its) u r"
inductive_simps denotes_star: "denotes (Star c # its) u r"
inductive_simps denotes_end: "denotes (End # its) u r"

definition accepts :: "item list \<Rightarrow> string \<Rightarrow> bool" where
  "accepts its text \<longleftrightarrow> (\<exists>u r. text = u @ r \<and> denotes its u r)"

lemma acceptsI: "denotes its u r \<Longrightarrow> accepts its (u @ r)"
  unfolding accepts_def by blast

lemma accepts_nil: "accepts [] text"
  by (auto simp: accepts_def denotes_nil)

lemma accepts_end: "accepts [End] text \<longleftrightarrow> text = []"
  by (auto simp: accepts_def denotes_end)

lemma accepts_one: "accepts (One c # its) text \<longleftrightarrow> text \<noteq> [] \<and> fits c (hd text) \<and> accepts its (tl text)"
proof (cases "text")
  case (Cons x t)
  show ?thesis
  proof
    assume "accepts (One c # its) text"
    then show "text \<noteq> [] \<and> fits c (hd text) \<and> accepts its (tl text)"
      by (auto simp: accepts_def [of "One c # its"] denotes_one intro: acceptsI)
  next
    assume "text \<noteq> [] \<and> fits c (hd text) \<and> accepts its (tl text)"
    then obtain u r where "t = u @ r" "denotes its u r" "fits c x" using Cons by (auto simp: accepts_def)
    then have "text = (x # u) @ r" "denotes (One c # its) (x # u) r" using Cons by (auto intro: denotes.one)
    then show "accepts (One c # its) text" unfolding accepts_def by blast
  qed
qed (auto simp: accepts_def denotes_one)

lemma accepts_star:
  "accepts (Star c # its) text \<longleftrightarrow> accepts its text \<or> text \<noteq> [] \<and> fits c (hd text) \<and> accepts (Star c # its) (tl text)"
    (is "?L = ?R")
proof
  assume ?L
  then obtain v u r where t: "text = v @ u @ r" "\<forall>x\<in>set v. fits c x" "denotes its u r"
    by (auto simp: accepts_def denotes_star)
  show ?R
  proof (cases v)
    case Nil
    then show ?thesis using t acceptsI by simp
  next
    case (Cons x v')
    then have "accepts (Star c # its) ((v' @ u) @ r)" using t by (intro acceptsI denotes.star) auto
    then show ?thesis using t Cons by simp
  qed
next
  assume ?R
  then show ?L
  proof
    assume "accepts its text"
    then obtain u r where "text = u @ r" "denotes its u r" by (auto simp: accepts_def)
    then show ?L using acceptsI [OF denotes.star [of "[]" c its u r]] by simp
  next
    assume "text \<noteq> [] \<and> fits c (hd text) \<and> accepts (Star c # its) (tl text)"
    then obtain x v u r where t: "text = x # v @ u @ r" "fits c x" "\<forall>x\<in>set v. fits c x" "denotes its u r"
      by (cases "text") (auto simp: accepts_def denotes_star)
    then have "denotes (Star c # its) ((x # v) @ u) r" by (intro denotes.star) auto
    then show ?L using t acceptsI by fastforce
  qed
qed

lemma matchhere_accepts: "matchhere re text \<longleftrightarrow> accepts (items re) text"
  and matchstar_accepts: "matchstar c re text \<longleftrightarrow> accepts (Star c # items re) text"
proof (induction re "text" and c re "text" rule: matchhere_matchstar.induct)
  case (1 t)
  then show ?case by (simp add: accepts_nil)
next
  case (2 c re t)
  then show ?case by (auto simp: matchhere.simps(2) accepts_end accepts_one fits_def)
next
  case (3 c re t)
  then show ?case by (subst accepts_star) (auto simp: matchstar.simps [of c re t] fits_def)
qed

lemma match_loop_suffix: "match_loop re t \<longleftrightarrow> (\<exists>pre post. t = pre @ post \<and> matchhere re post)"
proof (induction t)
  case Nil
  then show ?case by (simp add: match_loop.simps)
next
  case (Cons x t)
  have "(\<exists>pre post. x # t = pre @ post \<and> matchhere re post) \<longleftrightarrow>
      matchhere re (x # t) \<or> (\<exists>pre post. t = pre @ post \<and> matchhere re post)"
    by (metis append_Cons append_Nil neq_Nil_conv list.inject)
  then show ?case using Cons by (simp add: match_loop.simps [of re "x # t"])
qed

section \<open>Lines\<close>

abbreviation newline :: char where "newline \<equiv> CHR 0x0A"

definition unlines :: "string list \<Rightarrow> string" where
  "unlines ls = concat (map (\<lambda>l. l @ [newline]) ls)"

definition plain :: "string \<Rightarrow> bool" where
  "plain l \<longleftrightarrow> newline \<notin> set l \<and> CHR 0x00 \<notin> set l"

lemma unlines_simps [simp]: "unlines [] = []" "unlines (l # ls) = l @ newline # unlines ls"
  by (simp_all add: unlines_def)

lemma strchr_line: "plain l \<Longrightarrow> strchr (l @ newline # s) newline = Some (length l)"
  by (induction l) (auto simp: plain_def)

lemma strchr_none: "newline \<notin> set s \<Longrightarrow> strchr s newline = None"
  by (induction s) auto

lemma grep_lines_filter:
  assumes "\<forall>l\<in>set ls. plain l" and "newline \<notin> set left"
  shows "grep_lines re (unlines ls @ left) = (unlines (filter (match re) ls), left)"
  using assms(1)
proof (induction ls)
  case Nil
  then show ?case using assms(2) by (simp add: grep_lines.simps strchr_none)
next
  case (Cons l ls)
  then show ?case by (subst grep_lines.simps) (simp add: strchr_line)
qed

lemma unlines_split:
  assumes "d @ rest = unlines ls @ tail" and "newline \<notin> set tail" and "\<forall>l\<in>set ls. plain l"
  obtains ls1 ls2 left where "ls = ls1 @ ls2" "d = unlines ls1 @ left" "left @ rest = unlines ls2 @ tail" "newline \<notin> set left"
  using assms
proof (induction ls arbitrary: d thesis)
  case Nil
  then show ?case by (metis append_Nil unlines_simps(1) Un_iff set_append)
next
  case (Cons l ls)
  show ?case
  proof (cases "length d \<le> length l")
    case True
    have eq: "d @ rest = l @ (newline # unlines ls @ tail)" using Cons.prems(2) by simp
    then obtain l2 where "l = d @ l2" using True by (metis append_eq_append_conv_if append_take_drop_id)
    then have "newline \<notin> set d" using Cons.prems(4) by (simp add: plain_def)
    then show ?thesis using Cons.prems(1) [of "[]" "l # ls" d] Cons.prems(2) by simp
  next
    case False
    have eq: "d @ rest = l @ (newline # unlines ls @ tail)" using Cons.prems(2) by simp
    obtain d1 where d1: "d = l @ d1" using False eq
      by (metis append_eq_append_conv_if append_take_drop_id less_imp_le not_le)
    moreover have "d1 \<noteq> []" using False d1 by auto
    ultimately obtain d2 where d: "d = l @ newline # d2" "d2 @ rest = unlines ls @ tail"
      using eq by (cases d1) auto
    show ?thesis
    proof (rule Cons.IH [OF _ d(2) Cons.prems(3)])
      show "\<forall>l\<in>set ls. plain l" using Cons.prems(4) by simp
      fix ls1 ls2 left assume "ls = ls1 @ ls2" "d2 = unlines ls1 @ left" "left @ rest = unlines ls2 @ tail" "newline \<notin> set left"
      then show thesis using Cons.prems(1) [of "l # ls1" ls2 left] d(1) by simp
    qed
  qed
qed

lemma grep_filter:
  assumes "buf @ input = unlines ls @ tail" and "newline \<notin> set buf" and "newline \<notin> set tail"
    and "\<forall>l\<in>set ls. plain l \<and> length l \<le> 1022"
  shows "grep re ks i buf input = unlines (filter (match re) ls)"
  using assms
proof (induction "length input" arbitrary: buf input ls i rule: less_induct)
  case less
  define n where "n = min (1024 - length buf - 1) (min (length input) (Suc (ks i)))"
  have step: "grep re ks i buf input = (if n = 0 then []
      else let (out, left) = grep_lines re (buf @ take n input) in out @ grep re ks (Suc i) left (drop n input))"
    unfolding n_def by (subst grep.simps) (simp only: Let_def)
  have p: "\<forall>l\<in>set ls. plain l" using less.prems(4) by simp
  show ?case
  proof (cases "n = 0")
    case True
    have "ls = []"
    proof (rule ccontr)
      assume "ls \<noteq> []"
      then obtain l ls' where ls: "ls = l # ls'" by (cases ls) auto
      have eq: "buf @ input = l @ (newline # unlines ls' @ tail)" using less.prems(1) ls by simp
      have "length buf \<le> length l"
      proof (rule ccontr)
        assume "\<not> length buf \<le> length l"
        then have "newline \<in> set buf" using arg_cong [OF eq, of "\<lambda>x. x ! length l"]
          by (simp add: nth_append) (metis nth_mem not_le)
        then show False using less.prems(2) by simp
      qed
      moreover have "length l \<le> 1022" using less.prems(4) ls by simp
      ultimately have "input = []" using True by (auto simp: n_def min_def split: if_splits)
      then have "newline \<in> set buf" using eq by simp
      then show False using less.prems(2) by simp
    qed
    then show ?thesis using True by (simp add: step)
  next
    case False
    have "(buf @ take n input) @ drop n input = unlines ls @ tail" using less.prems(1) by simp
    then obtain ls1 ls2 left where d: "ls = ls1 @ ls2" "buf @ take n input = unlines ls1 @ left"
        "left @ drop n input = unlines ls2 @ tail" "newline \<notin> set left"
      by (rule unlines_split [OF _ less.prems(3) p])
    have 1: "grep_lines re (buf @ take n input) = (unlines (filter (match re) ls1), left)"
      unfolding d(2) using p d(1,4) by (intro grep_lines_filter) auto
    have "grep re ks (Suc i) left (drop n input) = unlines (filter (match re) ls2)"
      by (rule less.hyps) (use False d less.prems in \<open>auto simp: n_def\<close>)
    then show ?thesis using False 1 d(1) by (simp add: step unlines_def)
  qed
qed

section \<open>Properties\<close>

text \<open>
  C12: The matcher decides the meaning of patterns. \<open>match re text\<close> is true exactly if some
  part of the text, or a beginning of it when the pattern starts with a caret, is accepted
  by the pattern read as a list of items: a character, a dot, a starred one, or a final
  dollar sign, which accepts only at the end of the text. The recursion always ends.
\<close>

theorem match_regex:
  "match re t \<longleftrightarrow>
     (if re \<noteq> [] \<and> hd re = CHR ''^'' then accepts (items (tl re)) t
      else \<exists>pre post. t = pre @ post \<and> accepts (items re) post)"
  by (simp add: match_def match_loop_suffix matchhere_accepts)

text \<open>
  C25: \<open>grep\<close> prints the lines that match, in order, and nothing else, in whatever pieces
  the input arrives, provided no line is longer than 1022 characters or contains a NUL.
  A last line without newline is not printed.
\<close>

theorem grep_filters_lines:
  assumes "\<forall>l\<in>set ls. newline \<notin> set l \<and> CHR 0x00 \<notin> set l \<and> length l \<le> 1022" and "newline \<notin> set tail"
  shows "grep re ks 0 [] (unlines ls @ tail) = unlines (filter (match re) ls)"
  by (rule grep_filter) (use assms in \<open>auto simp: plain_def\<close>)

theorem grep_filters_lines_witness:
  "grep ''a.*c$'' (\<lambda>_. 2) 0 [] (unlines [''xabc'', ''abd'', ''ac''] @ ''ac'') = ''xabc'' @ [newline] @ ''ac'' @ [newline]"
proof -
  have m: "match ''a.*c$'' ''xabc''" "\<not> match ''a.*c$'' ''abd''" "match ''a.*c$'' ''ac''"
    by (simp_all add: match_def match_loop.simps matchhere.simps(2) matchstar.simps)
  have "\<forall>l\<in>set [''xabc'', ''abd'', ''ac'']. newline \<notin> set l \<and> CHR 0x00 \<notin> set l \<and> length l \<le> 1022" "newline \<notin> set ''ac''"
    by simp_all
  from grep_filters_lines [OF this, of "''a.*c$''" "\<lambda>_. 2"] show ?thesis by (simp add: m)
qed

end
