(* ===== verification/Sh.thy ===== *)
theory Sh
  imports Prelude
begin

text \<open>
  The command parser of the shell, \<open>user/sh.c\<close>. The line is a C string without its NUL;
  a pointer into it is an index. A parsed command refers to words by a pair of indices,
  \<open>argv\<close> and \<open>eargv\<close> of the source. The functions that call each other and the loops take
  fuel: \<open>parsecmd\<close> supplies enough for every line.
\<close>

abbreviation (input) MAXARGS :: nat where "MAXARGS \<equiv> 10"

abbreviation (input) O_RDONLY :: int where "O_RDONLY \<equiv> 0"
abbreviation (input) O_WRONLY :: int where "O_WRONLY \<equiv> 1"
abbreviation (input) O_CREATE :: int where "O_CREATE \<equiv> 0x200"
abbreviation (input) O_TRUNC :: int where "O_TRUNC \<equiv> 0x400"

datatype 'w cmd =
    Exec "'w list"
  | Redir "'w cmd" 'w int int     \<comment> \<open>\<open>cmd\<close>, \<open>file\<close>, \<open>mode\<close>, \<open>fd\<close>\<close>
  | Pipe "'w cmd" "'w cmd"
  | Lst "'w cmd" "'w cmd"
  | Back "'w cmd"

type_synonym span = "nat \<times> nat"

datatype perr = Panic string | NoFuel

type_synonym 'a pres = "perr + 'a"

definition pbind :: "'a pres \<Rightarrow> ('a \<Rightarrow> 'b pres) \<Rightarrow> 'b pres" where
  "pbind m f = (case m of Inl e \<Rightarrow> Inl e | Inr a \<Rightarrow> f a)"

lemma pbind_simps [simp]: "pbind (Inl e) f = Inl e" "pbind (Inr a) f = f a"
  by (simp_all add: pbind_def)

lemma pbind_cong [fundef_cong]:
  "m = m' \<Longrightarrow> (\<And>a. m' = Inr a \<Longrightarrow> f a = f' a) \<Longrightarrow> pbind m f = pbind m' f'"
  by (auto simp: pbind_def split: sum.split)

section \<open>Tokens\<close>

definition whitespace :: string where
  "whitespace = [CHR '' '', CHR 0x09, CHR 0x0D, CHR 0x0A, CHR 0x0B]"

definition symbols :: string where
  "symbols = ''<|>&;()''"

abbreviation is_ws :: "char \<Rightarrow> bool" where "is_ws c \<equiv> c \<in> set whitespace"

abbreviation is_sym :: "char \<Rightarrow> bool" where "is_sym c \<equiv> c \<in> set symbols"

text \<open>\<open>while(s < es && strchr(whitespace, *s)) s++\<close>, and the loop over a word.\<close>

definition skipws :: "string \<Rightarrow> nat \<Rightarrow> nat" where
  "skipws s p = p + length (takeWhile is_ws (drop p s))"

definition skipword :: "string \<Rightarrow> nat \<Rightarrow> nat" where
  "skipword s p = p + length (takeWhile (\<lambda>c. \<not> is_ws c \<and> \<not> is_sym c) (drop p s))"

text \<open>The token, the indices \<open>q\<close> and \<open>eq\<close> of its text, and the new position.\<close>

definition gettoken :: "string \<Rightarrow> nat \<Rightarrow> char \<times> nat \<times> nat \<times> nat" where
  "gettoken s p =
     (let q = skipws s p in
      case drop q s of
        [] \<Rightarrow> (CHR 0x00, q, q, skipws s q)
      | c # r \<Rightarrow>
          if c \<in> set ''|();&<'' then (c, q, q + 1, skipws s (q + 1))
          else if c = CHR ''>'' then
            (if r \<noteq> [] \<and> hd r = CHR ''>'' then (CHR ''+'', q, q + 2, skipws s (q + 2))
             else (CHR ''>'', q, q + 1, skipws s (q + 1)))
          else (let e = skipword s q in (CHR ''a'', q, e, skipws s e)))"

definition peek :: "string \<Rightarrow> nat \<Rightarrow> string \<Rightarrow> nat \<times> bool" where
  "peek s p toks = (let q = skipws s p in (q, case drop q s of [] \<Rightarrow> False | c # r \<Rightarrow> c \<in> set toks))"

section \<open>The parser\<close>

definition execcmd :: "'w cmd" where
  [simp]: "execcmd = Exec []"

definition redircmd :: "'w cmd \<Rightarrow> 'w \<Rightarrow> int \<Rightarrow> int \<Rightarrow> 'w cmd" where
  [simp]: "redircmd subcmd file_efile mode fd = Redir subcmd file_efile mode fd"

definition pipecmd :: "'w cmd \<Rightarrow> 'w cmd \<Rightarrow> 'w cmd" where
  [simp]: "pipecmd left right = Pipe left right"

definition listcmd :: "'w cmd \<Rightarrow> 'w cmd \<Rightarrow> 'w cmd" where
  [simp]: "listcmd left right = Lst left right"

definition backcmd :: "'w cmd \<Rightarrow> 'w cmd" where
  [simp]: "backcmd subcmd = Back subcmd"

definition redir_tok :: "char \<Rightarrow> span cmd \<Rightarrow> nat \<Rightarrow> nat \<Rightarrow> span cmd" where
  "redir_tok tok cmd q eq =
     (if tok = CHR ''<'' then redircmd cmd (q, eq) O_RDONLY 0
      else if tok = CHR ''>'' then redircmd cmd (q, eq) (O_WRONLY OR O_CREATE OR O_TRUNC) 1
      else if tok = CHR ''+'' then redircmd cmd (q, eq) (O_WRONLY OR O_CREATE) 1
      else cmd)"

fun parseredirs :: "nat \<Rightarrow> string \<Rightarrow> span cmd \<Rightarrow> nat \<Rightarrow> (span cmd \<times> nat) pres" where
  "parseredirs 0 s cmd p = Inl NoFuel"
| "parseredirs (Suc n) s cmd p =
     (let (p1, more) = peek s p ''<>'' in
      if \<not> more then Inr (cmd, p1)
      else let (tok, _, _, p2) = gettoken s p1; (tok2, q, eq, p3) = gettoken s p2 in
        if tok2 \<noteq> CHR ''a'' then Inl (Panic ''missing file for redirection'')
        else parseredirs n s (redir_tok tok cmd q eq) p3)"

text \<open>
  \<open>parseexec\<close> keeps a pointer to the \<open>execcmd\<close> it allocated while redirections are put
  around it, and fills in the arguments there: \<open>fill\<close>.
\<close>

fun fill :: "'w list \<Rightarrow> 'w cmd \<Rightarrow> 'w cmd" where
  "fill args (Redir c w mode fd) = Redir (fill args c) w mode fd"
| "fill args (Exec _) = Exec args"
| "fill args c = c"

fun parseargs :: "nat \<Rightarrow> string \<Rightarrow> span cmd \<Rightarrow> span list \<Rightarrow> nat \<Rightarrow> (span cmd \<times> nat) pres" where
  "parseargs 0 s ret args p = Inl NoFuel"
| "parseargs (Suc n) s ret args p =
     (let (p1, stop) = peek s p ''|)&;'' in
      if stop then Inr (fill args ret, p1)
      else let (tok, q, eq, p2) = gettoken s p1 in
        if tok = CHR 0x00 then Inr (fill args ret, p2)
        else if tok \<noteq> CHR ''a'' then Inl (Panic ''syntax'')
        else let args' = args @ [(q, eq)] in
          if length args' \<ge> MAXARGS then Inl (Panic ''too many args'')
          else pbind (parseredirs n s ret p2) (\<lambda>(ret', p3). parseargs n s ret' args' p3))"

fun parseback :: "nat \<Rightarrow> string \<Rightarrow> span cmd \<Rightarrow> nat \<Rightarrow> (span cmd \<times> nat) pres" where
  "parseback 0 s cmd p = Inl NoFuel"
| "parseback (Suc n) s cmd p =
     (let (p1, more) = peek s p ''&'' in
      if \<not> more then Inr (cmd, p1)
      else let (tok, _, _, p2) = gettoken s p1 in parseback n s (backcmd cmd) p2)"

fun parseline :: "nat \<Rightarrow> string \<Rightarrow> nat \<Rightarrow> (span cmd \<times> nat) pres"
  and parsepipe :: "nat \<Rightarrow> string \<Rightarrow> nat \<Rightarrow> (span cmd \<times> nat) pres"
  and parseexec :: "nat \<Rightarrow> string \<Rightarrow> nat \<Rightarrow> (span cmd \<times> nat) pres"
  and parseblock :: "nat \<Rightarrow> string \<Rightarrow> nat \<Rightarrow> (span cmd \<times> nat) pres" where
  "parseline 0 s p = Inl NoFuel"
| "parseline (Suc n) s p =
     pbind (parsepipe n s p) (\<lambda>(cmd, p1).
     pbind (parseback n s cmd p1) (\<lambda>(cmd, p2).
     let (p3, more) = peek s p2 '';'' in
     if more then let (tok, _, _, p4) = gettoken s p3 in
       pbind (parseline n s p4) (\<lambda>(right, p5). Inr (listcmd cmd right, p5))
     else Inr (cmd, p3)))"
| "parsepipe 0 s p = Inl NoFuel"
| "parsepipe (Suc n) s p =
     pbind (parseexec n s p) (\<lambda>(cmd, p1).
     let (p2, more) = peek s p1 ''|'' in
     if more then let (tok, _, _, p3) = gettoken s p2 in
       pbind (parsepipe n s p3) (\<lambda>(right, p4). Inr (pipecmd cmd right, p4))
     else Inr (cmd, p2))"
| "parseexec 0 s p = Inl NoFuel"
| "parseexec (Suc n) s p =
     (let (p1, block) = peek s p ''('' in
      if block then parseblock n s p1
      else pbind (parseredirs n s execcmd p1) (\<lambda>(ret, p2). parseargs n s ret [] p2))"
| "parseblock 0 s p = Inl NoFuel"
| "parseblock (Suc n) s p =
     (let (p1, block) = peek s p ''('' in
      if \<not> block then Inl (Panic ''parseblock'')
      else let (tok, _, _, p2) = gettoken s p1 in
        pbind (parseline n s p2) (\<lambda>(cmd, p3).
        let (p4, close) = peek s p3 '')'' in
        if \<not> close then Inl (Panic ''syntax - missing )'')
        else let (tok, _, _, p5) = gettoken s p4 in parseredirs n s cmd p5))"

text \<open>Writing a NUL behind every word; behind the end of the line there is one already.\<close>

fun nulterminate :: "span cmd \<Rightarrow> string \<Rightarrow> string" where
  "nulterminate (Exec args) buf = fold (\<lambda>(q, eq) buf. buf[eq := CHR 0x00]) args buf"
| "nulterminate (Redir cmd w mode fd) buf = (nulterminate cmd buf)[snd w := CHR 0x00]"
| "nulterminate (Pipe left right) buf = nulterminate right (nulterminate left buf)"
| "nulterminate (Lst left right) buf = nulterminate right (nulterminate left buf)"
| "nulterminate (Back cmd) buf = nulterminate cmd buf"

definition fuel_for :: "string \<Rightarrow> nat" where
  "fuel_for s = 8 * length s + 6"

definition parsecmd :: "string \<Rightarrow> (span cmd \<times> string) pres" where
  "parsecmd s =
     pbind (parseline (fuel_for s) s 0) (\<lambda>(cmd, p).
     let (p1, _) = peek s p [] in
     if p1 \<noteq> length s then Inl (Panic ''syntax'')
     else Inr (cmd, nulterminate cmd s))"

text \<open>The C string that starts at an index of the buffer.\<close>

definition cstring :: "string \<Rightarrow> nat \<Rightarrow> string" where
  "cstring buf q = takeWhile (\<lambda>c. c \<noteq> CHR 0x00) (drop q buf)"

end
