(* ===== verification/Sh_Parse.thy ===== *)
theory Sh_Parse
  imports Sh
begin

text \<open>
  The parser of the shell always ends, and it reads back every command that is printed in
  the syntax of the shell.
\<close>

section \<open>Progress and termination\<close>

lemma skipws_ge: "p \<le> skipws s p"
  by (simp add: skipws_def)

lemma skipws_le: "p \<le> length s \<Longrightarrow> skipws s p \<le> length s"
  using length_takeWhile_le [of is_ws "drop p s"] by (simp add: skipws_def)

lemma skipword_ge: "p \<le> skipword s p"
  by (simp add: skipword_def)

lemma skipword_le: "p \<le> length s \<Longrightarrow> skipword s p \<le> length s"
  using length_takeWhile_le [of "\<lambda>c. \<not> is_ws c \<and> \<not> is_sym c" "drop p s"] by (simp add: skipword_def)

lemma drop_skipws: "drop (skipws s p) s = dropWhile is_ws (drop p s)"
  unfolding skipws_def by (metis add.commute drop_drop dropWhile_eq_drop)

lemma drop_ConsD: "drop q s = c # r \<Longrightarrow> q < length s"
  by (metis drop_all list.distinct(1) not_le)

lemma peek_pos:
  assumes "peek s p toks = (p1, b)"
  shows "p \<le> p1" "b \<Longrightarrow> p1 < length s"
  using assms skipws_ge [of p s] by (auto simp: peek_def Let_def dest: drop_ConsD split: list.splits)

lemma gettoken_pos:
  assumes "gettoken s p = (tok, q, e, p1)"
  shows "p \<le> p1" "tok \<noteq> CHR 0x00 \<Longrightarrow> p < p1 \<and> p < length s"
proof -
  let ?q = "skipws s p"
  have q: "p \<le> ?q" by (rule skipws_ge)
  show "p \<le> p1"
    using assms q skipws_ge [of ?q s] skipws_ge [of "Suc ?q" s] skipws_ge [of "?q + 2" s] skipws_ge [of "skipword s ?q" s] skipword_ge [of ?q s]
    by (auto simp: gettoken_def Let_def split: list.splits if_splits)
  assume "tok \<noteq> CHR 0x00"
  then obtain c r where c: "drop ?q s = c # r" using assms by (auto simp: gettoken_def Let_def split: list.splits)
  then have "?q < length s" by (rule drop_ConsD)
  moreover have "\<not> is_ws c" using c unfolding drop_skipws by (metis hd_dropWhile list.distinct(1) list.sel(1))
  moreover have "?q < skipword s ?q" if "\<not> is_sym c" using c that \<open>\<not> is_ws c\<close> by (simp add: skipword_def)
  moreover have "is_sym c \<longleftrightarrow> c \<in> set ''|();&<'' \<or> c = CHR ''>''" by (auto simp: symbols_def)
  ultimately have "?q < p1"
    using assms c skipws_ge [of "Suc ?q" s] skipws_ge [of "?q + 2" s] skipws_ge [of "skipword s ?q" s]
    by (fastforce simp: gettoken_def Let_def split: if_splits)
  then show "p < p1 \<and> p < length s" using q \<open>?q < length s\<close> by simp
qed

lemma gettoken_nul: "fst (gettoken s p) = CHR 0x00 \<longleftrightarrow> dropWhile is_ws (drop p s) = []"
proof (cases "dropWhile is_ws (drop p s)")
  case Nil
  show ?thesis unfolding gettoken_def Let_def drop_skipws Nil by simp
next
  case (Cons c r)
  show ?thesis unfolding gettoken_def Let_def drop_skipws Cons by auto
qed

lemma peek_gettoken:
  assumes "peek s p toks = (p1, True)" and "gettoken s p1 = (tok, q, e, p2)"
  shows "p1 < p2" "p \<le> p1" "p1 < length s"
proof -
  have p1: "p1 = skipws s p" using assms(1) by (simp add: peek_def Let_def)
  then have "drop p1 s = dropWhile is_ws (drop p s)" by (simp only: drop_skipws)
  moreover have "drop p1 s \<noteq> []" using assms(1) unfolding p1 by (auto simp only: peek_def Let_def split: list.splits)
  ultimately have "fst (gettoken s p1) \<noteq> CHR 0x00" unfolding gettoken_nul by (metis dropWhile_idem)
  then show "p1 < p2" "p \<le> p1" "p1 < length s" using gettoken_pos [OF assms(2)] peek_pos [OF assms(1)] assms(2) by auto
qed

lemma parseredirs_pos: "parseredirs n s c p = Inr (c', p') \<Longrightarrow> p \<le> p'"
proof (induction n arbitrary: c p)
  case (Suc n)
  obtain p1 b where pk: "peek s p ''<>'' = (p1, b)" by fastforce
  obtain t1 q1 e1 p2 where g1: "gettoken s p1 = (t1, q1, e1, p2)" by (metis prod_cases4)
  obtain t2 q2 e2 p3 where g2: "gettoken s p2 = (t2, q2, e2, p3)" by (metis prod_cases4)
  show ?case
    using Suc.prems Suc.IH [of "redir_tok t1 c q2 e2" p3] pk peek_pos(1) [OF pk] gettoken_pos(1) [OF g1] gettoken_pos(1) [OF g2]
    by (auto simp: g1 g2 split: if_splits)
qed simp

lemma parseredirs_fuel: "length s - p < n \<Longrightarrow> parseredirs n s c p \<noteq> Inl NoFuel"
proof (induction n arbitrary: c p)
  case (Suc n)
  obtain p1 b where pk: "peek s p ''<>'' = (p1, b)" by fastforce
  obtain t1 q1 e1 p2 where g1: "gettoken s p1 = (t1, q1, e1, p2)" by (metis prod_cases4)
  obtain t2 q2 e2 p3 where g2: "gettoken s p2 = (t2, q2, e2, p3)" by (metis prod_cases4)
  show ?case
  proof (cases b)
    case True
    then have "p1 < p2" "p \<le> p1" "p1 < length s" using peek_gettoken [OF _ g1] pk by auto
    then have "length s - p3 < n" using Suc.prems gettoken_pos(1) [OF g2] by linarith
    then show ?thesis using Suc.IH pk g1 g2 True by simp
  qed (simp add: pk)
qed simp

lemma parseargs_pos: "parseargs n s c as p = Inr (c', p') \<Longrightarrow> p \<le> p'"
proof (induction n arbitrary: c as p)
  case (Suc n)
  obtain p1 b where pk: "peek s p ''|)&;'' = (p1, b)" by fastforce
  obtain t1 q1 e1 p2 where g1: "gettoken s p1 = (t1, q1, e1, p2)" by (metis prod_cases4)
  show ?case
    using Suc.prems Suc.IH pk peek_pos(1) [OF pk] gettoken_pos(1) [OF g1] parseredirs_pos [of n s c p2]
    by (cases "parseredirs n s c p2") (force simp: g1 split: if_splits)+
qed simp

lemma parseargs_fuel: "length s - p < n \<Longrightarrow> parseargs n s c as p \<noteq> Inl NoFuel"
proof (induction n arbitrary: c as p)
  case (Suc n)
  obtain p1 b where pk: "peek s p ''|)&;'' = (p1, b)" by fastforce
  obtain t1 q1 e1 p2 where g1: "gettoken s p1 = (t1, q1, e1, p2)" by (metis prod_cases4)
  show ?case
  proof (cases "b \<or> t1 = CHR 0x00 \<or> t1 \<noteq> CHR ''a'' \<or> length (as @ [(q1, e1)]) \<ge> 10")
    case False
    then have "p1 < p2" "p1 < length s" "p \<le> p1" using gettoken_pos(2) [OF g1] peek_pos(1) [OF pk] by auto
    then have l: "length s - p2 < n" using Suc.prems by linarith
    show ?thesis
    proof (cases "parseredirs n s c p2")
      case (Inl e)
      then show ?thesis using parseredirs_fuel [OF l, of c] False by (simp add: pk g1)
    next
      case (Inr r)
      then obtain c3 p3 where r: "r = (c3, p3)" by fastforce
      then have "length s - p3 < n" using parseredirs_pos [of n s c p2 c3 p3] Inr l by simp
      then show ?thesis using Suc.IH False Inr r by (simp add: pk g1)
    qed
  qed (auto simp: pk g1)
qed simp

lemma parseback_pos: "parseback n s c p = Inr (c', p') \<Longrightarrow> p \<le> p'"
proof (induction n arbitrary: c p)
  case (Suc n)
  obtain p1 b where pk: "peek s p ''&'' = (p1, b)" by fastforce
  obtain t1 q1 e1 p2 where g1: "gettoken s p1 = (t1, q1, e1, p2)" by (metis prod_cases4)
  show ?case
    using Suc.prems Suc.IH [of "Back c" p2] peek_pos(1) [OF pk] gettoken_pos(1) [OF g1] by (auto simp: pk g1 split: if_splits)
qed simp

lemma parseback_fuel: "length s - p < n \<Longrightarrow> parseback n s c p \<noteq> Inl NoFuel"
proof (induction n arbitrary: c p)
  case (Suc n)
  obtain p1 b where pk: "peek s p ''&'' = (p1, b)" by fastforce
  obtain t1 q1 e1 p2 where g1: "gettoken s p1 = (t1, q1, e1, p2)" by (metis prod_cases4)
  show ?case
  proof (cases b)
    case True
    then have "p1 < p2" "p \<le> p1" "p1 < length s" using peek_gettoken [OF _ g1] pk by auto
    then have "length s - p2 < n" using Suc.prems by linarith
    then show ?thesis using Suc.IH pk g1 True by simp
  qed (simp add: pk)
qed simp

lemma pbind_Inr: "pbind m f = Inr r \<longleftrightarrow> (\<exists>a. m = Inr a \<and> f a = Inr r)"
  by (cases m) simp_all

lemma pbind_NoFuel: "pbind m f = Inl NoFuel \<longleftrightarrow> m = Inl NoFuel \<or> (\<exists>a. m = Inr a \<and> f a = Inl NoFuel)"
  by (cases m) simp_all

lemma parseline_InrE:
  assumes "parseline (Suc n) s p = Inr (c, p')"
  obtains c1 p1 c2 p2 where "parsepipe n s p = Inr (c1, p1)" "parseback n s c1 p1 = Inr (c2, p2)" "peek s p2 '';'' = (p', False)" "c = c2"
  | c1 p1 c2 p2 p3 t q e p4 r where "parsepipe n s p = Inr (c1, p1)" "parseback n s c1 p1 = Inr (c2, p2)" "peek s p2 '';'' = (p3, True)"
    "gettoken s p3 = (t, q, e, p4)" "parseline n s p4 = Inr (r, p')" "c = Lst c2 r"
proof -
  obtain c1 p1 where 1: "parsepipe n s p = Inr (c1, p1)" using assms by (cases "parsepipe n s p") auto
  obtain c2 p2 where 2: "parseback n s c1 p1 = Inr (c2, p2)" using assms 1 by (cases "parseback n s c1 p1") auto
  obtain p3 b where 3: "peek s p2 '';'' = (p3, b)" by fastforce
  obtain t q e p4 where 4: "gettoken s p3 = (t, q, e, p4)" by (metis prod_cases4)
  show thesis
  proof (cases b)
    case True
    then obtain r where "parseline n s p4 = Inr (r, p')" "c = Lst c2 r"
      using assms 1 2 3 4 by (cases "parseline n s p4") auto
    then show thesis using that(2) [OF 1 2 _ 4] 3 True by simp
  next
    case False
    then have "peek s p2 '';'' = (p', False)" "c = c2" using assms 1 2 3 by auto
    then show thesis using that(1) 1 2 by blast
  qed
qed

lemma parsepipe_InrE:
  assumes "parsepipe (Suc n) s p = Inr (c, p')"
  obtains c1 p1 where "parseexec n s p = Inr (c1, p1)" "peek s p1 ''|'' = (p', False)" "c = c1"
  | c1 p1 p2 t q e p3 r where "parseexec n s p = Inr (c1, p1)" "peek s p1 ''|'' = (p2, True)"
    "gettoken s p2 = (t, q, e, p3)" "parsepipe n s p3 = Inr (r, p')" "c = Pipe c1 r"
proof -
  obtain c1 p1 where 1: "parseexec n s p = Inr (c1, p1)" using assms by (cases "parseexec n s p") auto
  obtain p2 b where 2: "peek s p1 ''|'' = (p2, b)" by fastforce
  obtain t q e p3 where 3: "gettoken s p2 = (t, q, e, p3)" by (metis prod_cases4)
  show thesis
  proof (cases b)
    case True
    then obtain r where "parsepipe n s p3 = Inr (r, p')" "c = Pipe c1 r"
      using assms 1 2 3 by (cases "parsepipe n s p3") auto
    then show thesis using that(2) [OF 1 _ 3] 2 True by simp
  next
    case False
    then have "peek s p1 ''|'' = (p', False)" "c = c1" using assms 1 2 by auto
    then show thesis using that(1) 1 by blast
  qed
qed

lemma parseexec_InrE:
  assumes "parseexec (Suc n) s p = Inr (c, p')"
  obtains p1 where "peek s p ''('' = (p1, True)" "parseblock n s p1 = Inr (c, p')"
  | p1 c1 p2 where "peek s p ''('' = (p1, False)" "parseredirs n s (Exec []) p1 = Inr (c1, p2)" "parseargs n s c1 [] p2 = Inr (c, p')"
proof -
  obtain p1 b where 1: "peek s p ''('' = (p1, b)" by fastforce
  show thesis
  proof (cases b)
    case True
    then show thesis using assms 1 that(1) by auto
  next
    case False
    then obtain c1 p2 where "parseredirs n s (Exec []) p1 = Inr (c1, p2)"
      using assms 1 by (cases "parseredirs n s (Exec []) p1") auto
    then show thesis using assms 1 False that(2) by auto
  qed
qed

lemma parseblock_InrE:
  assumes "parseblock (Suc n) s p = Inr (c, p')"
  obtains p1 t q e p2 c1 p3 p4 t2 q2 e2 p5 where "peek s p ''('' = (p1, True)" "gettoken s p1 = (t, q, e, p2)"
    "parseline n s p2 = Inr (c1, p3)" "peek s p3 '')'' = (p4, True)" "gettoken s p4 = (t2, q2, e2, p5)"
    "parseredirs n s c1 p5 = Inr (c, p')"
proof -
  obtain p1 b where 1: "peek s p ''('' = (p1, b)" by fastforce
  obtain t q e p2 where 2: "gettoken s p1 = (t, q, e, p2)" by (metis prod_cases4)
  have b: "b" using assms 1 by (cases b) auto
  obtain c1 p3 where 3: "parseline n s p2 = Inr (c1, p3)" using assms 1 2 b by (cases "parseline n s p2") auto
  obtain p4 d where 4: "peek s p3 '')'' = (p4, d)" by fastforce
  obtain t2 q2 e2 p5 where 5: "gettoken s p4 = (t2, q2, e2, p5)" by (metis prod_cases4)
  have d: "d" using assms 1 2 3 4 b by (cases d) auto
  show thesis using that assms 1 2 3 4 5 b d by auto
qed

lemma parse_pos:
  "(\<forall>p c p'. parseline n s p = Inr (c, p') \<longrightarrow> p \<le> p') \<and> (\<forall>p c p'. parsepipe n s p = Inr (c, p') \<longrightarrow> p \<le> p') \<and>
   (\<forall>p c p'. parseexec n s p = Inr (c, p') \<longrightarrow> p \<le> p') \<and> (\<forall>p c p'. parseblock n s p = Inr (c, p') \<longrightarrow> p \<le> p')"
proof (induction n)
  case (Suc n)
  then have ih: "\<And>p c p'. parseline n s p = Inr (c, p') \<Longrightarrow> p \<le> p'" "\<And>p c p'. parsepipe n s p = Inr (c, p') \<Longrightarrow> p \<le> p'"
    "\<And>p c p'. parseexec n s p = Inr (c, p') \<Longrightarrow> p \<le> p'" "\<And>p c p'. parseblock n s p = Inr (c, p') \<Longrightarrow> p \<le> p'" by blast+
  show ?case
  proof (intro conjI allI impI)
    fix p c p' assume "parseline (Suc n) s p = Inr (c, p')"
    then show "p \<le> p'"
      by (rule parseline_InrE) (auto dest!: ih(1,2) parseback_pos peek_pos(1) gettoken_pos(1))
  next
    fix p c p' assume "parsepipe (Suc n) s p = Inr (c, p')"
    then show "p \<le> p'"
      by (rule parsepipe_InrE) (auto dest!: ih(2,3) peek_pos(1) gettoken_pos(1))
  next
    fix p c p' assume "parseexec (Suc n) s p = Inr (c, p')"
    then show "p \<le> p'"
      by (rule parseexec_InrE) (auto dest!: ih(4) peek_pos(1) parseredirs_pos parseargs_pos)
  next
    fix p c p' assume "parseblock (Suc n) s p = Inr (c, p')"
    then show "p \<le> p'"
      by (rule parseblock_InrE) (auto dest!: ih(1) peek_pos(1) gettoken_pos(1) parseredirs_pos)
  qed
qed simp

lemma parse_fuel:
  "(\<forall>p. 8 * (length s - p) + 4 < n \<longrightarrow> parseline n s p \<noteq> Inl NoFuel) \<and>
   (\<forall>p. 8 * (length s - p) + 3 < n \<longrightarrow> parsepipe n s p \<noteq> Inl NoFuel) \<and>
   (\<forall>p. 8 * (length s - p) + 2 < n \<longrightarrow> parseexec n s p \<noteq> Inl NoFuel) \<and>
   (\<forall>p. 8 * (length s - p) + 1 < n \<longrightarrow> parseblock n s p \<noteq> Inl NoFuel)"
proof (induction n)
  case (Suc n)
  then have line: "\<And>p. 8 * (length s - p) + 4 < n \<Longrightarrow> parseline n s p \<noteq> Inl NoFuel"
    and pipe: "\<And>p. 8 * (length s - p) + 3 < n \<Longrightarrow> parsepipe n s p \<noteq> Inl NoFuel"
    and exec: "\<And>p. 8 * (length s - p) + 2 < n \<Longrightarrow> parseexec n s p \<noteq> Inl NoFuel"
    and block: "\<And>p. 8 * (length s - p) + 1 < n \<Longrightarrow> parseblock n s p \<noteq> Inl NoFuel" by blast+
  note pos = parse_pos [of n s]
  show ?case
  proof (intro conjI allI impI notI)
    fix p assume n: "8 * (length s - p) + 4 < Suc n" and "parseline (Suc n) s p = Inl NoFuel"
    obtain c1 p1 where 1: "parsepipe n s p = Inr (c1, p1)"
      using \<open>parseline (Suc n) s p = Inl NoFuel\<close> pipe [of p] n by (cases "parsepipe n s p") auto
    have p1: "p \<le> p1" using pos 1 by blast
    have "length s - p1 < n" using n p1 by linarith
    then obtain c2 p2 where 2: "parseback n s c1 p1 = Inr (c2, p2)"
      using \<open>parseline (Suc n) s p = Inl NoFuel\<close> 1 parseback_fuel [of s p1 n c1] by (cases "parseback n s c1 p1") auto
    obtain p3 b where 3: "peek s p2 '';'' = (p3, b)" by fastforce
    obtain t q e p4 where 4: "gettoken s p3 = (t, q, e, p4)" by (metis prod_cases4)
    have b: "b" using \<open>parseline (Suc n) s p = Inl NoFuel\<close> 1 2 3 by (cases b) auto
    then have "p < p4" "p < length s" using peek_gettoken [OF _ 4, of p2 "'';''"] 3 p1 parseback_pos [OF 2] by auto
    then have "parseline n s p4 \<noteq> Inl NoFuel" using n by (intro line) linarith
    then show False
      using \<open>parseline (Suc n) s p = Inl NoFuel\<close> 1 2 3 4 b by (cases "parseline n s p4") auto
  next
    fix p assume n: "8 * (length s - p) + 3 < Suc n" and f: "parsepipe (Suc n) s p = Inl NoFuel"
    obtain c1 p1 where 1: "parseexec n s p = Inr (c1, p1)" using f exec [of p] n by (cases "parseexec n s p") auto
    have p1: "p \<le> p1" using pos 1 by blast
    obtain p3 b where 3: "peek s p1 ''|'' = (p3, b)" by fastforce
    obtain t q e p4 where 4: "gettoken s p3 = (t, q, e, p4)" by (metis prod_cases4)
    have b: "b" using f 1 3 by (cases b) auto
    then have "p < p4" "p < length s" using peek_gettoken [OF _ 4, of p1 "''|''"] 3 p1 by auto
    then have "parsepipe n s p4 \<noteq> Inl NoFuel" using n by (intro pipe) linarith
    then show False using f 1 3 4 b by (cases "parsepipe n s p4") auto
  next
    fix p assume n: "8 * (length s - p) + 2 < Suc n" and f: "parseexec (Suc n) s p = Inl NoFuel"
    obtain p1 b where 1: "peek s p ''('' = (p1, b)" by fastforce
    have p1: "p \<le> p1" by (rule peek_pos(1) [OF 1])
    have "parseblock n s p1 \<noteq> Inl NoFuel" using n p1 by (intro block) linarith
    then have b: "\<not> b" using f 1 by auto
    have "length s - p1 < n" using n p1 by linarith
    then obtain c2 p2 where 2: "parseredirs n s (Exec []) p1 = Inr (c2, p2)"
      using f 1 b parseredirs_fuel [of s p1 n "Exec []"] by (cases "parseredirs n s (Exec []) p1") auto
    have "parseargs n s c2 [] p2 \<noteq> Inl NoFuel" using parseredirs_pos [OF 2] n p1 by (intro parseargs_fuel) linarith
    then show False using f 1 b 2 by simp
  next
    fix p assume n: "8 * (length s - p) + 1 < Suc n" and f: "parseblock (Suc n) s p = Inl NoFuel"
    obtain p1 b where 1: "peek s p ''('' = (p1, b)" by fastforce
    obtain t q e p2 where 2: "gettoken s p1 = (t, q, e, p2)" by (metis prod_cases4)
    have b: "b" using f 1 by (cases b) auto
    have p2: "p < p2" "p < length s" using peek_gettoken [OF _ 2, of p "''(''"] 1 b by auto
    then have "parseline n s p2 \<noteq> Inl NoFuel" using n by (intro line) linarith
    then obtain c1 p3 where 3: "parseline n s p2 = Inr (c1, p3)" using f 1 2 b by (cases "parseline n s p2") auto
    obtain p4 d where 4: "peek s p3 '')'' = (p4, d)" by fastforce
    obtain t2 q2 e2 p5 where 5: "gettoken s p4 = (t2, q2, e2, p5)" by (metis prod_cases4)
    have d: "d" using f 1 2 3 4 b by (cases d) auto
    have "p2 \<le> p3" using pos 3 by blast
    then have "parseredirs n s c1 p5 \<noteq> Inl NoFuel"
      using n p2 peek_pos(1) [OF 4] gettoken_pos(1) [OF 5] by (intro parseredirs_fuel) linarith
    then show False using f 1 2 3 4 5 b d by simp
  qed
qed simp

lemma parsecmd_fuel: "parsecmd s \<noteq> Inl NoFuel"
proof -
  have "parseline (fuel_for s) s 0 \<noteq> Inl NoFuel" using parse_fuel [of s "fuel_for s"] by (simp add: fuel_for_def)
  then show ?thesis
    by (cases "parseline (fuel_for s) s 0") (auto simp: parsecmd_def Let_def split: prod.splits)
qed

text \<open>More fuel does not change a result.\<close>

definition lesser :: "'a pres \<Rightarrow> 'a pres \<Rightarrow> bool" where
  "lesser a b \<longleftrightarrow> a = Inl NoFuel \<or> a = b"

lemma lesser_refl [simp]: "lesser a a"
  by (simp add: lesser_def)

lemma lesser_fuel [simp]: "lesser (Inl NoFuel) a"
  by (simp add: lesser_def)

lemma lesser_pbind: "lesser m m' \<Longrightarrow> (\<And>a b. lesser (f (a, b)) (f' (a, b))) \<Longrightarrow> lesser (pbind m f) (pbind m' f')"
  by (cases m; cases m') (auto simp: lesser_def)

lemma parseredirs_mono: "n \<le> m \<Longrightarrow> lesser (parseredirs n s c p) (parseredirs m s c p)"
proof (induction n arbitrary: m c p)
  case (Suc n)
  then obtain k where "m = Suc k" "n \<le> k" by (cases m) auto
  then show ?case using Suc.IH [of k] by (auto simp: Let_def split: prod.split)
qed simp

lemma parseargs_mono: "n \<le> m \<Longrightarrow> lesser (parseargs n s c as p) (parseargs m s c as p)"
proof (induction n arbitrary: m c as p)
  case (Suc n)
  then obtain k where "m = Suc k" "n \<le> k" by (cases m) auto
  then show ?case
    using Suc.IH [of k] parseredirs_mono [of n k] by (auto simp: Let_def intro!: lesser_pbind split: prod.split)
qed simp

lemma parseback_mono: "n \<le> m \<Longrightarrow> lesser (parseback n s c p) (parseback m s c p)"
proof (induction n arbitrary: m c p)
  case (Suc n)
  then obtain k where "m = Suc k" "n \<le> k" by (cases m) auto
  then show ?case using Suc.IH [of k] by (auto simp: Let_def split: prod.split)
qed simp

lemma parse_mono:
  "n \<le> m \<Longrightarrow> (\<forall>p. lesser (parseline n s p) (parseline m s p)) \<and> (\<forall>p. lesser (parsepipe n s p) (parsepipe m s p)) \<and>
     (\<forall>p. lesser (parseexec n s p) (parseexec m s p)) \<and> (\<forall>p. lesser (parseblock n s p) (parseblock m s p))"
proof (induction n arbitrary: m)
  case (Suc n)
  then obtain k where k: "m = Suc k" "n \<le> k" by (cases m) auto
  show ?case
    using Suc.IH [OF k(2)] parseredirs_mono [OF k(2)] parseargs_mono [OF k(2)] parseback_mono [OF k(2)]
    by (intro conjI allI) (auto simp: k(1) Let_def intro!: lesser_pbind split: prod.split)
qed simp

lemma parseline_more:
  assumes "parseline m s p = Inr r" and "parseline n s p \<noteq> Inl NoFuel"
  shows "parseline n s p = Inr r"
proof -
  have "lesser (parseline n s p) (parseline m s p) \<or> lesser (parseline m s p) (parseline n s p)"
    using parse_mono [of n m s] parse_mono [of m n s] by (meson nat_le_linear)
  then show ?thesis using assms by (auto simp: lesser_def)
qed

end
