(* ===== verification/Sh_Print.thy ===== *)
theory Sh_Print
  imports Sh_Parse
begin

text \<open>
  Commands in the syntax of the shell, printed with as few parentheses as the grammar allows,
  are read back by \<open>parsecmd\<close>.
\<close>

section \<open>Printing\<close>

text \<open>The level says what the context takes: 0 a line, 1 a command before \<open>&\<close>, 2 a pipe, 3 a simple command.\<close>

definition rsym :: "int \<Rightarrow> string" where
  "rsym mode = (if mode = O_RDONLY then ''<'' else if mode = O_WRONLY OR O_CREATE OR O_TRUNC then ''>'' else ''>>'')"

definition paren :: "bool \<Rightarrow> string \<Rightarrow> string" where
  "paren b t = (if b then ''('' @ t @ '')'' else t)"

primrec pr :: "string cmd \<Rightarrow> nat \<Rightarrow> string" where
  "pr (Exec args) l = concat (map (\<lambda>w. w @ '' '') args)"
| "pr (Redir c w mode fd) l = pr c 3 @ rsym mode @ w @ '' ''"
| "pr (Pipe a b) l = paren (l > 2) (pr a 3 @ ''|'' @ pr b 2)"
| "pr (Back a) l = paren (l > 1) (pr a 1 @ ''&'')"
| "pr (Lst a b) l = paren (l > 0) (pr a 1 @ '';'' @ pr b 0)"

definition print_cmd :: "string cmd \<Rightarrow> string" where
  "print_cmd c = pr c 0"

text \<open>What can be written: words without blanks and symbols, few enough arguments, the three redirections.\<close>

definition word :: "string \<Rightarrow> bool" where
  "word w \<longleftrightarrow> w \<noteq> [] \<and> (\<forall>c\<in>set w. \<not> is_ws c \<and> \<not> is_sym c \<and> c \<noteq> CHR 0x00)"

definition redir_ok :: "int \<Rightarrow> int \<Rightarrow> bool" where
  "redir_ok mode fd \<longleftrightarrow> mode = O_RDONLY \<and> fd = 0 \<or>
     (mode = O_WRONLY OR O_CREATE OR O_TRUNC \<or> mode = O_WRONLY OR O_CREATE) \<and> fd = 1"

primrec cmd_ok :: "string cmd \<Rightarrow> bool" where
  "cmd_ok (Exec args) = ((\<forall>w\<in>set args. word w) \<and> length args < MAXARGS)"
| "cmd_ok (Redir c w mode fd) = (cmd_ok c \<and> word w \<and> redir_ok mode fd)"
| "cmd_ok (Pipe a b) = (cmd_ok a \<and> cmd_ok b)"
| "cmd_ok (Back a) = cmd_ok a"
| "cmd_ok (Lst a b) = (cmd_ok a \<and> cmd_ok b)"

section \<open>Reading tokens\<close>

abbreviation nows :: "string \<Rightarrow> string" where "nows x \<equiv> dropWhile is_ws x"

text \<open>At \<open>p\<close> the line continues with \<open>x\<close>, up to blanks.\<close>

definition at :: "string \<Rightarrow> nat \<Rightarrow> string \<Rightarrow> bool" where
  "at s p x \<longleftrightarrow> p \<le> length s \<and> nows (drop p s) = nows x"

definition sub :: "string \<Rightarrow> span \<Rightarrow> string" where
  "sub s w = take (snd w - fst w) (drop (fst w) s)"

definition wok :: "string \<Rightarrow> span \<Rightarrow> bool" where
  "wok s w \<longleftrightarrow> fst w < snd w \<and> snd w \<le> length s \<and> word (sub s w) \<and>
     (snd w < length s \<longrightarrow> is_ws (s ! snd w) \<or> is_sym (s ! snd w))"

lemma nows_idem [simp]: "nows (nows x) = nows x"
  by (rule dropWhile_idem)

lemma nows_Cons: "\<not> is_ws c \<Longrightarrow> nows (c # r) = c # r"
  by simp

lemma nows_word: "word w \<Longrightarrow> nows (w @ r) = w @ r"
  by (cases w) (simp_all add: word_def)

lemma at_skipws: "at s p x \<Longrightarrow> at s (skipws s p) x"
  by (simp add: at_def skipws_le drop_skipws)

lemma at_drop: "at s p x \<Longrightarrow> drop (skipws s p) s = nows x"
  by (simp add: at_def drop_skipws)

lemma at_after:
  assumes "at s p x" and "nows x = u @ r"
  shows "at s (skipws s (skipws s p + length u)) r"
proof -
  have d: "drop (skipws s p) s = u @ r" using at_drop [OF assms(1)] assms(2) by simp
  have "skipws s p + length u \<le> length s" using arg_cong [OF d, of length] at_skipws [OF assms(1)] unfolding at_def length_drop length_append by linarith
  moreover have "drop (skipws s p + length u) s = r"
    using arg_cong [OF d, of "drop (length u)"] by (simp add: add.commute)
  ultimately show ?thesis by (intro at_skipws) (simp add: at_def)
qed

lemma peek_at:
  assumes "at s p x"
  shows "peek s p toks = (skipws s p, case nows x of [] \<Rightarrow> False | c # r \<Rightarrow> c \<in> set toks)"
  by (simp only: peek_def Let_def at_drop [OF assms])

lemma token_sym:
  assumes "at s p x" and "nows x = c # r" and "c \<in> set ''|();&<''"
  shows "\<exists>q e p'. gettoken s p = (c, q, e, p') \<and> at s p' r"
proof -
  have "gettoken s p = (c, skipws s p, skipws s p + 1, skipws s (skipws s p + 1))"
    unfolding gettoken_def Let_def at_drop [OF assms(1)] assms(2) using assms(3) by simp
  moreover have "at s (skipws s (skipws s p + 1)) r" using at_after [OF assms(1), of "[c]" r] assms(2) by simp
  ultimately show ?thesis by blast
qed

lemma token_redir:
  assumes "at s p x" and "nows x = rsym mode @ w @ r" and "word w" and "redir_ok mode fd"
  obtains t q e p' where "gettoken s p = (t, q, e, p')" "at s p' (w @ r)"
    "\<And>c q e. redir_tok t c q e = Redir c (q, e) mode fd"
proof -
  obtain v ws where w: "w = v # ws" "v \<noteq> CHR ''>''" using assms(3) by (cases w) (auto simp: word_def symbols_def)
  note g = gettoken_def [of s p, unfolded Let_def at_drop [OF assms(1)] assms(2)]
  consider "mode = 0" "fd = 0" | "mode = 1 OR 0x200 OR 0x400" "fd = 1" | "mode = 1 OR 0x200" "fd = 1"
    using assms(4) by (auto simp: redir_ok_def)
  then show thesis
  proof cases
    case 1
    show thesis
      by (rule that [where t = "CHR ''<''"]) (use g at_after [OF assms(1), of "''<''" "w @ r"] assms(2) 1 in \<open>simp_all add: rsym_def redir_tok_def\<close>)
  next
    case 2
    show thesis
      by (rule that [where t = "CHR ''>''"]) (use g at_after [OF assms(1), of "''>''" "w @ r"] assms(2) 2 w in \<open>simp_all add: rsym_def redir_tok_def\<close>)
  next
    case 3
    show thesis
      by (rule that [where t = "CHR ''+''"]) (use g at_after [OF assms(1), of "''>>''" "w @ r"] assms(2) 3 in \<open>simp_all add: rsym_def redir_tok_def\<close>)
  qed
qed

lemma token_word:
  assumes "at s p x" and "nows x = w @ r" and "word w" and "r = [] \<or> is_ws (hd r) \<or> is_sym (hd r)"
  obtains q e p' where "gettoken s p = (CHR ''a'', q, e, p')" "at s p' r" "sub s (q, e) = w" "wok s (q, e)"
proof -
  let ?q = "skipws s p"
  have d: "drop ?q s = w @ r" using at_drop [OF assms(1)] assms(2) by simp
  have "takeWhile (\<lambda>c. \<not> is_ws c \<and> \<not> is_sym c) (w @ r) = w"
    using assms(3,4) by (subst takeWhile_append2) (auto simp: word_def takeWhile_eq_Nil_iff)
  then have e: "skipword s ?q = ?q + length w" by (simp add: skipword_def d)
  obtain v ws where w: "w = v # ws" "\<not> is_sym v" using assms(3) by (cases w) (auto simp: word_def)
  then have "v \<notin> set ''|();&<''" "v \<noteq> CHR ''>''" by (auto simp: symbols_def)
  then have g: "gettoken s p = (CHR ''a'', ?q, ?q + length w, skipws s (?q + length w))"
    using w d by (simp add: gettoken_def e Let_def)
  have len: "?q + length w \<le> length s" using arg_cong [OF d, of length] at_skipws [OF assms(1)] unfolding at_def length_drop length_append by linarith
  have s: "sub s (?q, ?q + length w) = w" by (simp add: sub_def d)
  have "is_ws (s ! (?q + length w)) \<or> is_sym (s ! (?q + length w))" if "?q + length w < length s"
  proof -
    have "s ! (?q + length w) = (w @ r) ! length w" unfolding d [symmetric] using that by simp
    moreover have "r \<noteq> []" using arg_cong [OF d, of length] that by auto
    ultimately show ?thesis using assms(4) by (simp add: hd_conv_nth nth_append)
  qed
  then have "wok s (?q, ?q + length w)" using len s assms(3) w by (simp add: wok_def)
  then show thesis using that [OF g at_after [OF assms(1,2)] s] by simp
qed

section \<open>More fuel\<close>

lemma Inr_lesser: "lesser a b \<Longrightarrow> a = Inr r \<Longrightarrow> b = Inr r"
  by (auto simp: lesser_def)

lemma line_up: "parseline n s p = Inr r \<Longrightarrow> n \<le> m \<Longrightarrow> parseline m s p = Inr r"
  using parse_mono [of n m s] by (blast intro: Inr_lesser)

lemma pipe_up: "parsepipe n s p = Inr r \<Longrightarrow> n \<le> m \<Longrightarrow> parsepipe m s p = Inr r"
  using parse_mono [of n m s] by (blast intro: Inr_lesser)

lemma exec_up: "parseexec n s p = Inr r \<Longrightarrow> n \<le> m \<Longrightarrow> parseexec m s p = Inr r"
  using parse_mono [of n m s] by (blast intro: Inr_lesser)

lemma redirs_up: "parseredirs n s c p = Inr r \<Longrightarrow> n \<le> m \<Longrightarrow> parseredirs m s c p = Inr r"
  using parseredirs_mono [of n m s] by (blast intro: Inr_lesser)

lemma args_up: "parseargs n s c as p = Inr r \<Longrightarrow> n \<le> m \<Longrightarrow> parseargs m s c as p = Inr r"
  using parseargs_mono [of n m s] by (blast intro: Inr_lesser)

lemma back_up: "parseback n s c p = Inr r \<Longrightarrow> n \<le> m \<Longrightarrow> parseback m s c p = Inr r"
  using parseback_mono [of n m s] by (blast intro: Inr_lesser)

section \<open>Redirections and arguments\<close>

text \<open>A command with the redirections around it.\<close>

definition wrap :: "('w \<times> int \<times> int) list \<Rightarrow> 'w cmd \<Rightarrow> 'w cmd" where
  "wrap rs c = foldl (\<lambda>c (w, mode, fd). Redir c w mode fd) c rs"

lemma wrap_Nil [simp]: "wrap [] c = c"
  by (simp add: wrap_def)

lemma wrap_Cons: "wrap ((w, mode, fd) # rs) c = wrap rs (Redir c w mode fd)"
  by (simp add: wrap_def)

lemma wrap_snoc: "wrap (rs @ [(w, mode, fd)]) c = Redir (wrap rs c) w mode fd"
  by (simp add: wrap_def)

lemma wrap_fill [simp]: "fill args (wrap rs (Exec as)) = wrap rs (Exec args)"
  by (induction rs rule: rev_induct) (auto simp: wrap_snoc)

lemma wrap_map [simp]: "map_cmd f (wrap rs c) = wrap (map (\<lambda>(w, x). (f w, x)) rs) (map_cmd f c)"
  by (induction rs rule: rev_induct) (auto simp: wrap_snoc)

lemma wrap_set [simp]: "set_cmd (wrap rs c) = set_cmd c \<union> fst ` set rs"
proof (induction rs rule: rev_induct)
  case (snoc r rs)
  then show ?case by (cases r) (simp add: wrap_snoc insert_commute)
qed simp

definition pr_redir :: "string \<times> int \<times> int \<Rightarrow> string" where
  "pr_redir = (\<lambda>(w, mode, fd). rsym mode @ w @ '' '')"

lemma pr_wrap: "pr (wrap rs c) l = (if rs = [] then pr c l else pr c 3 @ concat (map pr_redir rs))"
  by (induction rs arbitrary: l rule: rev_induct) (auto simp: wrap_snoc pr_redir_def)

definition redirs_ok :: "(string \<times> int \<times> int) list \<Rightarrow> bool" where
  "redirs_ok rs \<longleftrightarrow> (\<forall>(w, mode, fd)\<in>set rs. word w \<and> redir_ok mode fd)"

lemma cmd_ok_wrap: "cmd_ok (wrap rs c) \<longleftrightarrow> cmd_ok c \<and> redirs_ok rs"
  by (induction rs rule: rev_induct) (auto simp: wrap_snoc redirs_ok_def)

text \<open>Every command is a chain of redirections around a command that is none.\<close>

lemma unwrap_id: "(\<forall>d w m f. c \<noteq> Redir d w m f) \<Longrightarrow>
    \<exists>rs b. c = wrap rs b \<and> (\<forall>d w m f. b \<noteq> Redir d w m f) \<and> size b \<le> size c \<and> (rs \<noteq> [] \<longrightarrow> size b < size c)"
  by (intro exI [of _ "[]"] exI [of _ c]) simp

lemma unwrap: "\<exists>rs b. c = wrap rs b \<and> (\<forall>d w m f. b \<noteq> Redir d w m f) \<and> size b \<le> size c \<and> (rs \<noteq> [] \<longrightarrow> size b < size c)"
proof (induction c)
  case (Redir d w m f)
  then obtain rs b where "d = wrap rs b" "\<forall>d w m f. b \<noteq> Redir d w m f" "size b \<le> size d" by blast
  then show ?case by (intro exI [of _ "rs @ [(w, m, f)]"] exI [of _ b]) (simp add: wrap_snoc)
qed (rule unwrap_id, simp)+

text \<open>The text that follows starts with none of the characters \<open>cs\<close>.\<close>

definition off :: "string \<Rightarrow> string \<Rightarrow> bool" where
  "off cs x \<longleftrightarrow> (case nows x of [] \<Rightarrow> True | c # r \<Rightarrow> c \<notin> set cs)"

lemma peek_off: "at s p x \<Longrightarrow> off cs x \<Longrightarrow> peek s p cs = (skipws s p, False)"
  by (simp only: peek_at off_def split: list.splits) auto

lemma peek_on: "at s p x \<Longrightarrow> nows x = c # r \<Longrightarrow> c \<in> set cs \<Longrightarrow> peek s p cs = (skipws s p, True)"
  by (simp only: peek_at) simp

lemma rsym_Cons: "\<exists>c r. rsym mode = c # r \<and> c \<in> set ''<>''"
  by (simp add: rsym_def)

lemma nows_pr_redir:
  assumes "word w"
  obtains c r where "nows (pr_redir (w, mode, fd) @ x) = c # r" "c \<in> set ''<>''" "nows (pr_redir (w, mode, fd) @ x) = rsym mode @ w @ '' '' @ x"
proof -
  obtain c r where c: "rsym mode = c # r" "c \<in> set ''<>''" using rsym_Cons by blast
  then have "nows (pr_redir (w, mode, fd) @ x) = c # r @ w @ '' '' @ x" by (auto simp: pr_redir_def whitespace_def)
  then show thesis using that c by simp
qed

definition redirs_read :: "string \<Rightarrow> (span \<times> int \<times> int) list \<Rightarrow> (string \<times> int \<times> int) list \<Rightarrow> bool" where
  "redirs_read s rs' rs \<longleftrightarrow> map (\<lambda>(w, x). (sub s w, x)) rs' = rs \<and> (\<forall>w\<in>fst ` set rs'. wok s w)"

lemma read_redirs:
  "at s p (concat (map pr_redir rs) @ x) \<Longrightarrow> redirs_ok rs \<Longrightarrow> off ''<>'' x \<Longrightarrow>
   \<exists>n rs' p'. parseredirs n s c p = Inr (wrap rs' c, p') \<and> at s p' x \<and> redirs_read s rs' rs"
proof (induction rs arbitrary: c p)
  case Nil
  then have "parseredirs (Suc 0) s c p = Inr (wrap [] c, skipws s p)" using peek_off [of s p x "''<>''"] by simp
  moreover have "at s (skipws s p) x" "redirs_read s [] []" using at_skipws [of s p x] Nil by (simp_all add: redirs_read_def)
  ultimately show ?case by blast
next
  case (Cons r rs)
  obtain w mode fd where r: "r = (w, mode, fd)" by (cases r)
  let ?y = "concat (map pr_redir rs) @ x"
  have ok: "word w" "redir_ok mode fd" "redirs_ok rs" using Cons.prems(2) by (auto simp: r redirs_ok_def)
  have a: "at s p (pr_redir (w, mode, fd) @ ?y)" using Cons.prems(1) by (simp add: r)
  obtain k u where k: "nows (pr_redir (w, mode, fd) @ ?y) = k # u" "k \<in> set ''<>''"
    and t: "nows (pr_redir (w, mode, fd) @ ?y) = rsym mode @ w @ '' '' @ ?y" by (rule nows_pr_redir [OF ok(1)])
  obtain t1 q1 e1 p2 where g1: "gettoken s (skipws s p) = (t1, q1, e1, p2)" and a2: "at s p2 (w @ '' '' @ ?y)"
    and rc: "\<And>c q e. redir_tok t1 c q e = Redir c (q, e) mode fd"
    by (rule token_redir [OF at_skipws [OF a] t ok(1,2)]) (rule that; blast)
  obtain q e p3 where g2: "gettoken s p2 = (CHR ''a'', q, e, p3)" and a3: "at s p3 ('' '' @ ?y)"
    and w: "sub s (q, e) = w" "wok s (q, e)"
    by (rule token_word [OF a2 nows_word [OF ok(1)] ok(1)]) (auto simp: whitespace_def intro: that)
  have "at s p3 ?y" using a3 by (simp add: at_def whitespace_def)
  then obtain n rs' p' where ih: "parseredirs n s (Redir c (q, e) mode fd) p3 = Inr (wrap rs' (Redir c (q, e) mode fd), p')"
    "at s p' x" "redirs_read s rs' rs" using Cons.IH ok(3) Cons.prems(3) by blast
  have "parseredirs (Suc n) s c p = Inr (wrap (((q, e), mode, fd) # rs') c, p')"
    using peek_on [OF a k] g1 g2 rc ih(1) by (simp add: wrap_Cons)
  moreover have "redirs_read s (((q, e), mode, fd) # rs') (r # rs)" using ih(3) w r by (simp add: redirs_read_def)
  ultimately show ?case using ih(2) by blast
qed

definition stops :: "string \<Rightarrow> string \<Rightarrow> bool" where
  "stops cs x \<longleftrightarrow> (case nows x of [] \<Rightarrow> True | c # r \<Rightarrow> c \<in> set cs)"

lemma stops_off: "stops cs x \<Longrightarrow> list_all (\<lambda>c. c \<notin> set ds) cs \<Longrightarrow> off ds x"
  unfolding stops_def off_def list_all_iff by (cases "nows x") (auto simp only: list.case)

lemma stops_mono: "stops cs x \<Longrightarrow> list_all (\<lambda>c. c \<in> set ds) cs \<Longrightarrow> stops ds x"
  unfolding stops_def list_all_iff by (cases "nows x") (auto simp only: list.case)

lemma stops_Cons: "c \<in> set cs \<Longrightarrow> \<not> is_ws c \<Longrightarrow> stops cs (c # x)"
  by (simp add: stops_def)

definition words_read :: "string \<Rightarrow> span list \<Rightarrow> string list \<Rightarrow> bool" where
  "words_read s as' as \<longleftrightarrow> map (sub s) as' = as \<and> (\<forall>w\<in>set as'. wok s w)"

lemma args_end:
  assumes "at s p x" and "stops ''|)&;'' x"
  shows "\<exists>n p'. parseargs n s c as p = Inr (fill as c, p') \<and> at s p' x"
proof (cases "nows x")
  case Nil
  have g: "gettoken s (skipws s p) = (CHR 0x00, skipws s (skipws s p), skipws s (skipws s p), skipws s (skipws s (skipws s p)))"
    unfolding gettoken_def Let_def at_drop [OF at_skipws [OF assms(1)]] Nil by simp
  have "peek s p ''|)&;'' = (skipws s p, False)" unfolding peek_at [OF assms(1)] Nil by simp
  then have "parseargs (Suc 0) s c as p = Inr (fill as c, skipws s (skipws s (skipws s p)))" using g by simp
  then show ?thesis using at_skipws assms(1) by blast
next
  case (Cons k r)
  then have "k \<in> set ''|)&;''" using assms(2) unfolding stops_def Cons by simp
  then have "peek s p ''|)&;'' = (skipws s p, True)" by (rule peek_on [OF assms(1) Cons])
  then have "parseargs (Suc 0) s c as p = Inr (fill as c, skipws s p)" by simp
  then show ?thesis using at_skipws assms(1) by blast
qed

lemma word_hd:
  assumes "word w"
  obtains v u where "w = v # u" "\<not> is_ws v" "\<not> is_sym v"
  using assms by (cases w) (auto simp: word_def)

lemma off_word: "word w \<Longrightarrow> list_all is_sym cs \<Longrightarrow> off cs (w @ x)"
  by (erule word_hd) (auto simp: off_def list_all_iff)

lemma off_redirs: "redirs_ok rs \<Longrightarrow> rs \<noteq> [] \<Longrightarrow> list_all (\<lambda>c. c \<notin> set ''<>'') cs \<Longrightarrow> off cs (concat (map pr_redir rs) @ x)"
proof (cases rs)
  case (Cons r rs')
  obtain w mode fd where r: "r = (w, mode, fd)" by (cases r)
  assume rs: "redirs_ok rs" "list_all (\<lambda>c. c \<notin> set ''<>'') cs"
  then have "word w" by (simp add: redirs_ok_def Cons r)
  then obtain k u where k: "nows (pr_redir (w, mode, fd) @ concat (map pr_redir rs') @ x) = k # u" "k \<in> set ''<>''"
    by (rule nows_pr_redir) (rule that; blast)
  have "k \<notin> set cs" using k(2) rs(2) by (auto simp: list_all_iff)
  then show ?thesis unfolding off_def Cons r list.map concat.simps append_assoc k(1) by simp
qed simp

lemma read_args:
  "at s p (concat (map (\<lambda>w. w @ '' '') as) @ concat (map pr_redir rs) @ x) \<Longrightarrow> as \<noteq> [] \<Longrightarrow> \<forall>w\<in>set as. word w \<Longrightarrow>
   length ds + length as < 10 \<Longrightarrow> redirs_ok rs \<Longrightarrow> stops ''|)&;'' x \<Longrightarrow>
   \<exists>n as' rs' p'. parseargs n s (Exec []) ds p = Inr (wrap rs' (Exec (ds @ as')), p') \<and> at s p' x \<and>
     redirs_read s rs' rs \<and> words_read s as' as"
proof (induction "as" arbitrary: ds p)
  case (Cons w as)
  let ?y = "concat (map (\<lambda>w. w @ '' '') as) @ concat (map pr_redir rs) @ x"
  have w: "word w" using Cons.prems(3) by simp
  have a: "at s p (w @ '' '' @ ?y)" using Cons.prems(1) by simp
  have pk: "peek s p ''|)&;'' = (skipws s p, False)" by (rule peek_off [OF a off_word [OF w]]) (simp add: symbols_def)
  obtain q e p2 where g: "gettoken s (skipws s p) = (CHR ''a'', q, e, p2)" and a2: "at s p2 ('' '' @ ?y)"
    and qe: "sub s (q, e) = w" "wok s (q, e)"
    by (rule token_word [OF at_skipws [OF a] nows_word [OF w] w]) (auto simp: whitespace_def intro: that)
  have a2: "at s p2 ?y" using a2 by (simp add: at_def whitespace_def)
  note step = parseargs.simps(2) [unfolded Let_def]
  show ?case
  proof (cases "as = []")
    case True
    obtain n rs' p3 where r: "parseredirs n s (Exec []) p2 = Inr (wrap rs' (Exec []), p3)" "at s p3 x" "redirs_read s rs' rs"
      using read_redirs [of s p2 rs x "Exec []"] a2 True Cons.prems(5) stops_off [OF Cons.prems(6), of "''<>''"] by auto
    obtain m p' where e: "parseargs m s (wrap rs' (Exec [])) (ds @ [(q, e)]) p3 = Inr (wrap rs' (Exec (ds @ [(q, e)])), p')" "at s p' x"
      using args_end [OF r(2) Cons.prems(6), of "wrap rs' (Exec [])" "ds @ [(q, e)]"] by auto
    have "parseargs (Suc (max n m)) s (Exec []) ds p = Inr (wrap rs' (Exec (ds @ [(q, e)])), p')"
      using pk g Cons.prems(4) redirs_up [OF r(1), of "max n m"] args_up [OF e(1), of "max n m"] by simp
    moreover have "words_read s [(q, e)] (w # as)" using qe True by (simp add: words_read_def)
    ultimately show ?thesis using e(2) r(3) by blast
  next
    case False
    then obtain v vs where vs: "as = v # vs" "word v" using Cons.prems(3) by (cases "as") auto
    have "off ''<>'' ?y" using off_word [OF vs(2), of "''<>''"] by (simp add: vs(1) symbols_def)
    then have r: "parseredirs (Suc 0) s (Exec []) p2 = Inr (Exec [], skipws s p2)" using peek_off [OF a2] by simp
    obtain n as' rs' p' where ih: "parseargs n s (Exec []) (ds @ [(q, e)]) (skipws s p2) = Inr (wrap rs' (Exec ((ds @ [(q, e)]) @ as')), p')"
      "at s p' x" "redirs_read s rs' rs" "words_read s as' as"
      using Cons.IH [OF at_skipws [OF a2] False, of "ds @ [(q, e)]"] Cons.prems(3-6) by auto
    have "parseargs (Suc (Suc n)) s (Exec []) ds p = Inr (wrap rs' (Exec (ds @ (q, e) # as')), p')"
      using pk g Cons.prems(4) redirs_up [OF r, of "Suc n"] args_up [OF ih(1), of "Suc n"] by (simp del: parseredirs.simps parseargs.simps add: step)
    moreover have "words_read s ((q, e) # as') (w # as)" using qe ih(4) by (simp add: words_read_def)
    ultimately show ?thesis using ih(2,3) by blast
  qed
qed simp

section \<open>The levels of the grammar\<close>

definition good :: "string \<Rightarrow> span cmd \<Rightarrow> string cmd \<Rightarrow> bool" where
  "good s c' c \<longleftrightarrow> map_cmd (sub s) c' = c \<and> (\<forall>w\<in>set_cmd c'. wok s w)"

text \<open>What each function of the parser makes of the text that is printed for its level.\<close>

definition reads3 :: "string \<Rightarrow> string cmd \<Rightarrow> bool" where
  "reads3 s c \<longleftrightarrow> (\<forall>p x. at s p (pr c 3 @ x) \<longrightarrow> stops ''|)&;'' x \<longrightarrow>
     (\<exists>n c' p'. parseexec n s p = Inr (c', p') \<and> at s p' x \<and> good s c' c))"

definition reads2 :: "string \<Rightarrow> string cmd \<Rightarrow> bool" where
  "reads2 s c \<longleftrightarrow> (\<forall>p x. at s p (pr c 2 @ x) \<longrightarrow> stops '')&;'' x \<longrightarrow>
     (\<exists>n c' p'. parsepipe n s p = Inr (c', p') \<and> at s p' x \<and> good s c' c))"

definition reads1 :: "string \<Rightarrow> string cmd \<Rightarrow> bool" where
  "reads1 s c \<longleftrightarrow> (\<forall>p x. at s p (pr c 1 @ x) \<longrightarrow> stops '')&;'' x \<longrightarrow>
     (\<exists>n k c0 p0 c' p'. parsepipe n s p = Inr (c0, p0) \<and>
       (\<forall>m. parseback (k + m) s c0 p0 = parseback m s c' p') \<and> at s p' x \<and> good s c' c))"

definition reads0 :: "string \<Rightarrow> string cmd \<Rightarrow> bool" where
  "reads0 s c \<longleftrightarrow> (\<forall>p x. at s p (pr c 0 @ x) \<longrightarrow> stops '')'' x \<longrightarrow>
     (\<exists>n c' p'. parseline n s p = Inr (c', p') \<and> at s p' x \<and> good s c' c))"

lemma reads3D: "reads3 s c \<Longrightarrow> at s p (pr c 3 @ x) \<Longrightarrow> stops ''|)&;'' x \<Longrightarrow>
    \<exists>n c' p'. parseexec n s p = Inr (c', p') \<and> at s p' x \<and> good s c' c"
  by (simp add: reads3_def)

lemma reads2D: "reads2 s c \<Longrightarrow> at s p (pr c 2 @ x) \<Longrightarrow> stops '')&;'' x \<Longrightarrow>
    \<exists>n c' p'. parsepipe n s p = Inr (c', p') \<and> at s p' x \<and> good s c' c"
  by (simp add: reads2_def)

lemma reads1D: "reads1 s c \<Longrightarrow> at s p (pr c 1 @ x) \<Longrightarrow> stops '')&;'' x \<Longrightarrow>
    \<exists>n k c0 p0 c' p'. parsepipe n s p = Inr (c0, p0) \<and>
      (\<forall>m. parseback (k + m) s c0 p0 = parseback m s c' p') \<and> at s p' x \<and> good s c' c"
  unfolding reads1_def by blast

lemma good_exec: "redirs_read s rs' rs \<Longrightarrow> words_read s as' as \<Longrightarrow> good s (wrap rs' (Exec as')) (wrap rs (Exec as))"
  by (auto simp: good_def redirs_read_def words_read_def)

lemma good_wrap: "redirs_read s rs' rs \<Longrightarrow> good s b' b \<Longrightarrow> good s (wrap rs' b') (wrap rs b)"
  by (auto simp: good_def redirs_read_def)

lemma read_simple:
  assumes "cmd_ok (wrap rs (Exec as))"
  shows "reads3 s (wrap rs (Exec as))"
  unfolding reads3_def
proof (intro allI impI)
  fix p x
  assume "at s p (pr (wrap rs (Exec as)) 3 @ x)" and x: "stops ''|)&;'' x"
  then have a: "at s p (concat (map (\<lambda>w. w @ '' '') as) @ concat (map pr_redir rs) @ x)" by (simp add: pr_wrap split: if_splits)
  have ok: "\<forall>w\<in>set as. word w" "length as < 10" "redirs_ok rs" using assms by (auto simp: cmd_ok_wrap)
  note a1 = at_skipws [OF a]
  show "\<exists>n c' p'. parseexec n s p = Inr (c', p') \<and> at s p' x \<and> good s c' (wrap rs (Exec as))"
  proof (cases "as = []")
    case True
    have "off ''('' (concat (map pr_redir rs) @ x)"
      using off_redirs [OF ok(3), of "''(''"] stops_off [OF x, of "''(''"] by (cases "rs = []") auto
    then have pk: "peek s p ''('' = (skipws s p, False)" using peek_off [OF a] True by simp
    obtain n rs' p2 where r: "parseredirs n s (Exec []) (skipws s p) = Inr (wrap rs' (Exec []), p2)" "at s p2 x" "redirs_read s rs' rs"
      using read_redirs [of s "skipws s p" rs x "Exec []"] a1 ok(3) stops_off [OF x, of "''<>''"] True by auto
    obtain m p' where e: "parseargs m s (wrap rs' (Exec [])) [] p2 = Inr (wrap rs' (Exec []), p')" "at s p' x"
      using args_end [OF r(2) x, of "wrap rs' (Exec [])" "[]"] by auto
    have "parseexec (Suc (max n m)) s p = Inr (wrap rs' (Exec []), p')"
      using pk redirs_up [OF r(1), of "max n m"] args_up [OF e(1), of "max n m"] by simp
    moreover have "good s (wrap rs' (Exec [])) (wrap rs (Exec as))" using good_exec [OF r(3), of "[]" "[]"] True by (simp add: words_read_def)
    ultimately show ?thesis using e(2) by blast
  next
    case False
    then obtain w u where w: "as = w # u" "word w" using ok(1) by (cases "as") auto
    have off: "off cs (concat (map (\<lambda>w. w @ '' '') as) @ concat (map pr_redir rs) @ x)" if "list_all is_sym cs" for cs
      using off_word [OF w(2) that] by (simp add: w(1))
    have pk: "peek s p ''('' = (skipws s p, False)" by (rule peek_off [OF a off]) (simp add: symbols_def)
    have r: "parseredirs (Suc 0) s (Exec []) (skipws s p) = Inr (Exec [], skipws s (skipws s p))"
      using peek_off [OF a1 off, of "''<>''"] by (simp add: symbols_def)
    obtain n as' rs' p' where e: "parseargs n s (Exec []) [] (skipws s (skipws s p)) = Inr (wrap rs' (Exec as'), p')"
      "at s p' x" "redirs_read s rs' rs" "words_read s as' as"
      using read_args [OF at_skipws [OF a1] False ok(1) _ ok(3) x, of "[]"] ok(2) by auto
    have "parseexec (Suc (Suc n)) s p = Inr (wrap rs' (Exec as'), p')"
      unfolding parseexec.simps(2) pk Let_def using redirs_up [OF r, of "Suc n"] args_up [OF e(1), of "Suc n"]
      by (simp del: parseredirs.simps parseargs.simps)
    then show ?thesis using e(2) good_exec [OF e(3,4)] by blast
  qed
qed

lemma read_block:
  assumes "reads0 s b" and "pr b 3 = ''('' @ pr b 0 @ '')''" and "redirs_ok rs"
  shows "reads3 s (wrap rs b)"
  unfolding reads3_def
proof (intro allI impI)
  fix p x
  assume "at s p (pr (wrap rs b) 3 @ x)" and x: "stops ''|)&;'' x"
  then have a: "at s p (CHR ''('' # pr b 0 @ '')'' @ concat (map pr_redir rs) @ x)"
    using assms(2) by (simp add: pr_wrap split: if_splits)
  have ws: "\<not> is_ws (CHR ''('')" "\<not> is_ws (CHR '')'')" by (simp_all add: whitespace_def)
  note n = nows_Cons [OF ws(1)]
  have pk: "peek s p ''('' = (skipws s p, True)" "peek s (skipws s p) ''('' = (skipws s (skipws s p), True)"
    by (rule peek_on [OF a n], simp) (rule peek_on [OF at_skipws [OF a] n], simp)
  obtain q e p2 where g: "gettoken s (skipws s (skipws s p)) = (CHR ''('', q, e, p2)"
    and a2: "at s p2 (pr b 0 @ '')'' @ concat (map pr_redir rs) @ x)"
    using token_sym [OF at_skipws [OF at_skipws [OF a]] n] by fastforce
  have "stops '')'' ('')'' @ concat (map pr_redir rs) @ x)" using stops_Cons [OF _ ws(2)] by simp
  then obtain k b' p3 where l: "parseline k s p2 = Inr (b', p3)" "at s p3 ('')'' @ concat (map pr_redir rs) @ x)" "good s b' b"
    using assms(1) a2 unfolding reads0_def by blast
  then have a3: "at s p3 (CHR '')'' # concat (map pr_redir rs) @ x)" by simp
  have pk3: "peek s p3 '')'' = (skipws s p3, True)" by (rule peek_on [OF a3 nows_Cons [OF ws(2)]]) simp
  obtain q2 e2 p5 where g3: "gettoken s (skipws s p3) = (CHR '')'', q2, e2, p5)" and a5: "at s p5 (concat (map pr_redir rs) @ x)"
    using token_sym [OF at_skipws [OF a3] nows_Cons [OF ws(2)]] by fastforce
  obtain m rs' p' where r: "parseredirs m s b' p5 = Inr (wrap rs' b', p')" "at s p' x" "redirs_read s rs' rs"
    using read_redirs [OF a5 assms(3) stops_off [OF x], of b'] by auto
  have "parseexec (Suc (Suc (max k m))) s p = Inr (wrap rs' b', p')"
    using pk g pk3 g3 line_up [OF l(1), of "max k m"] redirs_up [OF r(1), of "max k m"] by simp
  then show "\<exists>n c' p'. parseexec n s p = Inr (c', p') \<and> at s p' x \<and> good s c' (wrap rs b)"
    using r(2) good_wrap [OF r(3) l(3)] by blast
qed

lemma read_3_2:
  assumes "reads3 s c" and "pr c 2 = pr c 3"
  shows "reads2 s c"
  unfolding reads2_def
proof (intro allI impI)
  fix p x
  assume a: "at s p (pr c 2 @ x)" and x: "stops '')&;'' x"
  obtain n c' p1 where e: "parseexec n s p = Inr (c', p1)" "at s p1 x" "good s c' c"
    using reads3D [OF assms(1) a [unfolded assms(2)] stops_mono [OF x]] by auto
  have "peek s p1 ''|'' = (skipws s p1, False)" by (rule peek_off [OF e(2) stops_off [OF x]]) simp
  then have "parsepipe (Suc n) s p = Inr (c', skipws s p1)" using e(1) by simp
  then show "\<exists>n c' p'. parsepipe n s p = Inr (c', p') \<and> at s p' x \<and> good s c' c" using at_skipws [OF e(2)] e(3) by blast
qed

lemma read_2_1:
  assumes "reads2 s c" and "pr c 1 = pr c 2"
  shows "reads1 s c"
  unfolding reads1_def
proof (intro allI impI)
  fix p x
  assume "at s p (pr c 1 @ x)" and "stops '')&;'' x"
  then obtain n c' p' where "parsepipe n s p = Inr (c', p')" "at s p' x" "good s c' c"
    using reads2D [OF assms(1), of p x] unfolding assms(2) by blast
  moreover have "\<forall>m. parseback (0 + m) s c' p' = parseback m s c' p'" by simp
  ultimately show "\<exists>n k c0 p0 c' p'. parsepipe n s p = Inr (c0, p0) \<and>
       (\<forall>m. parseback (k + m) s c0 p0 = parseback m s c' p') \<and> at s p' x \<and> good s c' c" by blast
qed

text \<open>A line starts with a command of level 1, up to the \<open>;\<close>.\<close>

lemma read_first:
  assumes "reads1 s c" and "at s p (pr c 1 @ x)" and "stops '');'' x"
  obtains n c0 p0 c' p' where "parsepipe n s p = Inr (c0, p0)" "parseback n s c0 p0 = Inr (c', p')" "at s p' x" "good s c' c"
proof -
  obtain n k c0 p0 c' p1 where e: "parsepipe n s p = Inr (c0, p0)" "\<forall>m. parseback (k + m) s c0 p0 = parseback m s c' p1"
    "at s p1 x" "good s c' c" using reads1D [OF assms(1,2) stops_mono [OF assms(3)]] by (simp; blast)
  have "peek s p1 ''&'' = (skipws s p1, False)" by (rule peek_off [OF e(3) stops_off [OF assms(3)]]) simp
  then have "parseback (k + Suc 0) s c0 p0 = Inr (c', skipws s p1)" using spec [OF e(2), of "Suc 0"] by simp
  then show thesis
    using that [of "max n (k + Suc 0)"] pipe_up [OF e(1)] back_up at_skipws [OF e(3)] e(4) by (metis max.cobounded1 max.cobounded2)
qed

lemma read_1_0:
  assumes "reads1 s c" and "pr c 0 = pr c 1"
  shows "reads0 s c"
  unfolding reads0_def
proof (intro allI impI)
  fix p x
  assume a: "at s p (pr c 0 @ x)" and x: "stops '')'' x"
  have "at s p (pr c 1 @ x)" "stops '');'' x" using a assms(2) stops_mono [OF x] by simp_all
  then obtain n c0 p0 c' p1 where e: "parsepipe n s p = Inr (c0, p0)" "parseback n s c0 p0 = Inr (c', p1)" "at s p1 x" "good s c' c"
    by (rule read_first [OF assms(1)])
  have "peek s p1 '';'' = (skipws s p1, False)" by (rule peek_off [OF e(3) stops_off [OF x]]) simp
  then have "parseline (Suc n) s p = Inr (c', skipws s p1)" using e(1,2) by simp
  then show "\<exists>n c' p'. parseline n s p = Inr (c', p') \<and> at s p' x \<and> good s c' c" using at_skipws [OF e(3)] e(4) by blast
qed

lemma read_lst:
  assumes "reads1 s a" and "reads0 s b"
  shows "reads0 s (Lst a b)"
  unfolding reads0_def
proof (intro allI impI)
  fix p x
  assume "at s p (pr (Lst a b) 0 @ x)" and x: "stops '')'' x"
  then have a: "at s p (pr a 1 @ CHR '';'' # pr b 0 @ x)" by (simp add: paren_def)
  have ws: "\<not> is_ws (CHR '';'')" by (simp add: whitespace_def)
  have "stops '');'' (CHR '';'' # pr b 0 @ x)" by (rule stops_Cons [OF _ ws]) simp
  then obtain n c0 p0 a' p1 where e: "parsepipe n s p = Inr (c0, p0)" "parseback n s c0 p0 = Inr (a', p1)"
    "at s p1 (CHR '';'' # pr b 0 @ x)" "good s a' a" by (rule read_first [OF assms(1) a])
  have pk: "peek s p1 '';'' = (skipws s p1, True)" by (rule peek_on [OF e(3) nows_Cons [OF ws]]) simp
  obtain q1 e1 p2 where g: "gettoken s (skipws s p1) = (CHR '';'', q1, e1, p2)" "at s p2 (pr b 0 @ x)"
    using token_sym [OF at_skipws [OF e(3)] nows_Cons [OF ws]] by fastforce
  obtain m b' p' where f: "parseline m s p2 = Inr (b', p')" "at s p' x" "good s b' b" using assms(2) g(2) x unfolding reads0_def by blast
  have "parseline (Suc (max n m)) s p = Inr (Lst a' b', p')"
    using pk g(1) pipe_up [OF e(1), of "max n m"] back_up [OF e(2), of "max n m"] line_up [OF f(1), of "max n m"] by simp
  moreover have "good s (Lst a' b') (Lst a b)" using e(4) f(3) by (auto simp: good_def)
  ultimately show "\<exists>n c' p'. parseline n s p = Inr (c', p') \<and> at s p' x \<and> good s c' (Lst a b)" using f(2) by blast
qed

lemma read_pipe:
  assumes "reads3 s a" and "reads2 s b"
  shows "reads2 s (Pipe a b)"
  unfolding reads2_def
proof (intro allI impI)
  fix p x
  assume "at s p (pr (Pipe a b) 2 @ x)" and x: "stops '')&;'' x"
  then have a: "at s p (pr a 3 @ CHR ''|'' # pr b 2 @ x)" by (simp add: paren_def)
  have ws: "\<not> is_ws (CHR ''|'')" by (simp add: whitespace_def)
  have "stops ''|)&;'' (CHR ''|'' # pr b 2 @ x)" by (rule stops_Cons [OF _ ws]) simp
  then obtain n a' p1 where e: "parseexec n s p = Inr (a', p1)" "at s p1 (CHR ''|'' # pr b 2 @ x)" "good s a' a"
    using assms(1) a unfolding reads3_def by blast
  have pk: "peek s p1 ''|'' = (skipws s p1, True)" by (rule peek_on [OF e(2) nows_Cons [OF ws]]) simp
  obtain q1 e1 p2 where g: "gettoken s (skipws s p1) = (CHR ''|'', q1, e1, p2)" "at s p2 (pr b 2 @ x)"
    using token_sym [OF at_skipws [OF e(2)] nows_Cons [OF ws]] by fastforce
  obtain m b' p' where f: "parsepipe m s p2 = Inr (b', p')" "at s p' x" "good s b' b" using assms(2) g(2) x unfolding reads2_def by blast
  have "parsepipe (Suc (max n m)) s p = Inr (Pipe a' b', p')"
    using pk g(1) exec_up [OF e(1), of "max n m"] pipe_up [OF f(1), of "max n m"] by simp
  moreover have "good s (Pipe a' b') (Pipe a b)" using e(3) f(3) by (auto simp: good_def)
  ultimately show "\<exists>n c' p'. parsepipe n s p = Inr (c', p') \<and> at s p' x \<and> good s c' (Pipe a b)" using f(2) by blast
qed

lemma read_back:
  assumes "reads1 s a"
  shows "reads1 s (Back a)"
  unfolding reads1_def
proof (intro allI impI)
  fix p x
  assume "at s p (pr (Back a) 1 @ x)" and x: "stops '')&;'' x"
  then have a: "at s p (pr a 1 @ CHR ''&'' # x)" by (simp add: paren_def)
  have ws: "\<not> is_ws (CHR ''&'')" by (simp add: whitespace_def)
  have "stops '')&;'' (CHR ''&'' # x)" by (rule stops_Cons [OF _ ws]) simp
  then obtain n k c0 p0 a' p1 where e: "parsepipe n s p = Inr (c0, p0)" "\<forall>m. parseback (k + m) s c0 p0 = parseback m s a' p1"
    "at s p1 (CHR ''&'' # x)" "good s a' a" using assms a unfolding reads1_def by blast
  have pk: "peek s p1 ''&'' = (skipws s p1, True)" by (rule peek_on [OF e(3) nows_Cons [OF ws]]) simp
  obtain q1 e1 p2 where g: "gettoken s (skipws s p1) = (CHR ''&'', q1, e1, p2)" "at s p2 x"
    using token_sym [OF at_skipws [OF e(3)] nows_Cons [OF ws]] by fastforce
  have "\<forall>m. parseback (Suc k + m) s c0 p0 = parseback m s (Back a') p2"
    using spec [OF e(2), of "Suc _"] pk g(1) by simp
  moreover have "good s (Back a') (Back a)" using e(4) by (auto simp: good_def)
  ultimately show "\<exists>n k c0 p0 c' p'. parsepipe n s p = Inr (c0, p0) \<and>
       (\<forall>m. parseback (k + m) s c0 p0 = parseback m s c' p') \<and> at s p' x \<and> good s c' (Back a)" using e(1) g(2) by blast
qed

lemma read_all: "cmd_ok c \<Longrightarrow> reads3 s c \<and> reads2 s c \<and> reads1 s c \<and> reads0 s c"
proof (induction c rule: measure_induct_rule [where f = size])
  case (less c)
  obtain rs b where b: "c = wrap rs b" "\<forall>d w m f. b \<noteq> Redir d w m f" "size b \<le> size c" "rs \<noteq> [] \<longrightarrow> size b < size c"
    using unwrap by blast
  have ok: "cmd_ok b" "redirs_ok rs" using less.prems by (simp_all add: b(1) cmd_ok_wrap)
  have base: "reads0 s b" if "\<forall>as. b \<noteq> Exec as"
  proof (cases b)
    case (Pipe x y)
    then have "reads2 s b" using less.IH [of x] less.IH [of y] b(3) ok(1) by (auto intro!: read_pipe)
    then show ?thesis by (intro read_1_0 read_2_1) (simp_all add: Pipe paren_def)
  next
    case (Back x)
    then have "reads1 s b" using less.IH [of x] b(3) ok(1) by (auto intro!: read_back)
    then show ?thesis by (rule read_1_0) (simp add: Back paren_def)
  next
    case (Lst x y)
    then show ?thesis using less.IH [of x] less.IH [of y] b(3) ok(1) by (auto intro!: read_lst)
  qed (use b(2) that in auto)
  have 3: "reads3 s c"
  proof (cases "\<exists>as. b = Exec as")
    case True
    then show ?thesis using read_simple less.prems b(1) by auto
  next
    case False
    then have "pr b 3 = ''('' @ pr b 0 @ '')''" using b(2) by (cases b) (auto simp: paren_def)
    then show ?thesis using read_block [OF base _ ok(2)] False b(1) by blast
  qed
  show ?case
  proof (cases c)
    case (Pipe x y)
    then have "reads2 s c" using less.IH [of x] less.IH [of y] less.prems by (auto intro!: read_pipe)
    then show ?thesis using 3 read_2_1 [of s c] read_1_0 [of s c] by (simp add: Pipe paren_def)
  next
    case (Back x)
    then have "reads1 s c" using less.IH [of x] less.prems by (auto intro!: read_back)
    then show ?thesis using 3 read_3_2 [of s c] read_1_0 [of s c] by (simp add: Back paren_def)
  next
    case (Lst x y)
    then have "reads0 s c" using less.IH [of x] less.IH [of y] less.prems by (auto intro!: read_lst)
    then show ?thesis using 3 read_3_2 [of s c] read_2_1 [of s c] by (simp add: Lst paren_def)
  qed (use 3 read_3_2 [of s c] read_2_1 [of s c] read_1_0 [of s c] in simp_all)
qed

section \<open>NUL behind the words\<close>

lemma nul_args: "i < length buf \<Longrightarrow>
    fold (\<lambda>(q, eq) buf. buf[eq := CHR 0x00]) as buf ! i = (if i \<in> snd ` set as then CHR 0x00 else buf ! i)"
proof (induction "as" arbitrary: buf)
  case (Cons a as)
  then show ?case by (cases a) (auto simp: nth_list_update)
qed simp

lemma length_nul_args [simp]: "length (fold (\<lambda>(q, eq) buf. buf[eq := CHR 0x00]) as buf) = length buf"
  by (induction "as" arbitrary: buf) auto

lemma length_nulterminate [simp]: "length (nulterminate c buf) = length buf"
  by (induction c arbitrary: buf) simp_all

lemma nulterminate_nth:
  "i < length buf \<Longrightarrow> nulterminate c buf ! i = (if i \<in> snd ` set_cmd c then CHR 0x00 else buf ! i)"
proof (induction c arbitrary: buf)
  case (Redir c w mode fd)
  then show ?case by (cases "i = snd w") (simp_all add: image_Un)
next
  case (Exec as)
  then show ?case by (simp add: nul_args)
qed (auto simp: image_Un)

lemma wok_inside:
  assumes "wok s (q, e)" and "wok s w" and "q \<le> i" and "i < e"
  shows "i \<noteq> snd w" "s ! i \<noteq> CHR 0x00"
proof -
  have i: "i < length s" "e \<le> length s" using assms(1,4) by (simp_all add: wok_def)
  have "sub s (q, e) ! (i - q) = s ! i" "i - q < length (sub s (q, e))" using assms(3,4) i by (simp_all add: sub_def)
  then have "s ! i \<in> set (sub s (q, e))" by (metis nth_mem)
  then have "\<not> is_ws (s ! i)" "\<not> is_sym (s ! i)" "s ! i \<noteq> CHR 0x00" using assms(1) by (auto simp: wok_def word_def)
  then show "i \<noteq> snd w" "s ! i \<noteq> CHR 0x00" using assms(2) i(1) by (auto simp: wok_def)
qed

lemma cstring_nulterminate:
  assumes "\<forall>w\<in>set_cmd c. wok s w" and "w \<in> set_cmd c"
  shows "cstring (nulterminate c s) (fst w) = sub s w"
proof -
  obtain q e where w: "w = (q, e)" by (cases w)
  have qe: "wok s (q, e)" "q < e" "e \<le> length s" using assms by (auto simp: w wok_def)
  have "i \<notin> snd ` set_cmd c" "s ! i \<noteq> CHR 0x00" if "q \<le> i" "i < e" for i
    using wok_inside [OF qe(1) _ that] assms(1) qe(1) by blast+
  then have b: "nulterminate c s ! i = s ! i" "s ! i \<noteq> CHR 0x00" if "q \<le> i" "i < e" for i
    using qe(3) that by (simp_all add: nulterminate_nth)
  have "nulterminate c s ! e = CHR 0x00" if "e < length s"
    using assms(2) that by (force simp: nulterminate_nth w)
  then have "takeWhile (\<lambda>c. c \<noteq> CHR 0x00) (drop q (nulterminate c s)) = take (e - q) (drop q (nulterminate c s))"
    using qe b by (intro takeWhile_eq_take_P_nth) auto
  also have "\<dots> = take (e - q) (drop q s)"
    by (rule nth_equalityI) (use qe b(1) in auto)
  finally show ?thesis by (simp add: cstring_def sub_def w)
qed

section \<open>The parser as a whole\<close>

text \<open>The command a line stands for, with the C strings its words are.\<close>

definition command :: "string \<Rightarrow> string cmd pres" where
  "command s = pbind (parsecmd s) (\<lambda>(c, buf). Inr (map_cmd (\<lambda>w. cstring buf (fst w)) c))"

text \<open>
  C24: the recursive-descent parser of the shell, with its loops over redirections, arguments,
  \<open>&\<close>, \<open>;\<close>, \<open>|\<close> and nested blocks, comes to an end on every line: either with a command
  or with one of its panics.
\<close>

theorem parser_terminates:
  "(\<exists>c buf. parsecmd s = Inr (c, buf)) \<or> (\<exists>msg. parsecmd s = Inl (Panic msg))"
proof (cases "parsecmd s")
  case (Inl e)
  then show ?thesis using parsecmd_fuel [of s] by (cases e) auto
qed auto

text \<open>
  C11: the parser reads back every command: printed with the separators, redirections and
  parentheses the grammar asks for, a command built from pipes, lists, background jobs,
  redirections and at most nine arguments per program comes out of \<open>parsecmd\<close> again, every
  word ended by the NUL that \<open>nulterminate\<close> writes.
\<close>

theorem command_print:
  assumes "cmd_ok c"
  shows "command (print_cmd c) = Inr c"
proof -
  let ?s = "print_cmd c"
  have "at ?s 0 (pr c 0 @ [])" "stops '')'' []" by (simp_all add: at_def print_cmd_def stops_def)
  then obtain n c' p where r: "parseline n ?s 0 = Inr (c', p)" "at ?s p []" "good ?s c' c"
    using read_all [OF assms, of ?s] unfolding reads0_def by blast
  have "parseline (fuel_for ?s) ?s 0 \<noteq> Inl NoFuel" using parse_fuel [of ?s "fuel_for ?s"] by (simp add: fuel_for_def)
  then have l: "parseline (fuel_for ?s) ?s 0 = Inr (c', p)" by (rule parseline_more [OF r(1)])
  have "drop (skipws ?s p) ?s = []" using at_drop [OF r(2)] by simp
  moreover have "skipws ?s p \<le> length ?s" using at_skipws [OF r(2)] by (simp add: at_def)
  ultimately have "parsecmd ?s = Inr (c', nulterminate c' ?s)" by (simp add: parsecmd_def l peek_def)
  moreover have "map_cmd (\<lambda>w. cstring (nulterminate c' ?s) (fst w)) c' = map_cmd (sub ?s) c'"
    by (rule cmd.map_cong0) (use r(3) cstring_nulterminate in \<open>simp add: good_def\<close>)
  ultimately show ?thesis using r(3) by (simp add: command_def good_def)
qed

definition cmd_demo :: "string cmd" where
  "cmd_demo = Lst (Back (Pipe (Redir (Exec [''grep'', ''x'']) ''in'' 0 0) (Redir (Lst (Exec [''a'']) (Exec [''b''])) ''out'' 513 1)))
     (Exec [''wc'', ''-l''])"

theorem command_print_witness:
  "cmd_ok cmd_demo \<and> command ''grep x <in |(a ;b )>>out &;wc -l '' = Inr cmd_demo"
proof -
  have ok: "cmd_ok cmd_demo" by (simp add: cmd_demo_def word_def redir_ok_def whitespace_def symbols_def)
  have "print_cmd cmd_demo = ''grep x <in |(a ;b )>>out &;wc -l ''"
    by (simp add: cmd_demo_def print_cmd_def paren_def rsym_def)
  then show ?thesis using ok command_print [OF ok] by simp
qed

end
