(* ===== verification/Console_Line.thy ===== *)
theory Console_Line
  imports Demo Ring
begin

text \<open>
  The line discipline of the console: what is typed, with erasing and killing, is what a
  reader gets, a line at a time. The circular buffer with its three counters is abstracted
  to the lines that have been ended and the line that is being edited.
\<close>

section \<open>The input buffer\<close>

definition cons_queue :: "'x consstate_scheme \<Rightarrow> byte list" where
  "cons_queue s = ring_contents INPUT_BUF_SIZE (cons_buf s) (cons_r s) (cons_w s)"

definition cons_line :: "'x consstate_scheme \<Rightarrow> byte list" where
  "cons_line s = ring_contents INPUT_BUF_SIZE (cons_buf s) (cons_w s) (cons_e s)"

text \<open>The counters are in order, up to wrap-around, and no more than the buffer apart.\<close>

definition cons_ok :: "'x consstate_scheme \<Rightarrow> bool" where
  "cons_ok s \<longleftrightarrow> unat (cons_w s - cons_r s) \<le> unat (cons_e s - cons_r s) \<and> unat (cons_e s - cons_r s) \<le> INPUT_BUF_SIZE"

definition cons_view :: "'x consstate_scheme \<Rightarrow> byte list \<times> byte list" where
  "cons_view s = (cons_queue s, cons_line s)"

lemma unat_diff_split:
  fixes r w e :: "'w::len word"
  assumes "unat (w - r) \<le> unat (e - r)"
  shows "unat (e - r) = unat (w - r) + unat (e - w)"
proof -
  have "unat ((e - r) - (w - r)) = unat (e - r) - unat (w - r)" using assms by (intro unat_sub) (simp add: word_le_nat_alt)
  then show ?thesis using assms by simp
qed

lemma ring_split:
  fixes r w e :: "'w::len word"
  assumes "unat (w - r) \<le> unat (e - r)"
  shows "ring_contents cap b r e = ring_contents cap b r w @ ring_contents cap b w e"
proof -
  let ?n = "unat (w - r)"
  have "r + of_nat (?n + i) = w + of_nat i" for i by simp
  then have "map (\<lambda>i. b (unat (r + of_nat i) mod cap)) [?n..<?n + unat (e - w)] = ring_contents cap b w e"
    unfolding ring_contents_def by (intro nth_equalityI) simp_all
  then show ?thesis
    unfolding ring_contents_def [of cap b r] unat_diff_split [OF assms] upt_add_eq_append [OF zero_le] map_append by simp
qed

lemma ring_drop_last:
  fixes w e :: "'w::len word"
  assumes "e \<noteq> w"
  shows "ring_contents cap b w e = ring_contents cap b w (e - 1) @ [b (unat (e - 1) mod cap)]"
proof -
  obtain n where n: "unat (e - w) = Suc n" using assms by (cases "unat (e - w)") (auto simp: unat_eq_0)
  have "e - w = of_nat (Suc n)" using n by (metis of_nat_unat ucast_id)
  then have e: "e - 1 = w + of_nat n" by (simp add: algebra_simps)
  have "n < 2 ^ LENGTH('w)" using unat_bound [of "e - w"] n by linarith
  then have "unat (e - 1 - w) = n" unfolding e by (simp add: unat_of_nat)
  then show ?thesis by (simp add: ring_contents_def n e)
qed

lemma cons_lengths:
  assumes "cons_ok s"
  shows "unat (cons_e s - cons_r s) = length (cons_queue s) + length (cons_line s)"
  using unat_diff_split [of "cons_w s" "cons_r s" "cons_e s"] assms by (simp add: cons_ok_def cons_queue_def cons_line_def)

section \<open>Editing\<close>

text \<open>What one typed byte does to the ended lines and to the line under edit.\<close>

definition newline_of :: "byte \<Rightarrow> byte" where
  "newline_of c = (if c = 13 then 10 else c)"

definition edit :: "byte \<Rightarrow> byte list \<times> byte list \<Rightarrow> byte list \<times> byte list" where
  "edit c v = (let (q, l) = v in
     if c = 21 then (q, rev (dropWhile (\<lambda>b. b \<noteq> 10) (rev l)))
     else if c = 8 \<or> c = 127 then (q, butlast l)
     else if c = 0 \<or> length q + length l \<ge> INPUT_BUF_SIZE then (q, l)
     else let l' = l @ [newline_of c] in
       if newline_of c = 10 \<or> c = 4 \<or> length q + length l' = INPUT_BUF_SIZE then (q @ l', []) else (q, l'))"

text \<open>A hart that can take the interrupt: the locks are free and nothing has panicked.\<close>

definition cons_ready :: "'x consstate_scheme \<Rightarrow> bool" where
  "cons_ready s \<longleftrightarrow> \<not> panicked s \<and> avail LkCons (lks s) \<and> avail LkUart (lks s) \<and>
     (\<forall>i\<in>others (cproc (thiscpu (lks s))). avail (LkProc i) (lks s))"

text \<open>What an operation on the console leaves alone.\<close>

definition cons_sys :: "'x consstate_scheme \<Rightarrow> 'x consstate_scheme \<Rightarrow> bool" where
  "cons_sys s t \<longleftrightarrow> mem t = mem s \<and> panicked t = panicked s \<and> uart_in t = uart_in s \<and>
     (\<forall>i. ppagetable (procs t i) = ppagetable (procs s i)) \<and> lks t = settle (lks s)"

lemma cons_ready_acq:
  assumes "cons_ready s" and "lk = LkCons \<or> lk = LkUart"
  shows "cpu_ok (lks s)" "uart_live (s\<lparr>lks := acq lk (lks s)\<rparr>)" "held lk (acq lk (lks s))"
    "\<forall>i\<in>others (cproc (thiscpu (acq lk (lks s)))). avail (LkProc i) (acq lk (lks s))"
  using assms by (auto simp: cons_ready_def uart_live_def lock_simps avail_def [of LkCons])

text \<open>Inside the critical section.\<close>

definition in_cons :: "'x consstate_scheme \<Rightarrow> bool" where
  "in_cons s \<longleftrightarrow> \<not> panicked s \<and> held LkCons (lks s) \<and> (\<forall>i\<in>others (cproc (thiscpu (lks s))). avail (LkProc i) (lks s))"

lemma in_cons_live: "in_cons s \<Longrightarrow> uart_live s \<and> cpu_ok (lks s) \<and> settle (lks s) = lks s"
  unfolding in_cons_def uart_live_def using settle_held [of LkCons "lks s"] by (auto simp: held_def)

lemma emit_in_cons: "in_cons s \<Longrightarrow> emit cs s = s\<lparr>uart_out := uart_out s @ cs\<rparr>"
  using in_cons_live [of s] by (simp add: emit_def)

lemma consputc_back: "uart_live s \<Longrightarrow> consputc BACKSPACE s = Ok () (emit [8, 32, 8] s)"
  by (simp add: consputc_def kop_simps uartputc_sync_ok uart_live_def cpu_ok_settle settle_settle emit_def)

lemma kill_line_ok:
  "in_cons s \<Longrightarrow> unat (cons_e s - cons_w s) \<le> n \<Longrightarrow>
   \<exists>e out. kill_line n s = Ok () (s\<lparr>cons_e := e, uart_out := out\<rparr>) \<and>
     ring_contents INPUT_BUF_SIZE (cons_buf s) (cons_w s) e = rev (dropWhile (\<lambda>b. b \<noteq> 10) (rev (cons_line s))) \<and>
     unat (e - cons_w s) \<le> unat (cons_e s - cons_w s)"
proof (induction n arbitrary: s)
  case 0
  then have "cons_e s = cons_w s" by (simp add: unat_eq_0)
  then have "kill_line 0 s = Ok () (s\<lparr>cons_e := cons_e s, uart_out := uart_out s\<rparr>)" "cons_line s = []"
    by (simp_all add: kop_simps cons_line_def ring_contents_def)
  moreover have "ring_contents INPUT_BUF_SIZE (cons_buf s) (cons_w s) (cons_e s) = []" using \<open>cons_e s = cons_w s\<close> by (simp add: ring_empty)
  ultimately show ?case by (intro exI [of _ "cons_e s"] exI [of _ "uart_out s"]) simp
next
  case (Suc n)
  let ?b = "cons_buf s (unat (cons_e s - 1) mod 128)"
  show ?case
  proof (cases "cons_e s \<noteq> cons_w s \<and> ?b \<noteq> 10")
    case False
    then have "kill_line (Suc n) s = Ok () (s\<lparr>cons_e := cons_e s, uart_out := uart_out s\<rparr>)" by (auto simp: kop_simps)
    moreover have "rev (dropWhile (\<lambda>b. b \<noteq> 10) (rev (cons_line s))) = cons_line s"
      using False ring_drop_last [of "cons_e s" "cons_w s" 128 "cons_buf s"]
      by (cases "cons_e s = cons_w s") (simp_all add: cons_line_def ring_empty [THEN iffD2])
    ultimately show ?thesis by (intro exI [of _ "cons_e s"] exI [of _ "uart_out s"]) (simp add: cons_line_def)
  next
    case True
    let ?u = "s\<lparr>cons_e := cons_e s - 1, uart_out := uart_out s @ [8, 32, 8]\<rparr>"
    have u: "in_cons (s\<lparr>cons_e := cons_e s - 1\<rparr>)" "in_cons ?u" using Suc.prems(1) by (simp_all add: in_cons_def)
    have l: "cons_line s = cons_line ?u @ [?b]" using ring_drop_last [of "cons_e s" "cons_w s" 128 "cons_buf s"] True by (simp add: cons_line_def)
    have len: "unat (cons_e ?u - cons_w ?u) = unat (cons_e s - cons_w s) - 1" using arg_cong [OF l, of length] by (simp add: cons_line_def)
    then have "unat (cons_e ?u - cons_w ?u) \<le> n" using Suc.prems(2) by simp
    then obtain e out where k: "kill_line n ?u = Ok () (?u\<lparr>cons_e := e, uart_out := out\<rparr>)"
      "ring_contents 128 (cons_buf ?u) (cons_w ?u) e = rev (dropWhile (\<lambda>b. b \<noteq> 10) (rev (cons_line ?u)))"
      "unat (e - cons_w ?u) \<le> unat (cons_e ?u - cons_w ?u)" using Suc.IH [OF u(2)] by blast
    have p: "consputc BACKSPACE (s\<lparr>cons_e := cons_e s - 1\<rparr>) = Ok () ?u"
      using consputc_back [OF in_cons_live [OF u(1), THEN conjunct1]] emit_in_cons [OF u(1)] by simp
    have "kill_line (Suc n) s = Ok () (s\<lparr>cons_e := e, uart_out := out\<rparr>)" using True p k(1) by (simp add: kop_simps)
    moreover have "rev (dropWhile (\<lambda>b. b \<noteq> 10) (rev (cons_line s))) = rev (dropWhile (\<lambda>b. b \<noteq> 10) (rev (cons_line ?u)))"
      using l True by simp
    ultimately show ?thesis using k(2,3) len by (intro exI [of _ e] exI [of _ out]) simp
  qed
qed

text \<open>The result of a part of the handler: the view, and what is left alone.\<close>

definition cons_to :: "byte list \<times> byte list \<Rightarrow> 'x consstate_scheme \<Rightarrow> 'x consstate_scheme \<Rightarrow> bool" where
  "cons_to v s t \<longleftrightarrow> cons_view t = v \<and> cons_ok t \<and> cons_sys s t"

lemma cons_e_shrink:
  assumes "cons_ok s" and "unat (e - cons_w s) \<le> unat (cons_e s - cons_w s)" and "in_cons s"
    and "ring_contents INPUT_BUF_SIZE (cons_buf s) (cons_w s) e = l"
  shows "cons_to (cons_queue s, l) s (s\<lparr>cons_e := e, uart_out := out\<rparr>)"
proof -
  have d: "unat (cons_e s - cons_r s) = unat (cons_w s - cons_r s) + unat (cons_e s - cons_w s)"
    using assms(1) by (intro unat_diff_split) (simp add: cons_ok_def)
  have "unat ((cons_w s - cons_r s) + (e - cons_w s)) = unat (cons_w s - cons_r s) + unat (e - cons_w s)"
    using assms(1,2) d by (subst unat_plus_if') (auto simp: cons_ok_def)
  then have "cons_ok (s\<lparr>cons_e := e, uart_out := out\<rparr>)" using assms(1,2) d by (simp add: cons_ok_def)
  then show ?thesis
    using assms(4) in_cons_live [OF assms(3)] by (simp add: cons_to_def cons_view_def cons_sys_def cons_queue_def cons_line_def)
qed

text \<open>A byte at the end of the line, and the line that a newline, an end of file or a full buffer ends.\<close>

lemma cons_put:
  assumes "cons_ok s" and "length (cons_queue s) + length (cons_line s) < INPUT_BUF_SIZE" and "in_cons s"
    and "t = s\<lparr>uart_out := out, cons_buf := (cons_buf s)(unat (cons_e s) mod INPUT_BUF_SIZE := c), cons_e := cons_e s + 1\<rparr>"
  shows "cons_to (cons_queue s, cons_line s @ [c]) s t"
    "unat (cons_e t - cons_r t) = Suc (length (cons_queue s) + length (cons_line s))"
proof -
  let ?b = "(cons_buf s)(unat (cons_e s) mod 128 := c)"
  have n: "unat (cons_e s - cons_r s) < 128" using cons_lengths [OF assms(1)] assms(2) by simp
  have d: "unat (cons_e s - cons_r s) = unat (cons_w s - cons_r s) + unat (cons_e s - cons_w s)"
    using assms(1) by (intro unat_diff_split) (simp add: cons_ok_def)
  have all: "ring_contents 128 ?b (cons_r s) (cons_e s + 1) = ring_contents 128 (cons_buf s) (cons_r s) (cons_e s) @ [c]"
    using n by (intro ring_put) auto
  have line: "ring_contents 128 ?b (cons_w s) (cons_e s + 1) = cons_line s @ [c]"
    unfolding cons_line_def using n d by (intro ring_put) auto
  have e: "unat (cons_e s + 1 - cons_r s) = Suc (unat (cons_e s - cons_r s))" using arg_cong [OF all, of length] by simp
  then have "ring_contents 128 ?b (cons_r s) (cons_w s) @ cons_line s @ [c] = (cons_queue s @ cons_line s) @ [c]"
    using all ring_split [of "cons_w s" "cons_r s" "cons_e s + 1" 128 ?b] ring_split [of "cons_w s" "cons_r s" "cons_e s" 128 "cons_buf s"] d
    unfolding line by (simp add: cons_queue_def cons_line_def)
  then have queue: "ring_contents 128 ?b (cons_r s) (cons_w s) = cons_queue s" by simp
  show "unat (cons_e t - cons_r t) = Suc (length (cons_queue s) + length (cons_line s))"
    using e cons_lengths [OF assms(1)] by (simp add: assms(4))
  show "cons_to (cons_queue s, cons_line s @ [c]) s t"
    using queue line e n d in_cons_live [OF assms(3)]
    by (simp add: assms(4) cons_to_def cons_view_def cons_sys_def cons_ok_def) (simp add: cons_queue_def cons_line_def)
qed

lemma cons_commit:
  assumes "cons_to (q, l) s u" and "t = u\<lparr>cons_w := cons_e u, procs := ps\<rparr>" and "\<forall>i. ppagetable (ps i) = ppagetable (procs s i)"
  shows "cons_to (q @ l, []) s t"
  using assms ring_split [of "cons_w u" "cons_r u" "cons_e u" 128 "cons_buf u"]
  by (simp add: cons_to_def cons_view_def cons_sys_def cons_ok_def cons_queue_def cons_line_def ring_empty [THEN iffD2])

lemma cons_to_id: "cons_ok s \<Longrightarrow> in_cons s \<Longrightarrow> cons_to (cons_view s) s s"
  using in_cons_live [of s] by (simp add: cons_to_def cons_sys_def)

lemma uint_eq_byte: "0 \<le> k \<Longrightarrow> k < 256 \<Longrightarrow> uint (c :: byte) = k \<longleftrightarrow> c = word_of_int k"
  by (auto simp: uint_word_of_int)

lemmas byte_cases = uint_eq_byte [of 16, simplified] uint_eq_byte [of 21, simplified] uint_eq_byte [of 8, simplified]
  uint_eq_byte [of 127, simplified] uint_eq_byte [of 0, simplified] uint_eq_byte [of 13, simplified]
  uint_eq_byte [of 10, simplified] uint_eq_byte [of 4, simplified]

lemma cons_store_ok:
  assumes "in_cons s" and "cons_ok s" and "c \<noteq> 21" "c \<noteq> 8" "c \<noteq> 127"
  shows "\<exists>t. cons_store (uint c) s = Ok () t \<and> cons_to (edit c (cons_view s)) s t"
proof (cases "c = 0 \<or> length (cons_queue s) + length (cons_line s) \<ge> 128")
  case True
  then have "cons_store (uint c) s = Ok () s"
    using cons_lengths [OF assms(2)] by (auto simp: cons_store_def kop_simps word_less_nat_alt)
  moreover have "edit c (cons_view s) = cons_view s" using True assms(3-5) by (auto simp: edit_def cons_view_def)
  ultimately show ?thesis using cons_to_id [OF assms(2,1)] by auto
next
  case False
  let ?d = "newline_of c" and ?q = "cons_queue s" and ?l = "cons_line s @ [newline_of c]"
  define u where "u = s\<lparr>uart_out := uart_out s @ [?d], cons_buf := (cons_buf s)(unat (cons_e s) mod 128 := ?d), cons_e := cons_e s + 1\<rparr>"
  have room: "cons_e s - cons_r s < 128" "c \<noteq> 0" using False cons_lengths [OF assms(2)] by (auto simp: word_less_nat_alt)
  have d: "(if uint c = 13 then 10 else uint c) = uint ?d" by (simp add: newline_of_def byte_cases)
  have p: "consputc (uint ?d) s = Ok () (s\<lparr>uart_out := uart_out s @ [?d]\<rparr>)"
    using consputc_emit [of s ?d] in_cons_live [OF assms(1)] emit_in_cons [OF assms(1), of "[?d]"] by simp
  have to: "cons_to (?q, ?l) s u" "unat (cons_e u - cons_r u) = length ?q + length ?l"
    using cons_put [OF assms(2) _ assms(1) u_def] False by simp_all
  have u: "in_cons u" using assms(1) by (simp add: in_cons_def u_def)
  have full: "cons_e u - cons_r u = 128 \<longleftrightarrow> length ?q + length ?l = 128"
    using to(2) by (simp add: word_unat_eq_iff)
  have nl: "?d = 4 \<longleftrightarrow> c = 4" by (simp add: newline_of_def)
  let ?fin = "?d = 10 \<or> c = 4 \<or> length ?q + length ?l = 128"
  let ?w = "u\<lparr>cons_w := cons_e u, procs := wake ChConsR (others (cproc (thiscpu (lks u)))) (procs u)\<rparr>"
  have w: "wakeup ChConsR (u\<lparr>cons_w := cons_e u\<rparr>) = Ok () ?w"
    using wakeup_ok [of "u\<lparr>cons_w := cons_e u\<rparr>" ChConsR] u in_cons_live [OF u] by (simp add: in_cons_def)
  have "cons_store (uint c) s = Ok () (if ?fin then ?w else u)"
    using room p w full nl unfolding cons_store_def Let_def d by (simp add: kop_simps u_def byte_cases)
  moreover have "cons_to (edit c (cons_view s)) s (if ?fin then ?w else u)"
    using cons_commit [OF to(1) refl, of "wake ChConsR (others (cproc (thiscpu (lks u)))) (procs u)"] to(1) False assms(3-5)
    by (auto simp: edit_def cons_view_def Let_def wake_def u_def)
  ultimately show ?thesis by blast
qed

section \<open>The interrupt\<close>

lemma cons_sys_ready: "cons_sys s t \<Longrightarrow> cons_ready t = cons_ready s"
  by (simp add: cons_sys_def cons_ready_def avail_settle)

lemma cons_sys_trans: "cons_sys s t \<Longrightarrow> cons_sys t u \<Longrightarrow> cons_sys s u"
  by (simp add: cons_sys_def settle_settle)

lemma cons_release:
  assumes "cons_ready s" and "u = s\<lparr>lks := acq LkCons (lks s)\<rparr>" and "cons_to v u t"
  shows "release LkCons t = Ok () (t\<lparr>lks := settle (lks s)\<rparr>)" "cons_to v s (t\<lparr>lks := settle (lks s)\<rparr>)"
proof -
  have a: "avail LkCons (lks s)" using assms(1) by (simp add: cons_ready_def)
  then have l: "lks t = acq LkCons (lks s)" using assms(2,3) by (simp add: cons_to_def cons_sys_def settle_acq avail_def)
  then show "release LkCons t = Ok () (t\<lparr>lks := settle (lks s)\<rparr>)" using a by (simp add: lock_simps)
  show "cons_to v s (t\<lparr>lks := settle (lks s)\<rparr>)"
    using assms(2,3) by (simp add: cons_to_def cons_sys_def cons_view_def cons_ok_def cons_queue_def cons_line_def)
qed

lemma erase_ok:
  assumes "in_cons s" and "cons_ok s" and "cons_e s \<noteq> cons_w s"
  shows "\<exists>t. kseq (kmod (\<lambda>s. s\<lparr>cons_e := cons_e s - 1\<rparr>)) (consputc BACKSPACE) s = Ok () t \<and>
    cons_to (cons_queue s, butlast (cons_line s)) s t"
proof -
  have u: "in_cons (s\<lparr>cons_e := cons_e s - 1\<rparr>)" using assms(1) by (simp add: in_cons_def)
  note l = ring_drop_last [OF assms(3), of 128 "cons_buf s"]
  have "unat (cons_e s - 1 - cons_w s) \<le> unat (cons_e s - cons_w s)" using arg_cong [OF l, of length] by simp
  then have "cons_to (cons_queue s, butlast (cons_line s)) s (s\<lparr>cons_e := cons_e s - 1, uart_out := uart_out s @ [8, 32, 8]\<rparr>)"
    by (rule cons_e_shrink [OF assms(2) _ assms(1)]) (simp add: l cons_line_def)
  then show ?thesis
    using consputc_back [OF in_cons_live [OF u, THEN conjunct1]] emit_in_cons [OF u] by (simp add: kop_simps)
qed

lemma consoleintr_ok:
  fixes s :: "'x consstate_scheme"
  assumes "cons_ready s" and "cons_ok s" and "c \<noteq> 16"
  shows "\<exists>t. consoleintr (uint c) s = Ok () t \<and> cons_to (edit c (cons_view s)) s t"
proof -
  define u where "u = s\<lparr>lks := acq LkCons (lks s)\<rparr>"
  have u: "in_cons u" "cons_ok u" "cons_view u = cons_view s" "cons_queue u = cons_queue s" "cons_line u = cons_line s"
    using cons_ready_acq [OF assms(1), of LkCons] assms(1,2)
    by (simp_all add: u_def in_cons_def cons_ready_def cons_ok_def cons_view_def cons_queue_def cons_line_def)
  have acq: "acquire LkCons s = Ok () u" using assms(1) by (simp add: u_def cons_ready_def lock_simps)
  define body :: "('x consstate_scheme, unit) kop" where "body = (if uint c = 16 then procdump
           else if uint c = 21 then kbind (kget (\<lambda>s. unat (cons_e s - cons_w s))) kill_line
           else if uint c = 8 \<or> uint c = 127 then
             kbind (kget (\<lambda>s. cons_e s \<noteq> cons_w s)) (\<lambda>go.
             kwhen go (kseq (kmod (\<lambda>s. s\<lparr>cons_e := cons_e s - 1\<rparr>)) (consputc BACKSPACE)))
           else cons_store (uint c))"
  have "\<exists>t. body u = Ok () t \<and> cons_to (edit c (cons_view s)) u t"
  proof -
    consider "c = 21" | "c = 8 \<or> c = 127" "cons_e u = cons_w u" | "c = 8 \<or> c = 127" "cons_e u \<noteq> cons_w u" | "c \<noteq> 21" "c \<noteq> 8" "c \<noteq> 127" by blast
    then show ?thesis
    proof cases
      case 1
      obtain e out where k: "kill_line (unat (cons_e u - cons_w u)) u = Ok () (u\<lparr>cons_e := e, uart_out := out\<rparr>)"
        "ring_contents 128 (cons_buf u) (cons_w u) e = rev (dropWhile (\<lambda>b. b \<noteq> 10) (rev (cons_line u)))"
        "unat (e - cons_w u) \<le> unat (cons_e u - cons_w u)" using kill_line_ok [OF u(1) order_refl] by blast
      show ?thesis
        using k(1) cons_e_shrink [OF u(2) k(3) u(1) k(2), of out] u(4,5) 1
        by (auto simp: body_def byte_cases kop_simps edit_def cons_view_def)
    next
      case 2
      then have "cons_line u = []" by (simp add: cons_line_def ring_empty)
      then show ?thesis using 2 cons_to_id [OF u(2,1)] u(3-5) by (auto simp: body_def byte_cases kop_simps edit_def cons_view_def)
    next
      case 3
      then show ?thesis using erase_ok [OF u(1,2)] u(4,5) by (auto simp: body_def byte_cases kop_simps edit_def cons_view_def)
    next
      case 4
      then show ?thesis using cons_store_ok [OF u(1,2), of c] u(3) assms(3) by (simp add: body_def byte_cases)
    qed
  qed
  then obtain t where t: "body u = Ok () t" "cons_to (edit c (cons_view s)) u t" by blast
  note r = cons_release [OF assms(1) u_def t(2)]
  have "consoleintr (uint c) s = Ok () (t\<lparr>lks := settle (lks s)\<rparr>)"
    unfolding consoleintr_def body_def [symmetric] using acq t(1) r(1) by (simp add: kop_simps)
  then show ?thesis using r(2) by blast
qed

lemma uartintr_loop_ok:
  "cons_ready s \<Longrightarrow> cons_ok s \<Longrightarrow> 16 \<notin> set (uart_in s) \<Longrightarrow> n = Suc (length (uart_in s)) \<Longrightarrow>
   \<exists>t. uartintr_loop n s = Ok () t \<and> cons_to (fold edit (uart_in s) (cons_view s)) (s\<lparr>uart_in := []\<rparr>) (t\<lparr>lks := settle (lks t)\<rparr>) \<and>
     settle (lks t) = settle (lks s)"
proof (induction n arbitrary: s)
  case (Suc n)
  show ?case
  proof (cases "uart_in s")
    case Nil
    then have "uartintr_loop (Suc n) s = Ok () s" by (simp add: uartgetc_def kop_simps)
    then show ?thesis using Suc.prems(2) Nil
      by (auto simp: cons_to_def cons_sys_def cons_view_def cons_ok_def cons_queue_def cons_line_def settle_settle)
  next
    case (Cons c cs)
    let ?s = "s\<lparr>uart_in := cs\<rparr>"
    have s: "cons_ready ?s" "cons_ok ?s" "cons_view ?s = cons_view s" "c \<noteq> 16"
      using Suc.prems Cons by (simp_all add: cons_ready_def cons_ok_def cons_view_def cons_queue_def cons_line_def)
    obtain u where u: "consoleintr (uint c) ?s = Ok () u" "cons_to (edit c (cons_view s)) ?s u"
      using consoleintr_ok [OF s(1,2,4)] s(3) by auto
    have cs: "uart_in u = cs" "cons_ready u" "cons_ok u" "cons_view u = edit c (cons_view s)"
      using u(2) cons_sys_ready [of ?s u] s(1) by (simp_all add: cons_to_def) (simp add: cons_sys_def)
    obtain t where t: "uartintr_loop n u = Ok () t"
      "cons_to (fold edit cs (cons_view u)) (u\<lparr>uart_in := []\<rparr>) (t\<lparr>lks := settle (lks t)\<rparr>)" "settle (lks t) = settle (lks u)"
      using Suc.IH [OF cs(2,3)] cs(1) Suc.prems(3,4) Cons by auto
    have "0 \<le> uint c" by simp
    then have "uint c \<noteq> -1" by linarith
    then have "uartintr_loop (Suc n) s = Ok () t" using u(1) t(1) Cons by (simp add: uartgetc_def kop_simps)
    moreover have "cons_to (fold edit (uart_in s) (cons_view s)) (s\<lparr>uart_in := []\<rparr>) (t\<lparr>lks := settle (lks t)\<rparr>)"
      "settle (lks t) = settle (lks s)"
      using t(2,3) u(2) cs(4) Cons by (auto simp: cons_to_def cons_sys_def settle_settle)
    ultimately show ?thesis by blast
  qed
qed simp

lemma ppagetable_wake [simp]: "ppagetable (wake ch A ps i) = ppagetable (ps i)"
  by (simp add: wake_def)

text \<open>What sending changes.\<close>

definition tx_only :: "'x consstate_scheme \<Rightarrow> 'x consstate_scheme \<Rightarrow> bool" where
  "tx_only s t \<longleftrightarrow> (\<exists>r out room ps. t = s\<lparr>tx_r := r, uart_out := out, uart_room := room, procs := ps\<rparr> \<and>
     (\<forall>i. ppagetable (ps i) = ppagetable (procs s i)))"

lemma uartstart_loop_ok:
  "held LkUart (lks s) \<Longrightarrow> \<forall>i\<in>others (cproc (thiscpu (lks s))). avail (LkProc i) (lks s) \<Longrightarrow>
   \<exists>t. uartstart_loop n s = Ok () t \<and> tx_only s t"
proof (induction n arbitrary: s)
  case 0
  have "tx_only s s" unfolding tx_only_def
    by (intro exI [of _ "tx_r s"] exI [of _ "uart_out s"] exI [of _ "uart_room s"] exI [of _ "procs s"]) simp
  then show ?case by (simp add: kop_simps)
next
  case (Suc n)
  show ?case
  proof (cases "tx_w s = tx_r s")
    case True
    have "tx_only s s" unfolding tx_only_def
      by (intro exI [of _ "tx_r s"] exI [of _ "uart_out s"] exI [of _ "uart_room s"] exI [of _ "procs s"]) simp
    then show ?thesis using True by (simp add: kop_simps)
  next
    case False
    let ?c = "tx_buf s (unat (tx_r s) mod 32)"
    let ?u = "s\<lparr>tx_r := tx_r s + 1, procs := wake ChUartR (others (cproc (thiscpu (lks s)))) (procs s), uart_out := uart_out s @ [?c], uart_room := n\<rparr>"
    have "cpu_ok (lks s)" "settle (lks s) = lks s" using Suc.prems(1) by (simp_all add: settle_held) (simp add: held_def)
    then have w: "wakeup ChUartR (s\<lparr>tx_r := tx_r s + 1\<rparr>) = Ok () (s\<lparr>tx_r := tx_r s + 1, procs := wake ChUartR (others (cproc (thiscpu (lks s)))) (procs s)\<rparr>)"
      using wakeup_ok [of "s\<lparr>tx_r := tx_r s + 1\<rparr>" ChUartR] Suc.prems(2) by simp
    obtain t where t: "uartstart_loop n ?u = Ok () t" "tx_only ?u t" using Suc.IH [of ?u] Suc.prems by auto
    have "uartstart_loop (Suc n) s = Ok () t" using False w t(1) by (simp add: kop_simps)
    moreover have "tx_only s t"
    proof -
      obtain r out room ps where "t = s\<lparr>tx_r := r, uart_out := out, uart_room := room, procs := ps\<rparr>" "\<forall>i. ppagetable (ps i) = ppagetable (procs s i)"
        using t(2) by (auto simp: tx_only_def)
      then show ?thesis unfolding tx_only_def by blast
    qed
    ultimately show ?thesis by blast
  qed
qed

lemma uartintr_ok:
  assumes "cons_ready s" and "cons_ok s" and "16 \<notin> set (uart_in s)"
  shows "\<exists>t. uartintr s = Ok () t \<and> cons_to (fold edit (uart_in s) (cons_view s)) (s\<lparr>uart_in := []\<rparr>) t"
proof -
  obtain u where u: "uartintr_loop (Suc (length (uart_in s))) s = Ok () u" "settle (lks u) = settle (lks s)"
    "cons_to (fold edit (uart_in s) (cons_view s)) (s\<lparr>uart_in := []\<rparr>) (u\<lparr>lks := settle (lks u)\<rparr>)"
    using uartintr_loop_ok [OF assms refl] by blast
  have av: "avail LkUart (lks u)" "\<forall>i\<in>others (cproc (thiscpu (lks u))). avail (LkProc i) (lks u)"
    using assms(1) u(2) avail_settle by (metis cons_ready_def) (use assms(1) u(2) in \<open>metis avail_settle cons_ready_def cproc_lock_effects(3) tp_lock_effects(3)\<close>)
  let ?v = "u\<lparr>lks := acq LkUart (lks u)\<rparr>"
  have v: "held LkUart (lks ?v)" "\<forall>i\<in>others (cproc (thiscpu (lks ?v))). avail (LkProc i) (lks ?v)"
    using av by (auto simp: lock_simps)
  obtain t where t: "uartstart_loop (uart_room ?v) ?v = Ok () t" "tx_only ?v t" using uartstart_loop_ok [OF v] by blast
  have lt: "lks t = acq LkUart (lks u)" using t(2) by (auto simp: tx_only_def)
  have "uartintr s = Ok () (t\<lparr>lks := settle (lks u)\<rparr>)"
    using u(1) t(1) av(1) lt by (simp add: uartintr_def uartstart_def kop_simps lock_simps)
  moreover have "cons_to (fold edit (uart_in s) (cons_view s)) (s\<lparr>uart_in := []\<rparr>) (t\<lparr>lks := settle (lks u)\<rparr>)"
    using t(2) u(2,3) by (auto simp: tx_only_def cons_to_def cons_sys_def cons_view_def cons_ok_def cons_queue_def cons_line_def)
  ultimately show ?thesis by blast
qed

section \<open>Reading\<close>

text \<open>
  The bytes a read of \<open>n\<close> delivers from the ended lines, and what stays: it stops behind a
  newline and at a control-D, which is kept for the next read when something was delivered.
\<close>

fun rd :: "nat \<Rightarrow> bool \<Rightarrow> byte list \<Rightarrow> (byte list \<times> byte list) option" where
  "rd 0 fresh q = Some ([], q)"
| "rd (Suc n) fresh [] = None"
| "rd (Suc n) fresh (c # q) =
     (if c = 4 then Some ([], if fresh then q else c # q)
      else if c = 10 then Some ([c], q)
      else map_option (\<lambda>(bs, r). (c # bs, r)) (rd n False q))"

lemma cons_wait_some: "cons_r s \<noteq> cons_w s \<Longrightarrow> cons_wait env s = Ok (True, env) s"
  by (cases env) (simp_all add: kop_simps)

lemma either_copyout_byte:
  assumes "in_proc p L" and "lks s = acq LkCons L" and "user_wf (mem s) (ppagetable (procs s p))"
    and "unat a + 1 \<le> 2 ^ 38" and "umapped (mem s) (ppagetable (procs s p)) a"
  shows "either_copyout (ToUser a) [c] s = Ok (0, []) (s\<lparr>mem := uwrite (uaddr (mem s) (ppagetable (procs s p))) (mem s) a [c]\<rparr>)"
proof -
  have l: "cpu_ok (lks s)" "settle (lks s) = lks s" "cproc (thiscpu (lks s)) = Some p"
    using in_procD [OF assms(1)] assms(2) by (simp_all add: lock_simps)
  then have "copyout (ppagetable (procs s p)) a [c] s = Ok 0 (s\<lparr>mem := uwrite (uaddr (mem s) (ppagetable (procs s p))) (mem s) a [c]\<rparr>)"
    using assms by (intro copyout_ok) simp_all
  then show ?thesis using l by (simp add: either_copyout_def kop_simps myproc_ok deref_def)
qed

lemma consoleread_loop_ok:
  fixes s :: "'x consstate_scheme"
  assumes "in_proc p L" and "lks s = acq LkCons L" and "root = ppagetable (procs s p)" and "user_wf (mem s) root"
    and "unat a + k \<le> 2 ^ 38" and "\<And>j. j < k \<Longrightarrow> umapped (mem s) root (a + of_nat j)" and "k \<le> n"
    and "rd k (k = n) (cons_queue s) = Some (bs, rest)"
  shows "\<exists>r. consoleread_loop k n env (ToUser a) s =
      Ok (Some (k - length bs, [])) (s\<lparr>cons_r := r, mem := uwrite (uaddr (mem s) root) (mem s) a bs\<rparr>) \<and>
    ring_contents INPUT_BUF_SIZE (cons_buf s) r (cons_w s) = rest \<and> length bs \<le> k"
  using assms
proof (induction k arbitrary: a s bs)
  case 0
  then show ?case by (intro exI [of _ "cons_r s"]) (auto simp: kop_simps cons_queue_def)
next
  case (Suc k)
  let ?c = "cons_buf s (unat (cons_r s) mod 128)" and ?A = "uaddr (mem s) root"
  let ?u = "s\<lparr>cons_r := cons_r s + 1\<rparr>"
  have ne: "cons_r s \<noteq> cons_w s"
  proof
    assume "cons_r s = cons_w s"
    then have "cons_queue s = []" by (simp add: cons_queue_def ring_empty)
    then show False using Suc.prems(8) by simp
  qed
  have q: "cons_queue s = ?c # cons_queue ?u" using ring_get [OF ne [symmetric], of 128 "cons_buf s"] by (simp add: cons_queue_def)
  note wait = cons_wait_some [OF ne, of env]
  show ?case
  proof (cases "?c = 4")
    case True
    then have "bs = []" "rest = (if Suc k = n then cons_queue ?u else cons_queue s)" using Suc.prems(8) q by auto
    moreover have "consoleread_loop (Suc k) n env (ToUser a) s =
        Ok (Some (Suc k, [])) (s\<lparr>cons_r := if Suc k = n then cons_r s + 1 else cons_r s\<rparr>)"
      using wait True Suc.prems(7) by (auto simp: kop_simps)
    ultimately show ?thesis
      by (intro exI [of _ "if Suc k = n then cons_r s + 1 else cons_r s"]) (simp add: cons_queue_def)
  next
    case False
    let ?v = "?u\<lparr>mem := uwrite ?A (mem s) a [?c]\<rparr>"
    have um: "umapped (mem s) root (a + of_nat j)" if "j < Suc k" for j using Suc.prems(6) that by blast
    have co: "either_copyout (ToUser a) [?c] ?u = Ok (0, []) ?v"
      using either_copyout_byte [of p L ?u a ?c] Suc.prems(1-5) um [of 0] by simp
    show ?thesis
    proof (cases "?c = 10")
      case True
      then have "bs = [?c]" "rest = cons_queue ?u" using Suc.prems(8) q by auto
      moreover have "consoleread_loop (Suc k) n env (ToUser a) s = Ok (Some (k, [])) ?v"
        using wait co True by (simp add: kop_simps)
      ultimately show ?thesis
        by (intro exI [of _ "cons_r s + 1"]) (simp add: cons_queue_def del: consoleread_loop.simps uwrite.simps)
    next
      case False
      then obtain ds where bs: "bs = ?c # ds" and r: "rd k False (cons_queue ?u) = Some (ds, rest)"
        using Suc.prems(8) q \<open>?c \<noteq> 4\<close> by (auto split: option.splits)
      have m: "mem ?v = uwrite ?A (mem s) a [?c]" by simp
      have fr: "user_wf (mem ?v) root" "umapped (mem ?v) root = umapped (mem s) root" "uaddr (mem ?v) root = ?A"
        by (rule uwrite_frame [OF Suc.prems(4) _ m]; use um in force)+
      have a1: "unat (a + 1) = unat a + 1" using Suc.prems(5) unat_off [of a 1] by simp
      have um1: "umapped (mem ?v) root (a + 1 + of_nat j)" if "j < k" for j
        unfolding fr(2) using um [of "Suc j"] that by (simp add: algebra_simps)
      have kn: "k \<noteq> n" "k \<le> n" using Suc.prems(7) by simp_all
      have v: "lks ?v = acq LkCons L" "root = ppagetable (procs ?v p)" "unat (a + 1) + k \<le> 2 ^ 38" "rd k (k = n) (cons_queue ?v) = Some (ds, rest)"
        using Suc.prems(2,3,5) a1 r kn by (simp_all add: cons_queue_def)
      obtain x where x: "consoleread_loop k n env (ToUser (a + 1)) ?v =
          Ok (Some (k - length ds, [])) (?v\<lparr>cons_r := x, mem := uwrite (uaddr (mem ?v) root) (mem ?v) (a + 1) ds\<rparr>)"
        "ring_contents 128 (cons_buf ?v) x (cons_w ?v) = rest" "length ds \<le> k"
        using Suc.IH [OF Suc.prems(1) v(1,2) fr(1) v(3) um1 kn(2) v(4)] by blast
      have "consoleread_loop (Suc k) n env (ToUser a) s =
          Ok (Some (Suc k - length bs, [])) (s\<lparr>cons_r := x, mem := uwrite ?A (mem s) a bs\<rparr>)"
        using wait co False \<open>?c \<noteq> 4\<close> x(1) fr(3) bs by (simp add: kop_simps)
      then show ?thesis using x(2,3) bs by auto
    qed
  qed
qed

lemma consoleread_ok:
  assumes "in_proc p (lks s)" and "root = ppagetable (procs s p)" and "user_wf (mem s) root"
    and "unat a + n \<le> 2 ^ 38" and "\<And>j. j < n \<Longrightarrow> umapped (mem s) root (a + of_nat j)"
    and "rd n True (cons_queue s) = Some (bs, rest)"
  shows "\<exists>t. consoleread env (ToUser a) (int n) s = Ok (int (length bs), []) t \<and>
    mem t = uwrite (uaddr (mem s) root) (mem s) a bs \<and> cons_queue t = rest \<and> length bs \<le> n"
proof -
  let ?u = "s\<lparr>lks := acq LkCons (lks s)\<rparr>"
  have av: "avail LkCons (lks s)" using in_procD(4) [OF assms(1)] .
  obtain r where r: "consoleread_loop n n env (ToUser a) ?u =
      Ok (Some (n - length bs, [])) (?u\<lparr>cons_r := r, mem := uwrite (uaddr (mem ?u) root) (mem ?u) a bs\<rparr>)"
    "ring_contents 128 (cons_buf ?u) r (cons_w ?u) = rest" "length bs \<le> n"
    using consoleread_loop_ok [of p "lks s" ?u root a n n bs rest env] assms by (auto simp: cons_queue_def)
  let ?t = "s\<lparr>lks := settle (lks s), cons_r := r, mem := uwrite (uaddr (mem s) root) (mem s) a bs\<rparr>"
  have "consoleread env (ToUser a) (int n) s = Ok (int (length bs), []) ?t"
    using r av by (simp add: consoleread_def kop_simps lock_simps of_nat_diff)
  then show ?thesis using r(2,3) by (auto simp: cons_queue_def)
qed

section \<open>Properties\<close>

text \<open>
  C10: The console edits lines. Whatever character other than control-P arrives, the handler
  returns with the circular buffer standing for the edited text: backspace and delete take
  away the last character of the current line, control-U the whole of it, other characters
  are appended while the 128-byte buffer has room, and a newline, a control-D or the last
  free place hands the line over to the readers. The counters may wrap around.
\<close>

theorem consoleintr_refines_edit:
  assumes "cons_ready s" and "cons_ok s" and "c \<noteq> 16"
  shows "\<exists>t. consoleintr (uint c) s = Ok () t \<and> cons_view t = edit c (cons_view s) \<and> cons_ok t \<and> cons_ready t"
  using consoleintr_ok [OF assms] assms(1) cons_sys_ready by (fastforce simp: cons_to_def)

lemma demo_cons: "cons_ready (demo 1)" "cons_ok (demo 1)" "cons_view (demo 1) = ([], [])"
proof -
  have "in_proc 1 (lks (demo 1))" by (rule demo_in_proc) simp
  then show "cons_ready (demo 1)" by (simp only: cons_ready_def in_procD(4) [OF \<open>in_proc 1 (lks (demo 1))\<close>] demo_fields(22)) simp
qed (simp_all add: cons_ok_def cons_view_def cons_queue_def cons_line_def ring_contents_def)

theorem consoleintr_refines_edit_witness:
  "\<exists>t. consoleintr (uint (97 :: byte)) (demo 1) = Ok () t \<and> cons_view t = ([], [97])"
  using consoleintr_refines_edit [OF demo_cons(1,2), of 97] demo_cons(3) by (auto simp: edit_def newline_of_def)

text \<open>
  C9: From the keyboard to the reader. The bytes the UART has received pass through the
  interrupt handler and the line editor; a read of at most \<open>n\<close> bytes that follows stores
  in the reader's memory exactly the bytes up to and with the first newline (or up to the
  first control-D), returns their number, and leaves the rest for the next read.
\<close>

theorem typed_line_is_read:
  assumes "in_proc p (lks s)" and "\<not> panicked s" and "cons_ok s" and "16 \<notin> set (uart_in s)"
    and "rd n True (fst (fold edit (uart_in s) (cons_view s))) = Some (bs, rest)"
    and "root = ppagetable (procs s p)" and "user_wf (mem s) root" and "unat a + n \<le> unat MAXVA"
    and "\<And>j. j < n \<Longrightarrow> umapped (mem s) root (a + of_nat j)"
  shows "\<exists>t u. uartintr s = Ok () t \<and> consoleread env (ToUser a) (int n) t = Ok (int (length bs), []) u \<and>
    uread (mem u) root a (length bs) = bs \<and> cons_queue u = rest"
proof -
  have "cons_ready s" using assms(1,2) in_procD [OF assms(1)] by (simp add: cons_ready_def)
  then obtain t where t: "uartintr s = Ok () t" "cons_to (fold edit (uart_in s) (cons_view s)) (s\<lparr>uart_in := []\<rparr>) t"
    using uartintr_ok assms(3,4) by blast
  have q: "rd n True (cons_queue t) = Some (bs, rest)" using assms(5) t(2) by (auto simp: cons_to_def cons_view_def dest: sym)
  have m: "mem t = mem s" "in_proc p (lks t)" "root = ppagetable (procs t p)"
    using t(2) assms(1,6) by (simp_all add: cons_to_def cons_sys_def)
  obtain u where u: "consoleread env (ToUser a) (int n) t = Ok (int (length bs), []) u"
    "mem u = uwrite (uaddr (mem t) root) (mem t) a bs" "cons_queue u = rest" "length bs \<le> n"
    using consoleread_ok [OF m(2,3) _ _ _ q, of a env] assms(7-9) m(1) by auto
  have "uread (mem u) root a (length bs) = bs"
    using copyout_uread [of "mem s" root bs a] assms(7-9) u(2,4) m(1) by simp
  then show ?thesis using t(1) u(1,3) by blast
qed

theorem typed_line_is_read_witness:
  "\<exists>t u. uartintr ((demo 1)\<lparr>uart_in := bytes ''lx'' @ [8] @ bytes ''s'' @ [13] @ bytes ''c''\<rparr>) = Ok () t \<and>
     consoleread [] (ToUser 64) 5 t = Ok (3, []) u \<and> uread (mem u) pgA 64 3 = bytes ''ls'' @ [10]"
proof -
  let ?s = "(demo 1)\<lparr>uart_in := bytes ''lx'' @ [8] @ bytes ''s'' @ [13] @ bytes ''c''\<rparr>"
  have v: "cons_view ?s = ([], [])" "cons_ok ?s" using demo_cons(2,3) by (simp_all add: cons_view_def cons_ok_def cons_queue_def cons_line_def)
  have in_s: "uart_in ?s = bytes ''lx'' @ [8] @ bytes ''s'' @ [13] @ bytes ''c''" by simp
  have e: "fold edit (bytes ''lx'' @ [8] @ bytes ''s'' @ [13] @ bytes ''c'') ([], []) = (bytes ''ls'' @ [10], bytes ''c'')"
    by (simp add: edit_def newline_of_def bytes_def)
  have "rd (Suc (Suc (Suc (Suc (Suc 0))))) True (bytes ''ls'' @ [10]) = Some (bytes ''ls'' @ [10], [])" by (simp add: bytes_def)
  moreover have "(5 :: nat) = Suc (Suc (Suc (Suc (Suc 0))))" by simp
  ultimately have "rd 5 True (bytes ''ls'' @ [10]) = Some (bytes ''ls'' @ [10], [])" by (simp only:)
  then have r: "rd 5 True (fst (fold edit (uart_in ?s) (cons_view ?s))) = Some (bytes ''ls'' @ [10], [])" unfolding v in_s e by simp
  have s: "in_proc 1 (lks ?s)" "\<not> panicked ?s" "16 \<notin> set (uart_in ?s)" "pgA = ppagetable (procs ?s 1)" "user_wf (mem ?s) pgA"
    "unat (64 :: u64) + 5 \<le> unat MAXVA" "\<And>j. j < 5 \<Longrightarrow> umapped (mem ?s) pgA (64 + of_nat j)"
    using demo_in_proc [of 1] demo_user_wf demo_user_bytes [of 64 5] by (simp_all add: bytes_def)
  have len: "length (bytes ''ls'' @ [10]) = 3" by (simp add: bytes_def)
  show ?thesis using typed_line_is_read [OF s(1,2) v(2) s(3) r s(4-7), of "[]"] unfolding len by (simp; blast)
qed

end
