(* ===== verification/Console_Type.thy ===== *)
theory Console_Type
  imports Console_Line
begin

text \<open>
  The counters of the console's input buffer stay in order and within the size of the buffer
  through everything the kernel does with them, in every state: whatever the locks, the
  process table and the memory look like.
\<close>

named_theorems cons_frame \<open>operations that leave the input buffer alone\<close>

text \<open>A statement about the three counters.\<close>

definition cons_at :: "(u32 \<Rightarrow> u32 \<Rightarrow> u32 \<Rightarrow> bool) \<Rightarrow> 'x consstate_scheme \<Rightarrow> bool" where
  "cons_at P s = P (cons_r s) (cons_w s) (cons_e s)"

lemma cons_mod:
  assumes "\<And>s. cons_r (f s) = cons_r s" "\<And>s. cons_w (f s) = cons_w s" "\<And>s. cons_e (f s) = cons_e s"
  shows "kinv (cons_at P) (kmod f)"
  by (rule kinv_kmod) (simp add: cons_at_def assms)

lemma kinv_case_prod [kinv_intros]: "(\<And>a b. kinv I (f a b)) \<Longrightarrow> kinv I (case x of (a, b) \<Rightarrow> f a b)"
  by (cases x) simp

lemmas cons_steps = kinv_intros cons_mod

lemma cons_locks [cons_frame]:
  "kinv (cons_at P) (acquire lk)" "kinv (cons_at P) (release lk)" "kinv (cons_at P) push_off" "kinv (cons_at P) pop_off" "kinv (cons_at P) (holding lk)" "kinv (cons_at P) mycpu"
  unfolding acquire_def release_def push_off_def pop_off_def holding_def mycpu_def cpuid_def r_tp_def intr_get_def intr_off_def intr_on_def
  by (intro cons_steps; simp)+

lemma cons_putc [cons_frame]: "kinv (cons_at P) (consputc c)" "kinv (cons_at P) (consputs cs)"
  unfolding consputc_def consputs_def uartputc_sync_def by (intro cons_steps cons_frame; simp)+

lemma kinv_case_list: "(x = [] \<Longrightarrow> kinv I m) \<Longrightarrow> (\<And>y ys. x = y # ys \<Longrightarrow> kinv I (f y ys)) \<Longrightarrow> kinv I (case x of [] \<Rightarrow> m | y # ys \<Rightarrow> f y ys)"
  by (cases x) simp_all

lemma kinv_case_parg: "(\<And>x. kinv I (f x)) \<Longrightarrow> (\<And>x. kinv I (g x)) \<Longrightarrow> (\<And>x. kinv I (h x)) \<Longrightarrow>
    kinv I (case p of PInt x \<Rightarrow> f x | PPtr x \<Rightarrow> g x | PStr x \<Rightarrow> h x)"
  by (cases p) simp_all

lemma cons_printint [cons_frame]: "kinv (cons_at P) (printint x b g)" "kinv (cons_at P) (printptr y)"
  unfolding printint_def printptr_def by (intro cons_steps cons_frame)+

lemma cons_printf_loop: "kinv (cons_at P) (printf_loop fmt ap :: ('x consstate_scheme, unit) kop)"
proof (induction "length fmt" arbitrary: fmt ap rule: less_induct)
  case less
  show ?case
  proof (cases fmt)
    case (Cons c r)
    have "kinv (cons_at P) (printf_loop r ap' :: ('x consstate_scheme, unit) kop)" for ap' using less [of r] Cons by simp
    moreover have "kinv (cons_at P) (printf_loop (tl r) ap' :: ('x consstate_scheme, unit) kop)" for ap' using less [of "tl r"] Cons by simp
    ultimately show ?thesis
      unfolding Cons printf_loop.simps by (intro kinv_if kinv_kbind kinv_case_list kinv_case_parg cons_frame kinv_kstop kinv_kret; simp)
  qed (simp add: kinv_intros)
qed

lemma cons_printf [cons_frame]: "kinv (cons_at P) (printf fmt ap)"
  unfolding printf_def by (intro cons_steps cons_frame cons_printf_loop)

lemma cons_myproc [cons_frame]: "kinv (cons_at P) myproc" "kinv (cons_at P) curproc" "kinv (cons_at P) (deref x)" "kinv (cons_at P) (killed p)"
  unfolding myproc_def curproc_def deref_def killed_def by (intro cons_steps cons_frame)+

lemma cons_wakeup [cons_frame]: "kinv (cons_at P) (wakeup ch)"
  unfolding wakeup_def wakeup_slot_def by (intro cons_steps cons_frame; simp)+

lemma cons_procdump [cons_frame]: "kinv (cons_at P) procdump"
  unfolding procdump_def by (intro cons_steps cons_frame)+

lemma cons_kalloc [cons_frame]: "kinv (cons_at P) kalloc"
  unfolding kalloc_def by (intro cons_steps cons_frame; simp)+

lemma cons_walk_step [cons_frame]: "kinv (cons_at P) (walk_step l pt va alloc)"
  unfolding walk_step_def Let_def by (intro cons_steps cons_frame; simp)

lemma cons_walk_loop [cons_frame]: "kinv (cons_at P) (walk_loop l pt va alloc)"
  by (induction l arbitrary: pt) (simp_all add: kinv_intros cons_walk_step)

lemma cons_walk [cons_frame]: "kinv (cons_at P) (walk pt va alloc)"
  unfolding walk_def by (intro cons_steps cons_frame)

lemma cons_walkaddr [cons_frame]: "kinv (cons_at P) (walkaddr pt va)"
  unfolding walkaddr_def by (intro cons_steps cons_frame)

lemma cons_copyout [cons_frame]: "kinv (cons_at P) (copyout pt va src :: ('x consstate_scheme, int) kop)"
proof (induction src arbitrary: va rule: length_induct)
  case (1 src)
  show ?case
  proof (cases "src = []")
    case True
    then show ?thesis by (simp add: kinv_def copyout.simps)
  next
    case False
    let ?m = "kbind (walkaddr pt (PGROUNDDOWN va)) (\<lambda>pa0.
          if pa0 = 0 then kret (-1)
          else kseq (mem_mod (\<lambda>m. mem_write m (pa0 + (va - PGROUNDDOWN va)) (take (min (page_room va) (length src)) src)))
            (copyout pt (PGROUNDDOWN va + PGSIZE) (drop (min (page_room va) (length src)) src))) :: ('x consstate_scheme, int) kop"
    have "copyout pt va src = ?m" using False by (intro ext) (subst copyout.simps, simp add: Let_def)
    moreover have "kinv (cons_at P) ?m"
      using 1 False page_room_pos [of va] by (intro cons_steps cons_frame) simp_all
    ultimately show ?thesis by simp
  qed
qed

lemma cons_either_copyout [cons_frame]: "kinv (cons_at P) (either_copyout dst src)"
  unfolding either_copyout_def by (cases dst) (auto intro!: cons_steps cons_frame)

section \<open>The steps that move the counters\<close>

definition ktrip :: "('s \<Rightarrow> bool) \<Rightarrow> ('s, 'a) kop \<Rightarrow> ('s \<Rightarrow> bool) \<Rightarrow> bool" where
  "ktrip I m J \<longleftrightarrow> (\<forall>s a t. I s \<longrightarrow> m s = Ok a t \<longrightarrow> J t)"

lemma ktrip_kmod_first:
  assumes "\<And>s. J s \<Longrightarrow> I (f s)" and "kinv I m"
  shows "ktrip J (kseq (kmod f) m) I"
  using assms by (auto simp: ktrip_def kinv_def kop_simps)

lemma ktrip_kmod_second:
  assumes "kinv J m1" and "\<And>s. J s \<Longrightarrow> I (f s)" and "kinv I m"
  shows "ktrip J (kseq m1 (kseq (kmod f) m)) I"
  using assms unfolding ktrip_def kinv_def by (fastforce simp: kop_simps split: kres.splits)

lemma kinv_guard:
  assumes "b \<Longrightarrow> ktrip (\<lambda>s. I s \<and> g s) m I"
  shows "kinv I (kbind (kget g) (\<lambda>go. kwhen (b \<and> go) m))"
  using assms by (auto simp: kinv_def ktrip_def kop_simps split: if_splits)

lemma cons_ok_at: "cons_ok = cons_at (\<lambda>r w e. unat (w - r) \<le> unat (e - r) \<and> unat (e - r) \<le> 128)"
  by (simp add: fun_eq_iff cons_ok_def cons_at_def)

lemmas cons_ok_frame = cons_frame [where P = "\<lambda>r w e. unat (w - r) \<le> unat (e - r) \<and> unat (e - r) \<le> 128", folded cons_ok_at]

lemma cons_ok_back: "cons_ok s \<Longrightarrow> cons_e s \<noteq> cons_w s \<Longrightarrow> cons_ok (s\<lparr>cons_e := cons_e s - 1\<rparr>)"
proof -
  assume ok: "cons_ok s" and ne: "cons_e s \<noteq> cons_w s"
  have "cons_e s \<noteq> cons_r s"
  proof
    assume "cons_e s = cons_r s"
    then have "unat (cons_w s - cons_r s) = 0" using ok by (simp add: cons_ok_def)
    then show False using ne \<open>cons_e s = cons_r s\<close> by (simp add: unat_eq_0)
  qed
  then have 1: "unat (cons_e s - 1 - cons_r s) = unat (cons_e s - cons_r s) - 1"
    using ring_drop_last [of "cons_e s" "cons_r s" 1 "\<lambda>_. 0"] by (metis One_nat_def diff_Suc_1 length_append_singleton length_ring)
  have "unat (cons_w s - cons_r s) \<noteq> unat (cons_e s - cons_r s)" using ne by (simp add: word_unat_eq_iff [symmetric])
  then show ?thesis using ok 1 by (auto simp: cons_ok_def)
qed

lemma cons_ok_take: "cons_ok s \<Longrightarrow> cons_r s \<noteq> cons_w s \<Longrightarrow> cons_ok (s\<lparr>cons_r := cons_r s + 1\<rparr>)"
proof -
  assume ok: "cons_ok s" and ne: "cons_r s \<noteq> cons_w s"
  have one: "unat (x - (cons_r s + 1)) = unat (x - cons_r s) - 1" if "x \<noteq> cons_r s" for x :: u32
    using ring_get [OF that, of 1 "\<lambda>_. 0"] by (metis length_Cons length_ring diff_Suc_1)
  have "cons_e s \<noteq> cons_r s"
  proof
    assume "cons_e s = cons_r s"
    then have "unat (cons_w s - cons_r s) = 0" using ok by (simp add: cons_ok_def)
    then show False using ne by (simp add: unat_eq_0)
  qed
  then show ?thesis using ok one [of "cons_w s"] one [of "cons_e s"] ne by (auto simp: cons_ok_def)
qed

lemma cons_ok_push:
  assumes "cons_ok s" and "unat (cons_e s - cons_r s) < 128"
  shows "cons_ok (s\<lparr>cons_buf := b, cons_e := cons_e s + 1\<rparr>)"
proof -
  have "unat (cons_e s + 1 - cons_r s) = Suc (unat (cons_e s - cons_r s))"
    using arg_cong [OF ring_put [of 128 "cons_e s" "cons_r s" "\<lambda>_. 0" 0], of length] assms(2) by simp
  then show ?thesis using assms by (simp add: cons_ok_def)
qed

lemma cons_kill_line: "kinv cons_ok (kill_line n :: ('x consstate_scheme, unit) kop)"
proof (induction n)
  case (Suc n)
  have "kinv cons_ok (kbind (kget (\<lambda>s. cons_e s \<noteq> cons_w s \<and> cons_buf s (unat (cons_e s - 1) mod 128) \<noteq> 10))
      (\<lambda>go. kwhen (True \<and> go) (kseq (kmod (\<lambda>s. s\<lparr>cons_e := cons_e s - 1\<rparr>)) (kseq (consputc BACKSPACE) (kill_line n)))) :: ('x consstate_scheme, unit) kop)"
    by (intro kinv_guard ktrip_kmod_first kinv_kbind cons_ok_frame Suc.IH) (auto intro: cons_ok_back)
  then show ?case by simp
qed (simp add: kinv_intros)

lemma cons_erase: "kinv cons_ok (kbind (kget (\<lambda>s. cons_e s \<noteq> cons_w s)) (\<lambda>go.
    kwhen go (kseq (kmod (\<lambda>s. s\<lparr>cons_e := cons_e s - 1\<rparr>)) (consputc BACKSPACE))))"
proof -
  have "kinv cons_ok (kbind (kget (\<lambda>s. cons_e s \<noteq> cons_w s)) (\<lambda>go.
      kwhen (True \<and> go) (kseq (kmod (\<lambda>s. s\<lparr>cons_e := cons_e s - 1\<rparr>)) (consputc BACKSPACE))))"
    by (intro kinv_guard ktrip_kmod_first cons_ok_frame) (auto intro: cons_ok_back)
  then show ?thesis by simp
qed

lemma cons_store_type: "kinv cons_ok (cons_store c :: ('x consstate_scheme, unit) kop)"
proof -
  let ?P = "\<lambda>r w e :: u32. (unat (w - r) \<le> unat (e - r) \<and> unat (e - r) \<le> 128) \<and> e - r < 128"
  have P: "(\<lambda>s. cons_ok s \<and> cons_e s - cons_r s < 128) = cons_at ?P" by (simp add: fun_eq_iff cons_ok_def cons_at_def)
  have put: "cons_ok (s\<lparr>cons_buf := b, cons_e := cons_e s + 1\<rparr>)" if "cons_at ?P s" for s :: "'x consstate_scheme" and b
    using that by (intro cons_ok_push) (auto simp: cons_at_def cons_ok_def word_less_nat_alt)
  have "kinv cons_ok (kwhen b (kseq (kmod (\<lambda>s. s\<lparr>cons_w := cons_e s\<rparr>)) (wakeup ChConsR)) :: ('x consstate_scheme, unit) kop)" for b
    by (intro kinv_kwhen kinv_kbind kinv_kmod cons_ok_frame) (simp add: cons_ok_def)
  then show ?thesis
    unfolding cons_store_def Let_def
    by (intro kinv_guard) (simp only: of_nat_numeral P, intro ktrip_kmod_second cons_frame put kinv_kbind kinv_kget)
qed

lemma cons_intr_type: "kinv cons_ok (consoleintr c)"
  unfolding consoleintr_def by (intro kinv_kbind kinv_if cons_ok_frame cons_erase cons_store_type cons_kill_line kinv_kget)

lemma cons_uart_type: "kinv cons_ok uartintr"
proof -
  have get: "kinv cons_ok uartgetc"
    unfolding uartgetc_def by (intro kinv_kbind kinv_kget kinv_case_list kinv_kret cons_mod [where P = "\<lambda>r w e. unat (w - r) \<le> unat (e - r) \<and> unat (e - r) \<le> 128", folded cons_ok_at]) simp_all
  have "kinv cons_ok (uartintr_loop n)" for n
    by (induction n) (simp_all add: kinv_intros get cons_intr_type)
  moreover have "kinv cons_ok (uartstart_loop n)" for n
    by (induction n) (auto intro!: kinv_intros cons_ok_frame cons_mod [where P = "\<lambda>r w e. unat (w - r) \<le> unat (e - r) \<and> unat (e - r) \<le> 128", folded cons_ok_at])
  ultimately show ?thesis unfolding uartintr_def uartstart_def by (intro kinv_kbind kinv_kget cons_ok_frame) auto
qed

section \<open>Reading\<close>

lemma kbind_Ok: "kbind m f s = Ok a t \<longleftrightarrow> (\<exists>b u. m s = Ok b u \<and> f b u = Ok a t)"
  by (auto simp: kbind_apply split: kres.splits)

lemma sleep_blocked: "sleep (kstop x) ch lk s \<noteq> Ok a t"
  by (auto simp: sleep_def sched_def kbind_Ok kstop_apply)

lemma cons_sleep: "kinv cons_ok away \<Longrightarrow> kinv cons_ok (sleep away ch lk)"
  unfolding sleep_def sched_def intr_get_def r_tp_def
  by (intro kinv_intros cons_ok_frame cons_mod [where P = "\<lambda>r w e. unat (w - r) \<le> unat (e - r) \<and> unat (e - r) \<le> 128", folded cons_ok_at]) simp_all

lemma cons_wait_type:
  "list_all (kinv cons_ok) env \<Longrightarrow> cons_ok s \<Longrightarrow> cons_wait env s = Ok (go, env') t \<Longrightarrow>
   cons_ok t \<and> list_all (kinv cons_ok) env' \<and> (go \<longrightarrow> cons_r t \<noteq> cons_w t)"
proof (induction env arbitrary: s)
  case Nil
  have "cons_ok t" if "curproc s = Ok p u" "killed p u = Ok k v" "release LkCons v = Ok () t" for p k u v
    using that Nil.prems(2) kinvD cons_ok_frame by metis
  then show ?case using Nil.prems by (auto simp: kbind_Ok kget_apply kret_apply sleep_blocked split: if_splits)
next
  case (Cons away env)
  have s: "kinv cons_ok (sleep away ChConsR LkCons)" using Cons.prems(1) by (simp add: cons_sleep)
  show ?case
  proof (cases "cons_r s = cons_w s")
    case False
    then show ?thesis using Cons.prems by (auto simp: kop_simps)
  next
    case True
    then obtain p u k v where 1: "curproc s = Ok p u" "killed p u = Ok k v"
      and 2: "(if k \<noteq> 0 then kseq (release LkCons) (kret (False, env)) else kseq (sleep away ChConsR LkCons) (cons_wait env)) v = Ok (go, env') t"
      using Cons.prems(3) by (auto simp: kbind_Ok kget_apply)
    have v: "cons_ok v" using 1 Cons.prems(2) kinvD cons_ok_frame by metis
    show ?thesis
    proof (cases "k = 0")
      case True
      then obtain w where w: "sleep away ChConsR LkCons v = Ok () w" "cons_wait env w = Ok (go, env') t" using 2 by (auto simp: kbind_Ok)
      then show ?thesis using Cons.IH [OF _ kinvD [OF s w(1) v] w(2)] Cons.prems(1) by simp
    next
      case False
      then have "release LkCons v = Ok () t" "go = False" "env' = env" using 2 by (auto simp: kbind_Ok kret_apply)
      then show ?thesis using kinvD [OF cons_ok_frame(2)] v Cons.prems(1) by auto
    qed
  qed
qed

lemma consoleread_loop_type:
  fixes s :: "'x consstate_scheme"
  shows "list_all (kinv cons_ok) env \<Longrightarrow> cons_ok s \<Longrightarrow> consoleread_loop k n env dst s = Ok res t \<Longrightarrow> cons_ok t"
proof (induction k arbitrary: s env dst res)
  case (Suc k)
  obtain go env' u where w: "cons_wait env s = Ok (go, env') u"
    using Suc.prems(3) by (auto simp: kbind_Ok)
  then have u: "cons_ok u" "list_all (kinv cons_ok) env'" "go \<Longrightarrow> cons_r u \<noteq> cons_w u" using cons_wait_type [OF Suc.prems(1,2) w] by auto
  show ?case
  proof (cases go)
    case False
    then show ?thesis using Suc.prems(3) w u(1) by (simp add: kbind_apply kret_apply)
  next
    case True
    let ?u = "u\<lparr>cons_r := cons_r u + 1\<rparr>" and ?c = "cons_buf u (unat (cons_r u) mod 128)"
    have u1: "cons_ok ?u" using cons_ok_take [OF u(1)] u(3) True by simp
    show ?thesis
    proof (cases "?c = 4")
      case c4: True
      have "t = u\<lparr>cons_r := cons_r u\<rparr> \<or> t = ?u" using Suc.prems(3) w True c4 by (auto simp: kop_simps split: if_splits)
      then show ?thesis using u(1) u1 by auto
    next
      case False
      then obtain r bs v where e: "either_copyout dst [?c] ?u = Ok (r, bs) v"
        and rest: "(if r = -1 then kret (Some (Suc k, []))
         else if ?c = 10 then kret (Some (k, bs))
         else kbind (consoleread_loop k n env' (udst_plus dst 1)) (\<lambda>res.
           kret (map_option (\<lambda>(k, cs). (k, bs @ cs)) res))) v = Ok res t"
        using Suc.prems(3) w True by (auto simp: kbind_Ok kget_apply kmod_apply)
      have "kinv cons_ok (either_copyout dst [?c] :: ('x consstate_scheme, int \<times> byte list) kop)" by (rule cons_ok_frame)
      then have v: "cons_ok v" by (rule kinvD) (rule e, rule u1)
      then show ?thesis using rest Suc.IH [OF u(2) v] by (auto simp: kbind_Ok kret_apply split: if_splits)
    qed
  qed
qed (simp add: kop_simps)

lemma cons_read_type: "list_all (kinv cons_ok) env \<Longrightarrow> kinv cons_ok (consoleread env dst n)"
  unfolding consoleread_def
  by (intro kinv_intros cons_ok_frame) (auto simp: kinv_def [of _ "consoleread_loop _ _ _ _"] intro: consoleread_loop_type)

section \<open>Property\<close>

text \<open>
  C23: The type invariant of the console. In every state whose counters satisfy
  \<open>r \<le> w \<le> e \<le> r + 128\<close> modulo wrap-around, every operation that returns keeps it: the
  interrupt with any character, the UART interrupt with any input, and a read that may sleep
  any number of times while other invariant-keeping operations run. So an index into
  \<open>cons.buf\<close> never runs over unread input.
\<close>

theorem console_type_invariant:
  fixes env :: "('x consstate_scheme, unit) kop list"
  assumes "list_all (kinv cons_ok) env"
  shows "kinv cons_ok (consoleintr c :: ('x consstate_scheme, unit) kop) \<and> kinv cons_ok (uartintr :: ('x consstate_scheme, unit) kop) \<and>
    kinv cons_ok (consoleread env dst n)"
  using cons_intr_type cons_uart_type cons_read_type [OF assms] by blast

theorem console_type_invariant_witness:
  "kinv cons_ok (consoleread [uartintr, consoleintr 13] (ToUser 64) 5 :: (trapstate, int \<times> byte list) kop)"
proof -
  have "list_all (kinv cons_ok) [uartintr, consoleintr 13 :: (trapstate, unit) kop]"
    by (simp add: cons_uart_type cons_intr_type)
  from console_type_invariant [OF this] show ?thesis by blast
qed

end
