(* ===== verification/Umalloc.thy ===== *)
theory Umalloc
  imports Prelude
begin

text \<open>
  The allocator of the user library, \<open>user/umalloc.c\<close>. An address is a number below
  \<open>2 ^ 64\<close>; \<open>hdrs\<close> gives the header stored at an address, and a step of a \<open>Header\<close>
  pointer is 16 bytes. The bytes between the headers are not modelled. \<open>base\<close> is the
  address of the static header, \<open>sbrk\<close> the system call: it may not return (\<open>None\<close>), and
  its failure value is -1. The loops over the circular list may run forever, then the result
  is \<open>None\<close>.
\<close>

record header =
  h_ptr :: nat
  h_size :: nat

record 'os heap =
  hdrs :: "nat \<Rightarrow> header"
  freep :: nat
  os :: 'os

type_synonym 'os sbrk_call = "int \<Rightarrow> 'os \<Rightarrow> (nat \<times> 'os) option"

definition SBRK_FAIL :: nat where
  "SBRK_FAIL = 2 ^ 64 - 1"

text \<open>\<open>p + k\<close> for a \<open>Header *\<close>, and addition of the 32-bit sizes.\<close>

definition hp_add :: "nat \<Rightarrow> nat \<Rightarrow> nat" where
  "hp_add p k = (p + 16 * k) mod 2 ^ 64"

definition add32 :: "nat \<Rightarrow> nat \<Rightarrow> nat" where
  "add32 a b = (a + b) mod 2 ^ 32"

partial_function (option) free_find :: "(nat \<Rightarrow> header) \<Rightarrow> nat \<Rightarrow> nat \<Rightarrow> nat option" where
  "free_find m bp p =
     (if bp > p \<and> bp < h_ptr (m p) then Some p
      else if p \<ge> h_ptr (m p) \<and> (bp > p \<or> bp < h_ptr (m p)) then Some p
      else free_find m bp (h_ptr (m p)))"

text \<open>Linking the block in behind \<open>p\<close>, joined with its neighbours where they touch.\<close>

definition free_next :: "nat \<Rightarrow> nat \<Rightarrow> (nat \<Rightarrow> header) \<Rightarrow> nat \<Rightarrow> header" where
  "free_next bp p m =
     (if hp_add bp (h_size (m bp)) = h_ptr (m p)
      then m(bp := \<lparr>h_ptr = h_ptr (m (h_ptr (m p))), h_size = add32 (h_size (m bp)) (h_size (m (h_ptr (m p))))\<rparr>)
      else m(bp := (m bp)\<lparr>h_ptr := h_ptr (m p)\<rparr>))"

definition free_prev :: "nat \<Rightarrow> nat \<Rightarrow> (nat \<Rightarrow> header) \<Rightarrow> nat \<Rightarrow> header" where
  "free_prev bp p m =
     (if hp_add p (h_size (m p)) = bp
      then m(p := \<lparr>h_ptr = h_ptr (m bp), h_size = add32 (h_size (m p)) (h_size (m bp))\<rparr>)
      else m(p := (m p)\<lparr>h_ptr := bp\<rparr>))"

definition free :: "nat \<Rightarrow> 'os heap \<Rightarrow> 'os heap option" where
  "free ap h =
     (let bp = (ap + 2 ^ 64 - 16) mod 2 ^ 64 in
      case free_find (hdrs h) bp (freep h) of
        None \<Rightarrow> None
      | Some p \<Rightarrow> Some (h\<lparr>hdrs := free_prev bp p (free_next bp p (hdrs h)), freep := p\<rparr>))"

text \<open>The argument of \<open>sbrk\<close> is an \<open>int\<close>.\<close>

definition int32 :: "nat \<Rightarrow> int" where
  "int32 n = sint (word_of_nat n :: 32 word)"

definition morecore :: "'os sbrk_call \<Rightarrow> nat \<Rightarrow> 'os heap \<Rightarrow> (nat \<times> 'os heap) option" where
  "morecore sbrk nu h =
     (let nu = (if nu < 4096 then 4096 else nu) in
      case sbrk (int32 (nu * 16)) (os h) of
        None \<Rightarrow> None
      | Some (p, k) \<Rightarrow>
          let h = h\<lparr>os := k\<rparr> in
          if p = SBRK_FAIL then Some (0, h)
          else let h = h\<lparr>hdrs := (hdrs h)(p := (hdrs h p)\<lparr>h_size := nu\<rparr>)\<rparr> in
            (case free (hp_add p 1) h of None \<Rightarrow> None | Some h \<Rightarrow> Some (freep h, h)))"

text \<open>Taking \<open>nunits\<close> from the block at \<open>p\<close>, which follows \<open>prevp\<close>: all of it or its tail.\<close>

definition malloc_take :: "nat \<Rightarrow> nat \<Rightarrow> nat \<Rightarrow> 'os heap \<Rightarrow> nat \<times> 'os heap" where
  "malloc_take nunits prevp p h =
     (let m = hdrs h in
      if h_size (m p) = nunits
      then (hp_add p 1, h\<lparr>hdrs := m(prevp := (m prevp)\<lparr>h_ptr := h_ptr (m p)\<rparr>), freep := prevp\<rparr>)
      else let m = m(p := (m p)\<lparr>h_size := h_size (m p) - nunits\<rparr>);
               q = hp_add p (h_size (m p));
               m = m(q := (m q)\<lparr>h_size := nunits\<rparr>)
           in (hp_add q 1, h\<lparr>hdrs := m, freep := prevp\<rparr>))"

partial_function (option) malloc_loop :: "'os sbrk_call \<Rightarrow> nat \<Rightarrow> nat \<Rightarrow> nat \<Rightarrow> 'os heap \<Rightarrow> (nat \<times> 'os heap) option" where
  "malloc_loop sbrk nunits prevp p h =
     (if h_size (hdrs h p) \<ge> nunits then Some (malloc_take nunits prevp p h)
      else if p = freep h then
        (case morecore sbrk nunits h of
          None \<Rightarrow> None
        | Some (p, h) \<Rightarrow>
            if p = 0 then Some (0, h) else malloc_loop sbrk nunits p (h_ptr (hdrs h p)) h)
      else malloc_loop sbrk nunits p (h_ptr (hdrs h p)) h)"

definition malloc_units :: "nat \<Rightarrow> nat" where
  "malloc_units nbytes = (nbytes + 16 - 1) div 16 + 1"

definition malloc :: "nat \<Rightarrow> 'os sbrk_call \<Rightarrow> nat \<Rightarrow> 'os heap \<Rightarrow> (nat \<times> 'os heap) option" where
  "malloc base sbrk nbytes h =
     (let nunits = malloc_units nbytes;
          h = (if freep h = 0 then h\<lparr>hdrs := (hdrs h)(base := \<lparr>h_ptr = base, h_size = 0\<rparr>), freep := base\<rparr> else h)
      in malloc_loop sbrk nunits (freep h) (h_ptr (hdrs h (freep h))) h)"

end
