(* ===== verification/Umalloc_List.thy ===== *)
theory Umalloc_List
  imports Umalloc
begin

text \<open>
  The circular free list as a list of addresses in ascending order, beginning with the static
  header, and what \<open>free\<close> and the two ways of taking a block do to it.
\<close>

section \<open>Linked rings\<close>

primrec links :: "(nat \<Rightarrow> header) \<Rightarrow> nat list \<Rightarrow> nat \<Rightarrow> bool" where
  "links m [] z = True"
| "links m (x # xs) z = (h_ptr (m x) = hd (xs @ [z]) \<and> links m xs z)"

lemma links_append: "links m (xs @ ys) z \<longleftrightarrow> links m xs (hd (ys @ [z])) \<and> links m ys z"
  by (induction xs) (auto simp: hd_append)

lemma links_cong: "(\<And>x. x \<in> set xs \<Longrightarrow> h_ptr (m' x) = h_ptr (m x)) \<Longrightarrow> links m' xs z = links m xs z"
  by (induction xs) auto

definition hring :: "(nat \<Rightarrow> header) \<Rightarrow> nat list \<Rightarrow> bool" where
  "hring m L \<longleftrightarrow> L \<noteq> [] \<and> links m L (hd L)"

lemma hring_rotate: "hring m (us @ f # vs) \<Longrightarrow> h_ptr (m f) = hd (vs @ us @ [f]) \<and> links m (vs @ us) f"
  by (cases us) (auto simp: hring_def links_append hd_append)

lemma hring_pred:
  assumes "hring m L" and "q \<in> set L" and "h_ptr (m q) = p" and "p \<noteq> hd L"
  obtains xs ys where "L = xs @ q # p # ys"
proof -
  obtain xs zs where L: "L = xs @ q # zs" using assms(2) by (auto simp: in_set_conv_decomp)
  then have "p = hd (zs @ [hd L])" using assms(1,3) by (simp add: hring_def links_append)
  then obtain ys where "zs = p # ys" using assms(4) by (cases zs) auto
  then show thesis using that L by simp
qed

section \<open>Blocks\<close>

definition region :: "(nat \<Rightarrow> header) \<Rightarrow> nat \<Rightarrow> nat set" where
  "region m a = {a ..< a + 16 * h_size (m a)}"

definition freeset :: "(nat \<Rightarrow> header) \<Rightarrow> nat list \<Rightarrow> nat set" where
  "freeset m L = (\<Union>a\<in>set L. region m a)"

definition apart :: "(nat \<Rightarrow> header) \<Rightarrow> nat \<Rightarrow> nat \<Rightarrow> bool" where
  "apart m a b \<longleftrightarrow> a + 16 * h_size (m a) < b"

definition LIMIT :: nat where
  "LIMIT = 2 ^ 35"

text \<open>The list \<open>L\<close> is the free list of a heap that ends at \<open>brk\<close>.\<close>

definition flist :: "nat \<Rightarrow> nat \<Rightarrow> (nat \<Rightarrow> header) \<Rightarrow> nat list \<Rightarrow> bool" where
  "flist base brk m L \<longleftrightarrow> hring m L \<and> hd L = base \<and> sorted_wrt (apart m) L \<and> 0 < base \<and> base < brk \<and> h_size (m base) = 0 \<and>
     (\<forall>a\<in>set (tl L). 0 < h_size (m a) \<and> a + 16 * h_size (m a) \<le> brk) \<and> brk \<le> LIMIT"

lemma apart_less: "apart m a b \<Longrightarrow> a < b"
  by (simp add: apart_def)

lemma apart_cong: "(\<And>a. a \<in> set L \<Longrightarrow> h_size (m' a) = h_size (m a)) \<Longrightarrow> sorted_wrt (apart m') L = sorted_wrt (apart m) L"
  by (induction L) (auto simp: apart_def)

lemma flist_base: "flist base brk m L \<Longrightarrow> base \<in> set L \<and> L \<noteq> []"
  by (auto simp: flist_def hring_def intro: hd_in_set)

lemma flist_split:
  assumes "flist base brk m (xs @ p # ys)"
  shows "\<And>x. x \<in> set xs \<Longrightarrow> apart m x p" "\<And>y. y \<in> set ys \<Longrightarrow> apart m p y" "\<And>x y. x \<in> set xs \<Longrightarrow> y \<in> set ys \<Longrightarrow> apart m x y"
    "p \<notin> set xs" "p \<notin> set ys" "set xs \<inter> set ys = {}" "base \<le> p"
proof -
  have s: "sorted_wrt (apart m) (xs @ p # ys)" using assms by (simp add: flist_def)
  then show 1: "\<And>x. x \<in> set xs \<Longrightarrow> apart m x p" "\<And>y. y \<in> set ys \<Longrightarrow> apart m p y" "\<And>x y. x \<in> set xs \<Longrightarrow> y \<in> set ys \<Longrightarrow> apart m x y"
    by (auto simp: sorted_wrt_append)
  show "p \<notin> set xs" "p \<notin> set ys" "set xs \<inter> set ys = {}" using 1 apart_less by blast+
  show "base \<le> p" using assms 1(1) by (cases xs) (auto simp: flist_def apart_def)
qed

lemma flist_sizes:
  assumes "flist base brk m L" and "a \<in> set L"
  shows "a + 16 * h_size (m a) \<le> brk" "a \<noteq> base \<Longrightarrow> 0 < h_size (m a)" "base \<le> a" "h_size (m a) < 2 ^ 32" "a < brk"
proof -
  have "a = base \<or> a \<in> set (tl L)" using assms by (cases L) (auto simp: flist_def hring_def)
  then show t: "a + 16 * h_size (m a) \<le> brk" and "a \<noteq> base \<Longrightarrow> 0 < h_size (m a)" using assms(1) by (auto simp: flist_def)
  obtain xs ys where "L = xs @ a # ys" using assms(2) by (auto simp: in_set_conv_decomp)
  then show "base \<le> a" using flist_split(7) assms(1) by blast
  show "h_size (m a) < 2 ^ 32" using t assms(1) by (simp add: flist_def LIMIT_def)
  show "a < brk" using t \<open>a = base \<or> a \<in> set (tl L)\<close> assms(1) by (auto simp: flist_def)
qed

text \<open>Pointers into a heap do not wrap around.\<close>

lemma hp_add_small: "p + 16 * k \<le> LIMIT \<Longrightarrow> hp_add p k = p + 16 * k"
  by (simp add: hp_add_def LIMIT_def)

section \<open>Finding the place of a block\<close>

lemma find_here:
  assumes "flist base brk m (xs @ p # ys)" and "p < bp" and "ys = [] \<or> bp < hd ys"
  shows "free_find m bp p = Some p"
proof -
  have "h_ptr (m p) = hd (ys @ [base])" using assms(1) by (auto simp: flist_def hring_def links_append)
  then show ?thesis using assms(2,3) flist_split(7) [OF assms(1)] by (subst free_find.simps) (cases ys, auto)
qed

lemma find_before:
  assumes "flist base brk m (zs @ us @ p # ys)" and "p < bp" and "ys = [] \<or> bp < hd ys"
  shows "free_find m bp (hd (us @ [p])) = Some p"
  using assms(1)
proof (induction us arbitrary: zs)
  case Nil
  then show ?case using find_here [of base brk m zs] assms(2,3) by simp
next
  case (Cons u us)
  let ?v = "hd (us @ [p])"
  have n: "h_ptr (m u) = ?v" using Cons.prems by (simp add: flist_def hring_def links_append hd_append)
  have v: "?v \<in> set (us @ p # ys)" "?v = p \<or> ?v \<in> set us" by (cases us; simp)+
  have "apart m u ?v" using flist_split(2) [of base brk m zs u "us @ p # ys"] Cons.prems v(1) by simp
  moreover have "?v = p \<or> apart m ?v p" using flist_split(1) [of base brk m "zs @ u # us" p ys ?v] Cons.prems v(2) by auto
  ultimately have "u < ?v" "?v \<le> p" using apart_less by (blast, metis less_imp_le order_refl)
  then have "free_find m bp u = free_find m bp ?v" using assms(2) n by (subst free_find.simps) auto
  then show ?case using Cons.IH [of "zs @ [u]"] Cons.prems by simp
qed

lemma find_after:
  assumes "flist base brk m (xs @ p # zs @ vs)" and "p < bp" and "base < bp" and "\<forall>y\<in>set (zs @ vs). bp < y"
  shows "free_find m bp (hd (vs @ [base])) = Some p"
  using assms(1,4)
proof (induction vs arbitrary: zs)
  case Nil
  have "hd (xs @ [p]) = base" using Nil.prems(1) by (cases xs) (auto simp: flist_def)
  then show ?case using find_before [of base brk m "[]" xs p zs bp] Nil.prems assms(2) by (cases zs) auto
next
  case (Cons v vs)
  have n: "h_ptr (m v) = hd (vs @ [base])" using Cons.prems(1) by (auto simp: flist_def hring_def links_append)
  have "bp < v" using Cons.prems(2) by simp
  moreover have "vs = [] \<or> v < hd (vs @ [base])"
    using flist_split(2) [of base brk m "xs @ p # zs" v vs] Cons.prems(1) apart_less by (cases vs) auto
  ultimately have "free_find m bp v = free_find m bp (hd (vs @ [base]))"
    using n assms(3) by (subst free_find.simps) (cases vs, auto)
  then show ?case using Cons.IH [of "zs @ [v]"] Cons.prems by simp
qed

lemma free_find_ok:
  assumes "flist base brk m (xs @ p # ys)" and "p < bp" and "base < bp" and "\<forall>y\<in>set ys. bp < y" and "q \<in> set (xs @ p # ys)"
  shows "free_find m bp q = Some p"
proof -
  have ys: "ys = [] \<or> bp < hd ys" using assms(4) by (cases ys) auto
  consider us vs where "xs = us @ q # vs" | "q = p" | us vs where "ys = us @ q # vs" using assms(5) by (auto simp: in_set_conv_decomp)
  then show ?thesis
  proof cases
    case 1
    then show ?thesis using find_before [of base brk m us "q # vs" p ys bp] assms(1,2) ys by simp
  next
    case 2
    then show ?thesis using find_here [OF assms(1,2) ys] by simp
  next
    case 3
    then show ?thesis using find_after [of base brk m xs p us "q # vs" bp] assms by simp
  qed
qed

section \<open>Linking a block in\<close>

lemma place:
  assumes "flist base brk m L" and "base < bp" and "0 < n" and "{bp ..< bp + 16 * n} \<inter> freeset m L = {}"
  obtains xs p ys where "L = xs @ p # ys" "p < bp" "p + 16 * h_size (m p) \<le> bp" "\<forall>y\<in>set ys. bp + 16 * n \<le> y" "bp \<notin> set L"
proof -
  have dis: "a + 16 * h_size (m a) \<le> bp" if "a \<in> set L" "a < bp" for a
  proof (rule ccontr)
    assume "\<not> a + 16 * h_size (m a) \<le> bp"
    then have "bp \<in> {bp ..< bp + 16 * n} \<inter> region m a" using that(2) assms(3) by (simp add: region_def)
    then show False using assms(4) that(1) unfolding freeset_def by blast
  qed
  have up: "bp + 16 * n \<le> a" if "a \<in> set L" "\<not> a < bp" for a
  proof (rule ccontr)
    assume "\<not> bp + 16 * n \<le> a"
    moreover have "0 < h_size (m a)" using flist_sizes(2) [OF assms(1) that(1)] that(2) assms(2) by auto
    ultimately have "a \<in> {bp ..< bp + 16 * n} \<inter> region m a" using that(2) by (simp add: region_def)
    then show False using assms(4) that(1) unfolding freeset_def by blast
  qed
  let ?ws = "takeWhile (\<lambda>a. a < bp) L"
  have "hd L < bp" "L \<noteq> []" using assms(1,2) flist_base by (auto simp: flist_def)
  then have ne: "?ws \<noteq> []" by (cases L) auto
  have L: "L = butlast ?ws @ last ?ws # dropWhile (\<lambda>a. a < bp) L" 
    using append_butlast_last_id [OF ne] takeWhile_dropWhile_id [of "\<lambda>a. a < bp" L] by (metis append_assoc append_Cons append_Nil)
  have p: "last ?ws \<in> set L" "last ?ws < bp" using last_in_set [OF ne] set_takeWhileD by fastforce+
  have ys: "\<forall>y\<in>set (dropWhile (\<lambda>a. a < bp) L). \<not> y < bp"
  proof (cases "dropWhile (\<lambda>a. a < bp) L")
    case (Cons y ys)
    then have "\<not> y < bp" by (metis hd_dropWhile list.distinct(1) list.sel(1))
    moreover have "\<forall>z\<in>set ys. y < z" using flist_split(2) [of base brk m "takeWhile (\<lambda>a. a < bp) L" y ys] assms(1) Cons apart_less takeWhile_dropWhile_id by metis
    ultimately show ?thesis unfolding Cons by auto
  next
    case Nil
    then show ?thesis by (simp only: list.set) simp
  qed
  have "bp \<notin> set L" using up assms(3) by fastforce
  moreover have "\<forall>y\<in>set (dropWhile (\<lambda>a. a < bp) L). bp + 16 * n \<le> y" using ys up set_dropWhileD by metis
  ultimately show thesis using that [OF L p(2) dis [OF p]] by blast
qed

lemma freeset_append [simp]: "freeset m (xs @ ys) = freeset m xs \<union> freeset m ys"
  by (auto simp: freeset_def)

lemma freeset_Cons: "freeset m (x # ys) = region m x \<union> freeset m ys"
  by (simp add: freeset_def)

lemma freeset_cong: "(\<And>a. a \<in> set L \<Longrightarrow> h_size (m' a) = h_size (m a)) \<Longrightarrow> freeset m' L = freeset m L"
  by (auto simp: freeset_def region_def)

lemma free_next_ok:
  assumes "flist base brk m (xs @ p # ys)" and "p < bp" and "base < bp" and "0 < h_size (m bp)"
    and "\<forall>y\<in>set ys. bp + 16 * h_size (m bp) \<le> y" and "bp + 16 * h_size (m bp) \<le> brk"
  obtains nb zs rest where "free_next bp p m = m(bp := \<lparr>h_ptr = hd (rest @ [base]), h_size = nb\<rparr>)"
    "ys = zs @ rest" "\<forall>y\<in>set rest. bp + 16 * nb < y" "0 < nb" "bp + 16 * nb \<le> brk"
    "{bp ..< bp + 16 * nb} \<union> freeset m rest = region m bp \<union> freeset m ys"
proof -
  let ?n = "h_size (m bp)"
  have lim: "brk \<le> LIMIT" using assms(1) by (simp add: flist_def)
  have add: "hp_add bp ?n = bp + 16 * ?n" using assms(6) lim by (intro hp_add_small) simp
  have p: "h_ptr (m p) = hd (ys @ [base])" using assms(1) by (auto simp: flist_def hring_def links_append)
  show thesis
  proof (cases "ys \<noteq> [] \<and> bp + 16 * ?n = hd ys")
    case True
    then obtain y rest where ys: "ys = y # rest" and y: "y = bp + 16 * ?n" by (cases ys) auto
    have sy: "y + 16 * h_size (m y) \<le> brk" using flist_sizes(1) [OF assms(1), of y] ys by simp
    have "h_ptr (m y) = hd (rest @ [base])" using assms(1) by (auto simp: ys flist_def hring_def links_append)
    moreover have "add32 ?n (h_size (m y)) = ?n + h_size (m y)" using sy y lim by (simp add: add32_def LIMIT_def)
    ultimately have "free_next bp p m = m(bp := \<lparr>h_ptr = hd (rest @ [base]), h_size = ?n + h_size (m y)\<rparr>)"
      using add p ys y by (simp add: free_next_def)
    moreover have "\<forall>z\<in>set rest. bp + 16 * (?n + h_size (m y)) < z"
    proof
      fix z assume "z \<in> set rest"
      then have "apart m y z" using flist_split(2) [of base brk m "xs @ [p]" y rest] assms(1) ys by simp
      moreover have "bp + 16 * (?n + h_size (m y)) = y + 16 * h_size (m y)" by (simp add: y add_mult_distrib2)
      ultimately show "bp + 16 * (?n + h_size (m y)) < z" by (simp only: apart_def)
    qed
    moreover have "{bp ..< bp + 16 * (?n + h_size (m y))} \<union> freeset m rest = region m bp \<union> freeset m ys"
      using y by (auto simp: ys freeset_Cons region_def)
    ultimately show thesis using that [of rest "?n + h_size (m y)" "[y]"] ys sy y assms(4) by simp
  next
    case False
    then have ne: "bp + 16 * ?n \<noteq> h_ptr (m p)" using p assms(3) by (cases ys) auto
    have "free_next bp p m = m(bp := \<lparr>h_ptr = hd (ys @ [base]), h_size = ?n\<rparr>)"
      using add ne p by (cases "m bp") (simp add: free_next_def)
    moreover have "\<forall>y\<in>set ys. bp + 16 * ?n < y"
    proof (cases ys)
      case (Cons y zs)
      then have "bp + 16 * ?n < y" using False assms(5) by (metis le_neq_implies_less list.sel(1) list.set_intros(1) list.distinct(1))
      moreover have "\<forall>z\<in>set zs. y < z" using flist_split(2) [of base brk m "xs @ [p]" y zs] assms(1) Cons by (auto intro: apart_less)
      ultimately show ?thesis using Cons by auto
    qed simp
    ultimately show thesis using that [of ys ?n "[]"] assms(4,6) by (simp add: region_def)
  qed
qed

lemma hring_replace:
  assumes "hring m (xs @ p # zs @ rest)" and "\<And>a. a \<in> set xs \<union> set rest \<Longrightarrow> h_ptr (m' a) = h_ptr (m a)"
    and "links m' (p # mid) (hd (rest @ [hd (xs @ [p])]))"
  shows "hring m' (xs @ p # mid @ rest)"
proof -
  have h: "hd (xs @ p # ws) = hd (xs @ [p])" for ws by (cases xs) simp_all
  let ?b = "hd (xs @ [p])"
  have "links m (xs @ (p # zs) @ rest) ?b" using assms(1) h [of "zs @ rest"] by (simp add: hring_def)
  then have "links m xs p" "links m rest ?b" unfolding links_append by simp_all
  then have "links m' xs p" "links m' rest ?b" using assms(2) links_cong [of xs m' m] links_cong [of rest m' m] by simp_all
  then have "links m' (xs @ (p # mid) @ rest) ?b" unfolding links_append using assms(3) by simp
  then show ?thesis using h [of "mid @ rest"] by (simp add: hring_def)
qed

lemma flistI:
  assumes "flist base brk m L" and "hring m' L'" and "hd L' = base" and "sorted_wrt (apart m') L'" and "h_size (m' base) = 0"
    and "\<forall>a\<in>set (tl L'). 0 < h_size (m' a) \<and> a + 16 * h_size (m' a) \<le> brk"
  shows "flist base brk m' L'"
  using assms by (simp add: flist_def)

lemma free_prev_ok:
  assumes "flist base brk m (xs @ p # zs @ rest)" and "p < bp" and "base < bp" and "p + 16 * h_size (m p) \<le> bp"
    and "m1 = m(bp := \<lparr>h_ptr = hd (rest @ [base]), h_size = nb\<rparr>)" and "\<forall>y\<in>set rest. bp + 16 * nb < y"
    and "0 < nb" and "bp + 16 * nb \<le> brk" and "bp \<notin> set (xs @ p # zs @ rest)"
  shows "\<exists>L. flist base brk (free_prev bp p m1) L \<and> p \<in> set L \<and>
    freeset (free_prev bp p m1) L = freeset m (xs @ [p]) \<union> {bp ..< bp + 16 * nb} \<union> freeset m rest"
proof -
  note sp = flist_split [OF assms(1)]
  let ?m2 = "free_prev bp p m1"
  have lim: "brk \<le> LIMIT" using assms(1) by (simp add: flist_def)
  have hd: "hd (xs @ p # ws) = base" for ws using assms(1) by (cases xs) (auto simp: flist_def)
  have add: "hp_add p (h_size (m1 p)) = p + 16 * h_size (m p)"
    using assms(2,4,5,7,8) lim by (subst hp_add_small) auto
  have out: "m1 a = m a" "?m2 a = m a" if "a \<in> set xs \<union> set rest" for a
    using that assms(5,9) sp(4,5) by (auto simp: free_prev_def)
  have srt: "sorted_wrt (apart m) xs" "sorted_wrt (apart m) rest" using assms(1) by (auto simp: flist_def sorted_wrt_append)
  have srt2: "sorted_wrt (apart ?m2) xs" "sorted_wrt (apart ?m2) rest" using srt out(2) apart_cong [of xs ?m2 m] apart_cong [of rest ?m2 m] by auto
  have ap: "apart ?m2 x b = apart m x b" if "x \<in> set xs" for x b using out(2) that by (simp add: apart_def)
  have xp: "\<And>x. x \<in> set xs \<Longrightarrow> apart m x p" and xr: "\<And>x y. x \<in> set xs \<Longrightarrow> y \<in> set rest \<Longrightarrow> apart m x y"
    and pr: "\<And>y. y \<in> set rest \<Longrightarrow> p + 16 * h_size (m p) < y" using sp(1-3) by (auto simp: apart_def [of m p])
  have xb: "\<And>x. x \<in> set xs \<Longrightarrow> apart m x bp" using xp assms(2) unfolding apart_def by (meson less_trans)
  have tl_sizes: "\<forall>a\<in>set (tl (xs @ p # rest)). 0 < h_size (m a) \<and> a + 16 * h_size (m a) \<le> brk"
    using assms(1) by (cases xs) (auto simp: flist_def)
  show ?thesis
  proof (cases "p + 16 * h_size (m p) = bp")
    case True
    then have pb: "p \<noteq> base" using assms(1,3) by (auto simp: flist_def)
    then obtain x xs' where xs: "xs = x # xs'" "x = base" using hd [of rest] by (cases xs) auto
    have "add32 (h_size (m p)) nb = h_size (m p) + nb" using assms(8) lim True by (simp add: add32_def LIMIT_def)
    then have m2: "?m2 p = \<lparr>h_ptr = hd (rest @ [base]), h_size = h_size (m p) + nb\<rparr>"
      using add True assms(2,5) by (simp add: free_prev_def)
    have "hring ?m2 (xs @ p # [] @ rest)"
      by (rule hring_replace [of m xs p zs]) (use assms(1) out(2) m2 hd [of "[]"] in \<open>auto simp: flist_def\<close>)
    moreover have "sorted_wrt (apart ?m2) (xs @ p # rest)"
      using srt2 ap xp xr assms(6) True m2 by (auto simp: sorted_wrt_append apart_def [of ?m2 p])
    moreover have "\<forall>a\<in>set (tl (xs @ p # rest)). 0 < h_size (?m2 a) \<and> a + 16 * h_size (?m2 a) \<le> brk"
      using tl_sizes m2 assms(7,8) out(2) True by (cases xs) (auto simp: add_mult_distrib2)
    moreover have "h_size (?m2 base) = 0" using out(2) [of base] xs assms(1) by (simp add: flist_def)
    ultimately have "flist base brk ?m2 (xs @ p # rest)" using flistI [OF assms(1), of ?m2] hd by simp
    moreover have "freeset ?m2 (xs @ p # rest) = freeset m (xs @ [p]) \<union> {bp ..< bp + 16 * nb} \<union> freeset m rest"
      using freeset_cong [of xs ?m2 m] freeset_cong [of rest ?m2 m] out(2) m2 True
      by (auto simp: freeset_Cons region_def add_mult_distrib2) (auto simp: freeset_def)
    ultimately show ?thesis by (intro exI [of _ "xs @ p # rest"]) simp
  next
    case False
    have m2: "?m2 p = \<lparr>h_ptr = bp, h_size = h_size (m p)\<rparr>" "?m2 bp = \<lparr>h_ptr = hd (rest @ [base]), h_size = nb\<rparr>"
      using add False assms(2,5) by (cases "m p", auto simp: free_prev_def)
    have "hring ?m2 (xs @ p # [bp] @ rest)"
      by (rule hring_replace [of m xs p zs]) (use assms(1) out(2) m2 hd [of "[]"] in \<open>auto simp: flist_def\<close>)
    moreover have "sorted_wrt (apart ?m2) (xs @ p # bp # rest)"
      using srt2 ap xp xr xb pr assms(4,6) False m2 by (auto simp: sorted_wrt_append apart_def [of ?m2 p] apart_def [of ?m2 bp])
    moreover have "\<forall>a\<in>set (tl (xs @ p # bp # rest)). 0 < h_size (?m2 a) \<and> a + 16 * h_size (?m2 a) \<le> brk"
      using tl_sizes m2 assms(7,8) out(2) by (cases xs) auto
    moreover have "h_size (?m2 base) = 0" using out(2) [of base] m2 hd [of "[]"] assms(1) by (cases xs) (auto simp: flist_def)
    ultimately have "flist base brk ?m2 (xs @ p # bp # rest)" using flistI [OF assms(1), of ?m2] hd by simp
    moreover have "freeset ?m2 (xs @ p # bp # rest) = freeset m (xs @ [p]) \<union> {bp ..< bp + 16 * nb} \<union> freeset m rest"
      using freeset_cong [of xs ?m2 m] freeset_cong [of rest ?m2 m] out(2) m2
      by (auto simp: freeset_Cons region_def) (auto simp: freeset_def)
    ultimately show ?thesis by (intro exI [of _ "xs @ p # bp # rest"]) simp
  qed
qed

lemma free_ok:
  assumes "flist base brk (hdrs h) L" and "freep h \<in> set L" and "base < bp" and "0 < h_size (hdrs h bp)"
    and "region (hdrs h) bp \<inter> freeset (hdrs h) L = {}" and "bp + 16 * h_size (hdrs h bp) \<le> brk"
  shows "\<exists>h' L'. free (hp_add bp 1) h = Some h' \<and> flist base brk (hdrs h') L' \<and> freep h' \<in> set L' \<and>
    freeset (hdrs h') L' = freeset (hdrs h) L \<union> region (hdrs h) bp \<and> os h' = os h \<and>
    (\<forall>a. a \<noteq> bp \<longrightarrow> a \<notin> set L \<longrightarrow> hdrs h' a = hdrs h a)"
proof -
  let ?m = "hdrs h"
  have lim: "brk \<le> LIMIT" using assms(1) by (simp add: flist_def)
  obtain xs p ys where L: "L = xs @ p # ys" "p < bp" "p + 16 * h_size (?m p) \<le> bp" "\<forall>y\<in>set ys. bp + 16 * h_size (?m bp) \<le> y" "bp \<notin> set L"
    by (rule place [OF assms(1,3,4) assms(5) [unfolded region_def]])
  obtain nb zs rest where n: "free_next bp p ?m = ?m(bp := \<lparr>h_ptr = hd (rest @ [base]), h_size = nb\<rparr>)" "ys = zs @ rest"
    "\<forall>y\<in>set rest. bp + 16 * nb < y" "0 < nb" "bp + 16 * nb \<le> brk" "{bp ..< bp + 16 * nb} \<union> freeset ?m rest = region ?m bp \<union> freeset ?m ys"
    by (rule free_next_ok [OF assms(1) [unfolded L(1)] L(2) assms(3,4) L(4) assms(6)])
  let ?m2 = "free_prev bp p (free_next bp p ?m)"
  obtain L' where L': "flist base brk ?m2 L'" "p \<in> set L'" "freeset ?m2 L' = freeset ?m (xs @ [p]) \<union> {bp ..< bp + 16 * nb} \<union> freeset ?m rest"
    using free_prev_ok [OF assms(1) [unfolded L(1) n(2)] L(2) assms(3) L(3) n(1) n(3-5)] L(5) unfolding L(1) n(2) by blast
  have "bp < LIMIT" using assms(4,6) lim by linarith
  then have "(hp_add bp 1 + 2 ^ 64 - 16) mod 2 ^ 64 = bp" by (simp add: hp_add_def LIMIT_def)
  moreover have "free_find ?m bp (freep h) = Some p"
  proof (rule free_find_ok [OF assms(1) [unfolded L(1)] L(2) assms(3)])
    show "\<forall>y\<in>set ys. bp < y" using L(4) assms(4) by auto
    show "freep h \<in> set (xs @ p # ys)" using assms(2) L(1) by simp
  qed
  ultimately have "free (hp_add bp 1) h = Some (h\<lparr>hdrs := ?m2, freep := p\<rparr>)" by (simp add: free_def)
  moreover have "freeset ?m2 L' = freeset ?m L \<union> region ?m bp"
  proof -
    have "freeset ?m2 L' = freeset ?m (xs @ [p]) \<union> ({bp ..< bp + 16 * nb} \<union> freeset ?m rest)" unfolding L'(3) by (simp only: Un_assoc)
    also have "\<dots> = freeset ?m L \<union> region ?m bp" unfolding n(6) L(1) by (simp add: freeset_Cons freeset_def [of _ "[]"] Un_ac)
    finally show ?thesis .
  qed
  moreover have "\<forall>a. a \<noteq> bp \<longrightarrow> a \<notin> set L \<longrightarrow> ?m2 a = ?m a" using n(1) L(1) by (simp add: free_prev_def)
  ultimately show ?thesis using L'(1,2) by (intro exI [of _ "h\<lparr>hdrs := ?m2, freep := p\<rparr>"] exI [of _ L']) simp
qed

section \<open>Taking a block\<close>

lemma region_disjoint:
  assumes "flist base brk m L" and "a \<in> set L" and "b \<in> set L" and "a \<noteq> b"
  shows "region m a \<inter> region m b = {}"
proof -
  have *: "region m a \<inter> region m b = {}" if ab: "a \<in> set L" "b \<in> set L" "a < b" for a b
  proof -
    obtain xs ys where L: "L = xs @ a # ys" using ab(1) by (auto simp: in_set_conv_decomp)
    have "b \<notin> set xs" using flist_split(1) [OF assms(1) [unfolded L], of b] ab(3) by (auto simp: apart_def)
    then have "apart m a b" using flist_split(2) [OF assms(1) [unfolded L], of b] ab(2,3) L by auto
    then show ?thesis by (auto simp: apart_def region_def)
  qed
  show ?thesis using * [of a b] * [of b a] assms(2-4) by (cases "a < b") auto
qed

lemma freeset_remove:
  assumes "flist base brk m (xs @ p # ys)"
  shows "freeset m (xs @ ys) = freeset m (xs @ p # ys) - region m p"
proof -
  have "region m p \<inter> region m x = {}" if "x \<in> set (xs @ ys)" for x
    using region_disjoint [OF assms, of p x] flist_split(4,5) [OF assms] that by auto
  then show ?thesis by (auto simp: freeset_def)
qed

lemma take_exact:
  assumes "flist base brk m (xs @ q # p # ys)" and "m' = m(q := (m q)\<lparr>h_ptr := h_ptr (m p)\<rparr>)"
  shows "flist base brk m' (xs @ q # ys)" "freeset m' (xs @ q # ys) = freeset m (xs @ q # p # ys) - region m p"
proof -
  have sz: "h_size (m' a) = h_size (m a)" for a using assms(2) by simp
  have hd: "hd (xs @ q # ws) = base" for ws using assms(1) by (cases xs) (auto simp: flist_def)
  have hr: "hring m (xs @ q # [p] @ ys)" using assms(1) by (simp add: flist_def)
  then have np: "h_ptr (m p) = hd (ys @ [base])" using hd [of "p # ys"] by (simp add: hring_def links_append)
  have "q \<notin> set xs" "q \<notin> set ys" using flist_split(4,5) [OF assms(1)] by auto
  then have pt: "h_ptr (m' a) = h_ptr (m a)" if "a \<in> set xs \<union> set ys" for a using that assms(2) by auto
  have "links m' [q] (hd (ys @ [hd (xs @ [q])]))" using np hd [of "[]"] by (simp add: assms(2))
  then have "hring m' (xs @ q # [] @ ys)" using hring_replace [of m xs q "[p]" ys m' "[]"] hr pt by blast
  moreover have "apart m' = apart m" by (simp add: fun_eq_iff apart_def sz)
  then have "sorted_wrt (apart m') (xs @ q # ys)" using assms(1) by (simp add: flist_def sorted_wrt_append)
  moreover have "\<forall>a\<in>set (tl (xs @ q # ys)). 0 < h_size (m' a) \<and> a + 16 * h_size (m' a) \<le> brk"
    using assms(1) sz by (cases xs) (auto simp: flist_def)
  moreover have "h_size (m' base) = 0" using assms(1) sz by (simp add: flist_def)
  ultimately show "flist base brk m' (xs @ q # ys)" using hd by (intro flistI [OF assms(1)]) simp_all
  show "freeset m' (xs @ q # ys) = freeset m (xs @ q # p # ys) - region m p"
    using freeset_remove [of base brk m "xs @ [q]" p ys] assms(1) freeset_cong [of "xs @ q # ys" m' m] sz by simp
qed

lemma take_tail:
  assumes "flist base brk m L" and "p \<in> set L" and "0 < k" and "k < h_size (m p)"
    and "a = p + 16 * (h_size (m p) - k)" and "m' = m(p := (m p)\<lparr>h_size := h_size (m p) - k\<rparr>, a := (m a)\<lparr>h_size := k\<rparr>)"
  shows "flist base brk m' L" "freeset m' L = freeset m L - {a ..< a + 16 * k}" "{a ..< a + 16 * k} \<subseteq> region m p" "a \<notin> set L"
proof -
  have a: "a \<in> region m p" "a \<noteq> p" using assms(3-5) by (auto simp: region_def)
  have "p \<noteq> base" using assms(1,4) by (auto simp: flist_def)
  show sub: "{a ..< a + 16 * k} \<subseteq> region m p" using assms(3-5) by (auto simp: region_def)
  show nL: "a \<notin> set L"
  proof
    assume aL: "a \<in> set L"
    have "base \<le> p" using flist_sizes(3) [OF assms(1,2)] .
    then have "a \<noteq> base" using a by (auto simp: region_def)
    then have "a \<in> region m a" using flist_sizes(2) [OF assms(1) aL] by (simp add: region_def)
    then show False using region_disjoint [OF assms(1,2) aL] a by blast
  qed
  have pt: "h_ptr (m' x) = h_ptr (m x)" and sz: "x \<noteq> p \<Longrightarrow> h_size (m' x) = h_size (m x)" if "x \<in> set L" for x
    using that nL assms(6) by auto
  have szp: "h_size (m' p) = h_size (m p) - k" using assms(6) a(2) by simp
  have le: "h_size (m' x) \<le> h_size (m x)" if "x \<in> set L" for x using that sz szp by (cases "x = p") auto
  have "sorted_wrt (apart m') L"
  proof (rule sorted_wrt_mono_rel)
    show "sorted_wrt (apart m) L" using assms(1) by (simp add: flist_def)
    show "apart m' x y" if "x \<in> set L" "apart m x y" for x y using le [OF that(1)] that(2) by (simp add: apart_def)
  qed
  moreover have "hring m' L" using assms(1) pt links_cong [of L m' m] by (auto simp: flist_def hring_def)
  moreover have "\<forall>x\<in>set (tl L). 0 < h_size (m' x) \<and> x + 16 * h_size (m' x) \<le> brk"
  proof
    fix x assume "x \<in> set (tl L)"
    then have x: "x \<in> set L" "0 < h_size (m x)" "x + 16 * h_size (m x) \<le> brk" using assms(1) by (cases L; auto simp: flist_def)+
    have "x + 16 * h_size (m' x) \<le> x + 16 * h_size (m x)" using le [OF x(1)] by simp
    then show "0 < h_size (m' x) \<and> x + 16 * h_size (m' x) \<le> brk" using x sz szp assms(4) by (cases "x = p") auto
  qed
  moreover have "h_size (m' base) = 0" using sz [of base] flist_base [OF assms(1)] \<open>p \<noteq> base\<close> assms(1) by (simp add: flist_def)
  ultimately show "flist base brk m' L" using assms(1) by (simp add: flist_def)
  have r: "region m' x = region m x - {a ..< a + 16 * k}" if "x \<in> set L" for x
  proof (cases "x = p")
    case True
    then show ?thesis using szp assms(3-5) by (auto simp: region_def)
  next
    case False
    then show ?thesis using sz [OF that] sub region_disjoint [OF assms(1) that assms(2) False] by (auto simp: region_def)
  qed
  then show "freeset m' L = freeset m L - {a ..< a + 16 * k}" by (auto simp: freeset_def)
qed

end
