(* ===== verification/Umalloc_Correct.thy ===== *)
theory Umalloc_Correct
  imports Umalloc_List
begin

text \<open>
  \<open>malloc\<close> and \<open>free\<close> over a system that keeps the contract of \<open>sbrk\<close>: in every sequence
  of calls the blocks that are in use stay apart from each other and from the free list.
\<close>

section \<open>Searching\<close>

definition heap_ok :: "nat \<Rightarrow> nat \<Rightarrow> 'os heap \<Rightarrow> nat list \<Rightarrow> bool" where
  "heap_ok base brk h L \<longleftrightarrow> flist base brk (hdrs h) L \<and> freep h \<in> set L"

lemma search_fit:
  assumes "h_ptr (hdrs h prev) = hd (W @ [freep h])" and "links (hdrs h) W (freep h)" and "freep h \<notin> set W"
    and "\<exists>x\<in>set (W @ [freep h]). k \<le> h_size (hdrs h x)"
  shows "\<exists>q p. q \<in> insert prev (set (W @ [freep h])) \<and> p \<in> set (W @ [freep h]) \<and> h_ptr (hdrs h q) = p \<and> k \<le> h_size (hdrs h p) \<and>
    malloc_loop sbrk k prev (hd (W @ [freep h])) h = Some (malloc_take k q p h)"
  using assms
proof (induction W arbitrary: prev)
  case Nil
  then show ?case by (intro exI [of _ prev] exI [of _ "freep h"]) (simp add: malloc_loop.simps)
next
  case (Cons w W)
  show ?case
  proof (cases "k \<le> h_size (hdrs h w)")
    case True
    then show ?thesis using Cons.prems(1) by (intro exI [of _ prev] exI [of _ w]) (simp add: malloc_loop.simps)
  next
    case False
    then have "malloc_loop sbrk k prev w h = malloc_loop sbrk k w (hd (W @ [freep h])) h"
      using Cons.prems(2,3) by (subst malloc_loop.simps) auto
    then show ?thesis using Cons.IH [of w] Cons.prems(2-4) False by auto
  qed
qed

lemma search_none:
  assumes "links (hdrs h) W (freep h)" and "freep h \<notin> set W" and "\<forall>x\<in>set (W @ [freep h]). \<not> k \<le> h_size (hdrs h x)"
  shows "malloc_loop sbrk k prev (hd (W @ [freep h])) h =
    (case morecore sbrk k h of None \<Rightarrow> None
     | Some (p, h) \<Rightarrow> if p = 0 then Some (0, h) else malloc_loop sbrk k p (h_ptr (hdrs h p)) h)"
  using assms
proof (induction W arbitrary: prev)
  case Nil
  then show ?case by (subst malloc_loop.simps) simp
next
  case (Cons w W)
  then have "malloc_loop sbrk k prev w h = malloc_loop sbrk k w (hd (W @ [freep h])) h"
    by (subst malloc_loop.simps) auto
  then show ?case using Cons.IH Cons.prems by auto
qed

lemma heap_rotate:
  assumes "heap_ok base brk h L"
  obtains W where "h_ptr (hdrs h (freep h)) = hd (W @ [freep h])" "links (hdrs h) W (freep h)" "freep h \<notin> set W"
    "set L = set (W @ [freep h])"
proof -
  obtain us vs where L: "L = us @ freep h # vs" using assms by (auto simp: heap_ok_def in_set_conv_decomp)
  have f: "flist base brk (hdrs h) (us @ freep h # vs)" using assms L by (simp add: heap_ok_def)
  have "h_ptr (hdrs h (freep h)) = hd (vs @ us @ [freep h]) \<and> links (hdrs h) (vs @ us) (freep h)"
    using f by (intro hring_rotate) (simp add: flist_def)
  moreover have "freep h \<notin> set (vs @ us)" using flist_split(4,5) [OF f] by simp
  ultimately show thesis using that [of "vs @ us"] L by auto
qed

section \<open>Taking and growing\<close>

text \<open>The block of \<open>k\<close> units at \<open>a\<close> has been taken from the free list \<open>L\<close>.\<close>

definition taken :: "nat \<Rightarrow> nat \<Rightarrow> nat \<Rightarrow> nat \<Rightarrow> 'os heap \<Rightarrow> nat list \<Rightarrow> 'os heap \<Rightarrow> nat list \<Rightarrow> bool" where
  "taken base brk k a h L h' L' \<longleftrightarrow> heap_ok base brk h' L' \<and> h_size (hdrs h' a) = k \<and> {a ..< a + 16 * k} \<subseteq> freeset (hdrs h) L \<and>
     freeset (hdrs h') L' = freeset (hdrs h) L - {a ..< a + 16 * k} \<and> base < a \<and> a + 16 * k \<le> brk \<and> os h' = os h \<and>
     (\<forall>b. b \<notin> freeset (hdrs h) L \<longrightarrow> b \<noteq> base \<longrightarrow> hdrs h' b = hdrs h b)"

lemma member_freeset: "flist base brk m L \<Longrightarrow> a \<in> set L \<Longrightarrow> a \<noteq> base \<Longrightarrow> a \<in> freeset m L"
  using flist_sizes(2) by (fastforce simp: freeset_def region_def)

lemma malloc_take_ok:
  assumes "heap_ok base brk h L" and "q \<in> set L" and "p \<in> set L" and "h_ptr (hdrs h q) = p" and "0 < k" and "k \<le> h_size (hdrs h p)"
  shows "\<exists>a h' L'. malloc_take k q p h = (hp_add a 1, h') \<and> taken base brk k a h L h' L'"
proof -
  let ?m = "hdrs h"
  have fl: "flist base brk ?m L" and lim: "brk \<le> LIMIT" using assms(1) by (simp_all add: heap_ok_def flist_def)
  have "p \<noteq> base" using assms(5,6) fl by (auto simp: flist_def)
  then have pb: "p \<noteq> hd L" "base < p" using fl flist_sizes(3) [OF fl assms(3)] by (auto simp: flist_def)
  have reg: "region ?m p \<subseteq> freeset ?m L" using assms(3) by (auto simp: freeset_def)
  have top: "p + 16 * h_size (?m p) \<le> brk" using flist_sizes(1) [OF fl assms(3)] .
  have out: "b \<noteq> x" if "b \<notin> freeset ?m L" "b \<noteq> base" "x \<in> set L" for b x using member_freeset [OF fl that(3)] that by auto
  show ?thesis
  proof (cases "h_size (?m p) = k")
    case True
    obtain xs ys where L: "L = xs @ q # p # ys"
      by (rule hring_pred [of ?m L q p]) (use fl assms(2,4) pb(1) in \<open>auto simp: flist_def\<close>)
    define h' where "h' = h\<lparr>hdrs := ?m(q := (?m q)\<lparr>h_ptr := h_ptr (?m p)\<rparr>), freep := q\<rparr>"
    have t: "flist base brk (hdrs h') (xs @ q # ys)" "freeset (hdrs h') (xs @ q # ys) = freeset ?m L - region ?m p"
      using take_exact [of base brk ?m xs q p ys "hdrs h'"] fl L by (simp_all add: h'_def)
    have "p \<noteq> q" using flist_split(5) [of base brk ?m xs q "p # ys"] fl L by auto
    then have "taken base brk k p h L h' (xs @ q # ys)"
      using t reg True pb(2) top out assms(2) by (auto simp: taken_def heap_ok_def region_def h'_def)
    moreover have "malloc_take k q p h = (hp_add p 1, h')" using True by (simp add: malloc_take_def h'_def Let_def)
    ultimately show ?thesis by blast
  next
    case False
    then have less: "k < h_size (?m p)" using assms(6) by simp
    define a where "a = p + 16 * (h_size (?m p) - k)"
    define m' where "m' = ?m(p := (?m p)\<lparr>h_size := h_size (?m p) - k\<rparr>, a := (?m a)\<lparr>h_size := k\<rparr>)"
    note t = take_tail [OF fl assms(3,5) less a_def m'_def]
    have ap: "a \<noteq> p" "p < a" using less by (simp_all add: a_def)
    have "16 * (h_size (?m p) - k) + 16 * k = 16 * h_size (?m p)" using less by simp
    then have ak: "a + 16 * k = p + 16 * h_size (?m p)" unfolding a_def by simp
    have "hp_add p (h_size (?m p) - k) = a" using top lim less unfolding a_def by (intro hp_add_small) linarith
    then have e: "malloc_take k q p h = (hp_add a 1, h\<lparr>hdrs := m', freep := q\<rparr>)" using False ap(1) by (simp add: malloc_take_def m'_def Let_def)
    have "a \<in> freeset ?m L" using t(3) reg assms(5) by force
    then have fr: "\<forall>b. b \<notin> freeset ?m L \<longrightarrow> b \<noteq> base \<longrightarrow> m' b = ?m b" using out assms(3) unfolding m'_def by auto
    have "h_size (m' a) = k" by (simp add: m'_def)
    then have "taken base brk k a h L (h\<lparr>hdrs := m', freep := q\<rparr>) L"
      using t(1-3) reg fr ap pb(2) ak top assms(2) by (auto simp: taken_def heap_ok_def)
    then show ?thesis using e by blast
  qed
qed

lemma loop_fit:
  assumes "heap_ok base brk h L" and "0 < k" and "\<exists>x\<in>set L. k \<le> h_size (hdrs h x)"
  shows "\<exists>a h' L'. malloc_loop sbrk k (freep h) (h_ptr (hdrs h (freep h))) h = Some (hp_add a 1, h') \<and> taken base brk k a h L h' L'"
proof -
  obtain W where W: "h_ptr (hdrs h (freep h)) = hd (W @ [freep h])" "links (hdrs h) W (freep h)" "freep h \<notin> set W" "set L = set (W @ [freep h])"
    by (rule heap_rotate [OF assms(1)])
  obtain q p where q: "q \<in> set L" "p \<in> set L" "h_ptr (hdrs h q) = p" "k \<le> h_size (hdrs h p)"
    "malloc_loop sbrk k (freep h) (hd (W @ [freep h])) h = Some (malloc_take k q p h)"
    using search_fit [OF W(1-3), of k sbrk] assms(3) W(4) by auto
  show ?thesis using malloc_take_ok [OF assms(1) q(1-3) assms(2) q(4)] q(5) W(1) by auto
qed

section \<open>The system call\<close>

text \<open>
  What \<open>sbrk\<close> promises: a positive request either fails with -1 and changes nothing, or
  moves the end of the data segment up by that much and returns the old end. The end stays
  below \<open>LIMIT\<close>, far above the physical memory of the machine. \<open>brk_of\<close> reads the end off
  the system's state.
\<close>

definition sbrk_contract :: "('os \<Rightarrow> nat) \<Rightarrow> 'os sbrk_call \<Rightarrow> bool" where
  "sbrk_contract brk_of sbrk \<longleftrightarrow>
     (\<forall>n k. 0 < n \<longrightarrow> (\<exists>p k'. sbrk n k = Some (p, k') \<and>
       (p = SBRK_FAIL \<and> brk_of k' = brk_of k \<or> p = brk_of k \<and> brk_of k' = brk_of k + nat n \<and> brk_of k' \<le> LIMIT)))"

definition grow :: "nat \<Rightarrow> nat" where
  "grow k = (if k < 4096 then 4096 else k)"

lemma int32_small: "n < 2 ^ 31 \<Longrightarrow> int32 n = int n"
  by (simp add: int32_def signed_of_nat signed_take_bit_int_eq_self)

text \<open>The free list after \<open>morecore\<close>, which adds the new memory to it.\<close>

lemma flist_brk: "flist base brk m L \<Longrightarrow> brk \<le> brk' \<Longrightarrow> brk' \<le> LIMIT \<Longrightarrow> flist base brk' m L"
  by (fastforce simp: flist_def)

lemma flist_cong:
  assumes "\<And>a. a \<in> set L \<Longrightarrow> m' a = m a" and "flist base brk m L"
  shows "flist base brk m' L"
proof -
  have "base \<in> set L" "\<And>a. a \<in> set (tl L) \<Longrightarrow> a \<in> set L" using flist_base [OF assms(2)] by (auto dest: list.set_sel(2) [rotated])
  then show ?thesis
    using assms links_cong [of L m' m] apart_cong [of L m' m] by (auto simp: flist_def hring_def)
qed

lemma freeset_below: "flist base brk m L \<Longrightarrow> x \<in> freeset m L \<Longrightarrow> x < brk"
  using flist_sizes(1) by (fastforce simp: freeset_def region_def)

lemma morecore_ok:
  assumes "sbrk_contract brk_of sbrk" and "heap_ok base (brk_of (os h)) h L" and "16 * grow k < 2 ^ 31"
  shows "(\<exists>h'. morecore sbrk k h = Some (0, h') \<and> hdrs h' = hdrs h \<and> freep h' = freep h \<and> brk_of (os h') = brk_of (os h)) \<or>
    (\<exists>h' L'. morecore sbrk k h = Some (freep h', h') \<and> freep h' \<noteq> 0 \<and> heap_ok base (brk_of (os h')) h' L' \<and>
       brk_of (os h') = brk_of (os h) + 16 * grow k \<and>
       freeset (hdrs h') L' = freeset (hdrs h) L \<union> {brk_of (os h) ..< brk_of (os h')} \<and>
       (\<forall>b. b \<noteq> brk_of (os h) \<longrightarrow> b \<notin> set L \<longrightarrow> hdrs h' b = hdrs h b))"
proof -
  let ?b = "brk_of (os h)" and ?n = "grow k"
  have n: "int32 (grow k * 16) = int (16 * grow k)" "0 < grow k" using assms(3) int32_small [of "grow k * 16"] by (simp_all add: grow_def mult.commute)
  obtain p o' where s: "sbrk (int (16 * ?n)) (os h) = Some (p, o')"
    and cases: "p = SBRK_FAIL \<and> brk_of o' = ?b \<or> p = ?b \<and> brk_of o' = ?b + 16 * ?n \<and> brk_of o' \<le> LIMIT"
    using assms(1) n(2) unfolding sbrk_contract_def by (metis nat_int of_nat_0_less_iff nat_0_less_mult_iff zero_less_numeral)
  have mc: "morecore sbrk k h = (let h = h\<lparr>os := o'\<rparr> in
          if p = SBRK_FAIL then Some (0, h)
          else let h = h\<lparr>hdrs := (hdrs h)(p := (hdrs h p)\<lparr>h_size := ?n\<rparr>)\<rparr> in
            (case free (hp_add p 1) h of None \<Rightarrow> None | Some h \<Rightarrow> Some (freep h, h)))"
    unfolding morecore_def grow_def [symmetric] n(1) using s by (simp add: Let_def n(1))
  show ?thesis
  proof (cases "p = SBRK_FAIL")
    case True
    have "brk_of o' = ?b" using cases True by (auto simp: SBRK_FAIL_def LIMIT_def)
    then show ?thesis using True mc by simp
  next
    case False
    then have c: "p = ?b" "brk_of o' = ?b + 16 * ?n" "brk_of o' \<le> LIMIT" using cases by auto
    let ?h = "h\<lparr>os := o', hdrs := (hdrs h)(?b := (hdrs h ?b)\<lparr>h_size := ?n\<rparr>)\<rparr>"
    have fl: "flist base ?b (hdrs h) L" "freep h \<in> set L" using assms(2) by (simp_all add: heap_ok_def)
    have nb: "?b \<notin> set L" using flist_sizes(5) [OF fl(1)] by blast
    have same: "\<And>a. a \<in> set L \<Longrightarrow> hdrs ?h a = hdrs h a" using nb by auto
    have fl2: "flist base (brk_of o') (hdrs ?h) L"
      by (rule flist_cong [OF same flist_brk [OF fl(1)]]) (use c in simp_all)
    have fs: "freeset (hdrs ?h) L = freeset (hdrs h) L" using same by (intro freeset_cong) simp
    have rg: "region (hdrs ?h) ?b = {?b ..< brk_of o'}" using c(2) by (simp add: region_def)
    have dis: "region (hdrs ?h) ?b \<inter> freeset (hdrs ?h) L = {}" unfolding rg fs using freeset_below [OF fl(1)] by fastforce
    obtain h' L' where f: "free (hp_add ?b 1) ?h = Some h'" "flist base (brk_of o') (hdrs h') L'" "freep h' \<in> set L'"
      "freeset (hdrs h') L' = freeset (hdrs ?h) L \<union> region (hdrs ?h) ?b" "os h' = o'"
      "\<forall>a. a \<noteq> ?b \<longrightarrow> a \<notin> set L \<longrightarrow> hdrs h' a = hdrs ?h a"
      using free_ok [of base "brk_of o'" ?h L ?b] fl2 fl(2) dis n(2) c(2) flist_base [OF fl(1)] flist_sizes(5) [OF fl(1)] by auto
    have "freep h' \<noteq> 0" using flist_sizes(3) [OF f(2,3)] f(2) by (auto simp: flist_def)
    moreover have "morecore sbrk k h = Some (freep h', h')" using mc False c(1) f(1) by (simp add: Let_def)
    ultimately show ?thesis using f c(2) unfolding rg fs by (intro disjI2 exI [of _ h'] exI [of _ L']) (auto simp: heap_ok_def)
  qed
qed

section \<open>The whole of malloc\<close>

lemma malloc_units_bound: "0 < malloc_units n" "n \<le> 16 * (malloc_units n - 1)" "malloc_units n \<le> n div 16 + 2"
  by (simp_all add: malloc_units_def)

text \<open>The heap before a call: not yet init_heap, or with a free list.\<close>

definition init_heap :: "nat \<Rightarrow> 'os heap \<Rightarrow> 'os heap" where
  "init_heap base h = (if freep h = 0 then h\<lparr>hdrs := (hdrs h)(base := \<lparr>h_ptr = base, h_size = 0\<rparr>), freep := base\<rparr> else h)"

definition uheap :: "('os \<Rightarrow> nat) \<Rightarrow> nat \<Rightarrow> 'os heap \<Rightarrow> nat list \<Rightarrow> bool" where
  "uheap brk_of base h L \<longleftrightarrow> (if freep h = 0 then L = [] \<and> 0 < base \<and> base < brk_of (os h) \<and> brk_of (os h) \<le> LIMIT
     else heap_ok base (brk_of (os h)) h L)"

lemma init_heap_ok:
  assumes "uheap brk_of base h L"
  shows "\<exists>L'. heap_ok base (brk_of (os h)) (init_heap base h) L' \<and> freeset (hdrs (init_heap base h)) L' = freeset (hdrs h) L \<and>
    os (init_heap base h) = os h \<and> (\<forall>b. b \<noteq> base \<longrightarrow> hdrs (init_heap base h) b = hdrs h b)"
proof (cases "freep h = 0")
  case True
  then have "heap_ok base (brk_of (os h)) (init_heap base h) [base]" "L = []"
    using assms by (simp_all add: uheap_def init_heap_def heap_ok_def flist_def hring_def)
  then show ?thesis using True by (intro exI [of _ "[base]"]) (simp add: init_heap_def freeset_def region_def)
next
  case False
  then show ?thesis using assms by (intro exI [of _ L]) (simp add: uheap_def init_heap_def)
qed

text \<open>What a successful call gives: a block of fresh or formerly free memory, big enough.\<close>

definition gives :: "('os \<Rightarrow> nat) \<Rightarrow> nat \<Rightarrow> nat \<Rightarrow> nat \<Rightarrow> 'os heap \<Rightarrow> nat list \<Rightarrow> 'os heap \<Rightarrow> nat list \<Rightarrow> bool" where
  "gives brk_of base k a h L h' L' \<longleftrightarrow> uheap brk_of base h' L' \<and> freep h' \<noteq> 0 \<and> h_size (hdrs h' a) = k \<and>
     base < a \<and> a + 16 * k \<le> brk_of (os h') \<and> brk_of (os h) \<le> brk_of (os h') \<and>
     {a ..< a + 16 * k} \<subseteq> freeset (hdrs h) L \<union> {brk_of (os h) ..< brk_of (os h')} \<and>
     freeset (hdrs h') L' = freeset (hdrs h) L \<union> {brk_of (os h) ..< brk_of (os h')} - {a ..< a + 16 * k} \<and>
     (\<forall>b. b \<notin> freeset (hdrs h) L \<longrightarrow> b \<noteq> base \<longrightarrow> b < brk_of (os h) \<longrightarrow> hdrs h' b = hdrs h b)"

lemma taken_gives:
  assumes "taken base (brk_of (os h)) k a h L h' L'"
  shows "gives brk_of base k a h L h' L'"
proof -
  have "freep h' \<noteq> 0" using assms flist_sizes(3) [of base "brk_of (os h)" "hdrs h'" L' "freep h'"] by (auto simp: taken_def heap_ok_def flist_def)
  then show ?thesis using assms by (auto simp: taken_def gives_def uheap_def)
qed

lemma gives_trans:
  assumes "heap_ok base (brk_of (os h)) h L" and "gives brk_of base k a h1 L1 h' L'"
    and "brk_of (os h) \<le> brk_of (os h1)" and "freeset (hdrs h1) L1 = freeset (hdrs h) L \<union> {brk_of (os h) ..< brk_of (os h1)}"
    and "\<forall>b. b \<noteq> brk_of (os h) \<longrightarrow> b \<notin> set L \<longrightarrow> hdrs h1 b = hdrs h b"
  shows "gives brk_of base k a h L h' L'"
proof -
  have le: "brk_of (os h1) \<le> brk_of (os h')" using assms(2) by (simp add: gives_def)
  have u: "freeset (hdrs h1) L1 \<union> {brk_of (os h1) ..< brk_of (os h')} = freeset (hdrs h) L \<union> {brk_of (os h) ..< brk_of (os h')}"
    using assms(3) le unfolding assms(4) by auto
  have "hdrs h' b = hdrs h b" if b: "b \<notin> freeset (hdrs h) L" "b \<noteq> base" "b < brk_of (os h)" for b
  proof -
    have "b \<notin> set L" using member_freeset b(1,2) assms(1) by (auto simp: heap_ok_def)
    then have "hdrs h1 b = hdrs h b" using assms(5) b(3) by auto
    moreover have "b \<notin> freeset (hdrs h1) L1" "b < brk_of (os h1)" using b assms(3,4) by auto
    ultimately show ?thesis using assms(2) b(2) by (simp add: gives_def)
  qed
  then show ?thesis using assms(2,3) le u by (simp add: gives_def)
qed

text \<open>Blocks that touch are joined, so an interval of free memory lies within one block.\<close>

lemma flist_order: "flist base brk m L \<Longrightarrow> x \<in> set L \<Longrightarrow> y \<in> set L \<Longrightarrow> x < y \<Longrightarrow> apart m x y"
proof -
  assume f: "flist base brk m L" and x: "x \<in> set L" and y: "y \<in> set L" and l: "x < y"
  obtain us vs where L: "L = us @ x # vs" using x by (auto simp: in_set_conv_decomp)
  have "y \<notin> set us" using flist_split(1) [OF f [unfolded L], of y] l by (auto simp: apart_def)
  then show ?thesis using flist_split(2) [OF f [unfolded L], of y] y l L by auto
qed

lemma interval_one_block:
  assumes "flist base brk m L" and "{b ..< e} \<subseteq> freeset m L" and "b < e"
  shows "\<exists>x\<in>set L. x \<le> b \<and> e \<le> x + 16 * h_size (m x)"
proof -
  have "b \<in> freeset m L" using assms(2,3) by auto
  then obtain x where x: "x \<in> set L" "x \<le> b" "b < x + 16 * h_size (m x)" by (auto simp: freeset_def region_def)
  moreover have "e \<le> x + 16 * h_size (m x)"
  proof (rule ccontr)
    let ?z = "x + 16 * h_size (m x)"
    assume "\<not> e \<le> ?z"
    then have "?z \<in> freeset m L" using assms(2) x(2,3) by auto
    then obtain y where y: "y \<in> set L" "y \<le> ?z" "?z < y + 16 * h_size (m y)" by (auto simp: freeset_def region_def)
    then show False
      using flist_order [OF assms(1) x(1) y(1)] flist_order [OF assms(1) y(1) x(1)] by (cases x y rule: linorder_cases) (auto simp: apart_def)
  qed
  ultimately show ?thesis by blast
qed

lemma malloc_loop_ok:
  assumes "sbrk_contract brk_of sbrk" and "heap_ok base (brk_of (os h)) h L" and "0 < k" and "16 * grow k < 2 ^ 31"
  shows "(\<exists>h'. malloc_loop sbrk k (freep h) (h_ptr (hdrs h (freep h))) h = Some (0, h') \<and>
      hdrs h' = hdrs h \<and> freep h' = freep h \<and> brk_of (os h') = brk_of (os h)) \<or>
    (\<exists>a h' L'. malloc_loop sbrk k (freep h) (h_ptr (hdrs h (freep h))) h = Some (hp_add a 1, h') \<and> gives brk_of base k a h L h' L')"
proof (cases "\<exists>x\<in>set L. k \<le> h_size (hdrs h x)")
  case True
  then show ?thesis using loop_fit [OF assms(2,3) True, of sbrk] taken_gives by blast
next
  case False
  obtain W where W: "h_ptr (hdrs h (freep h)) = hd (W @ [freep h])" "links (hdrs h) W (freep h)" "freep h \<notin> set W" "set L = set (W @ [freep h])"
    by (rule heap_rotate [OF assms(2)])
  have step: "malloc_loop sbrk k (freep h) (h_ptr (hdrs h (freep h))) h =
    (case morecore sbrk k h of None \<Rightarrow> None
     | Some (p, h) \<Rightarrow> if p = 0 then Some (0, h) else malloc_loop sbrk k p (h_ptr (hdrs h p)) h)"
    unfolding W(1) using search_none [OF W(2,3), of k sbrk "freep h"] False W(4) by simp
  from morecore_ok [OF assms(1,2,4)] show ?thesis
  proof (elim disjE exE conjE, goal_cases)
    case (1 h')
    then show ?thesis using step by auto
  next
    case (2 h1 L1)
    have "flist base (brk_of (os h1)) (hdrs h1) L1" "{brk_of (os h) ..< brk_of (os h1)} \<subseteq> freeset (hdrs h1) L1" "brk_of (os h) < brk_of (os h1)"
      using 2(3-5) assms(3) by (auto simp: heap_ok_def grow_def)
    then obtain x where x: "x \<in> set L1" "x \<le> brk_of (os h)" "brk_of (os h) + 16 * grow k \<le> x + 16 * h_size (hdrs h1 x)"
      using interval_one_block 2(4) by metis
    moreover have "k \<le> h_size (hdrs h1 x)" using x(2,3) by (simp add: grow_def split: if_splits)
    ultimately have "\<exists>x\<in>set L1. k \<le> h_size (hdrs h1 x)" by blast
    then obtain a h' L' where "malloc_loop sbrk k (freep h1) (h_ptr (hdrs h1 (freep h1))) h1 = Some (hp_add a 1, h')" "gives brk_of base k a h1 L1 h' L'"
      using loop_fit [OF 2(3) assms(3), of sbrk] taken_gives by blast
    moreover have "gives brk_of base k a h L h' L'" using gives_trans [OF assms(2) calculation(2)] 2(4-6) by simp
    ultimately show ?thesis using step 2(1,2) by auto
  qed
qed

text \<open>Requests below 2 GB: the argument of \<open>sbrk\<close> does not turn negative.\<close>

definition MAXREQ :: nat where
  "MAXREQ = 2 ^ 31 - 64"

lemma grow_units: "n \<le> MAXREQ \<Longrightarrow> 16 * grow (malloc_units n) < 2 ^ 31"
proof -
  assume "n \<le> MAXREQ"
  moreover have "16 * malloc_units n \<le> n + 32" by (simp add: malloc_units_def)
  ultimately show ?thesis by (simp add: grow_def MAXREQ_def)
qed

lemma malloc_ok:
  assumes "sbrk_contract brk_of sbrk" and "uheap brk_of base h L" and "n \<le> MAXREQ"
  shows "(\<exists>h' L'. malloc base sbrk n h = Some (0, h') \<and> uheap brk_of base h' L' \<and> freeset (hdrs h') L' = freeset (hdrs h) L \<and>
      brk_of (os h') = brk_of (os h) \<and> freep h' \<noteq> 0 \<and> (\<forall>b. b \<noteq> base \<longrightarrow> hdrs h' b = hdrs h b)) \<or>
    (\<exists>a h' L'. malloc base sbrk n h = Some (a + 16, h') \<and> gives brk_of base (malloc_units n) a h L h' L')"
proof -
  let ?s = "init_heap base h" and ?k = "malloc_units n"
  obtain L1 where s: "heap_ok base (brk_of (os h)) ?s L1" "freeset (hdrs ?s) L1 = freeset (hdrs h) L" "os ?s = os h"
    "\<forall>b. b \<noteq> base \<longrightarrow> hdrs ?s b = hdrs h b" using init_heap_ok [OF assms(2)] by blast
  have m: "malloc base sbrk n h = malloc_loop sbrk ?k (freep ?s) (h_ptr (hdrs ?s (freep ?s))) ?s"
    by (simp add: malloc_def init_heap_def Let_def)
  have s1: "heap_ok base (brk_of (os ?s)) ?s L1" using s(1,3) by simp
  have nz: "freep ?s \<noteq> 0" using s(1) flist_sizes(3) [of base "brk_of (os h)" "hdrs ?s" L1 "freep ?s"] by (auto simp: heap_ok_def flist_def)
  from malloc_loop_ok [OF assms(1) s1 malloc_units_bound(1) grow_units [OF assms(3)]] show ?thesis
  proof (elim disjE exE conjE, goal_cases)
    case (1 h')
    then have "uheap brk_of base h' L1" using s1 nz by (simp add: uheap_def heap_ok_def)
    then show ?thesis using 1 m s nz by (intro disjI1 exI [of _ h'] exI [of _ L1]) simp
  next
    case (2 a h' L')
    then have g: "gives brk_of base ?k a h L h' L'" using s(2-4) by (simp add: gives_def)
    then have "a + 16 * ?k \<le> LIMIT" "0 < ?k" using malloc_units_bound(1) by (auto simp: gives_def uheap_def heap_ok_def flist_def)
    then have "a + 16 * 1 \<le> LIMIT" by linarith
    then have "hp_add a 1 = a + 16" using hp_add_small [of a 1] by simp
    then show ?thesis using 2 m g by auto
  qed
qed

section \<open>Programs that allocate\<close>

text \<open>
  The states a program reaches by allocating, freeing what it holds and storing into the
  blocks it holds. A live block is its header's address and its size in units. A store may
  put anything at the addresses behind the header.
\<close>

inductive reach :: "('os \<Rightarrow> nat) \<Rightarrow> 'os sbrk_call \<Rightarrow> nat \<Rightarrow> 'os heap \<Rightarrow> (nat \<times> nat) set \<Rightarrow> bool"
  for brk_of sbrk base where
  start: "freep h = 0 \<Longrightarrow> 0 < base \<Longrightarrow> base < brk_of (os h) \<Longrightarrow> brk_of (os h) \<le> LIMIT \<Longrightarrow> reach brk_of sbrk base h {}"
| alloc: "reach brk_of sbrk base h live \<Longrightarrow> n \<le> MAXREQ \<Longrightarrow> malloc base sbrk n h = Some (p, h') \<Longrightarrow> p \<noteq> 0 \<Longrightarrow>
    reach brk_of sbrk base h' (insert (p - 16, malloc_units n) live)"
| no_memory: "reach brk_of sbrk base h live \<Longrightarrow> n \<le> MAXREQ \<Longrightarrow> malloc base sbrk n h = Some (0, h') \<Longrightarrow> reach brk_of sbrk base h' live"
| release: "reach brk_of sbrk base h live \<Longrightarrow> (a, k) \<in> live \<Longrightarrow> free (a + 16) h = Some h' \<Longrightarrow> reach brk_of sbrk base h' (live - {(a, k)})"
| store: "reach brk_of sbrk base h live \<Longrightarrow> (a, k) \<in> live \<Longrightarrow> (\<And>b. b \<notin> {a <..< a + 16 * k} \<Longrightarrow> m b = hdrs h b) \<Longrightarrow>
    reach brk_of sbrk base (h\<lparr>hdrs := m\<rparr>) live"

definition block :: "nat \<times> nat \<Rightarrow> nat set" where
  "block b = {fst b ..< fst b + 16 * snd b}"

definition live_ok :: "('os \<Rightarrow> nat) \<Rightarrow> nat \<Rightarrow> 'os heap \<Rightarrow> nat list \<Rightarrow> (nat \<times> nat) set \<Rightarrow> bool" where
  "live_ok brk_of base h L live \<longleftrightarrow> uheap brk_of base h L \<and> (live \<noteq> {} \<longrightarrow> freep h \<noteq> 0) \<and>
     (\<forall>(a, k)\<in>live. 0 < k \<and> base < a \<and> a + 16 * k \<le> brk_of (os h) \<and> h_size (hdrs h a) = k) \<and>
     (\<forall>b\<in>live. block b \<inter> freeset (hdrs h) L = {}) \<and> (\<forall>b\<in>live. \<forall>c\<in>live. b \<noteq> c \<longrightarrow> block b \<inter> block c = {})"

lemma live_okD:
  assumes "live_ok brk_of base h L live" and "(a, k) \<in> live"
  shows "uheap brk_of base h L" "0 < k" "base < a" "a + 16 * k \<le> brk_of (os h)" "h_size (hdrs h a) = k" "freep h \<noteq> 0"
    "block (a, k) \<inter> freeset (hdrs h) L = {}" "\<And>b. b \<in> live \<Longrightarrow> b \<noteq> (a, k) \<Longrightarrow> block b \<inter> block (a, k) = {}" "a \<in> block (a, k)"
proof -
  have "\<forall>(a, k)\<in>live. 0 < k \<and> base < a \<and> a + 16 * k \<le> brk_of (os h) \<and> h_size (hdrs h a) = k"
    using assms(1) by (simp add: live_ok_def)
  from bspec [OF this assms(2)] show "0 < k" "base < a" "a + 16 * k \<le> brk_of (os h)" "h_size (hdrs h a) = k" "a \<in> block (a, k)" by (simp_all add: block_def)
  show "uheap brk_of base h L" "freep h \<noteq> 0" using assms by (auto simp: live_ok_def)
  show "block (a, k) \<inter> freeset (hdrs h) L = {}" using assms by (simp add: live_ok_def)
  show "block b \<inter> block (a, k) = {}" if "b \<in> live" "b \<noteq> (a, k)" for b using assms that by (simp add: live_ok_def)
qed

lemma live_okI:
  assumes "uheap brk_of base h L" and "freep h \<noteq> 0"
    and "\<And>a k. (a, k) \<in> live \<Longrightarrow> 0 < k \<and> base < a \<and> a + 16 * k \<le> brk_of (os h) \<and> h_size (hdrs h a) = k"
    and "\<And>b. b \<in> live \<Longrightarrow> block b \<inter> freeset (hdrs h) L = {}"
    and "\<And>b c. b \<in> live \<Longrightarrow> c \<in> live \<Longrightarrow> b \<noteq> c \<Longrightarrow> block b \<inter> block c = {}"
  shows "live_ok brk_of base h L live"
proof -
  have "\<forall>(a, k)\<in>live. 0 < k \<and> base < a \<and> a + 16 * k \<le> brk_of (os h) \<and> h_size (hdrs h a) = k" using assms(3) by (intro ballI) (clarify, blast)
  then show ?thesis unfolding live_ok_def using assms(1,2,4,5) by simp
qed

lemma live_disjoint: "live_ok brk_of base h L live \<Longrightarrow> b \<in> live \<Longrightarrow> c \<in> live \<Longrightarrow> b \<noteq> c \<Longrightarrow> block b \<inter> block c = {}"
  by (simp add: live_ok_def)

lemma live_below:
  assumes "live_ok brk_of base h L live" and "b \<in> live"
  shows "block b \<inter> freeset (hdrs h) L = {}" "block b \<subseteq> {..< brk_of (os h)}"
proof -
  have b: "(fst b, snd b) \<in> live" using assms(2) by simp
  show "block b \<inter> freeset (hdrs h) L = {}" using live_okD(7) [OF assms(1) b] by simp
  show "block b \<subseteq> {..< brk_of (os h)}" using live_okD(4) [OF assms(1) b] by (auto simp: block_def)
qed

lemma live_same:
  assumes "live_ok brk_of base h L live" and "uheap brk_of base h' L'" and "freep h' \<noteq> 0" and "brk_of (os h) \<le> brk_of (os h')"
    and "freeset (hdrs h') L' \<subseteq> freeset (hdrs h) L \<union> {brk_of (os h) ..}" and "live' \<subseteq> live"
    and "\<And>a k. (a, k) \<in> live' \<Longrightarrow> hdrs h' a = hdrs h a"
  shows "live_ok brk_of base h' L' live'"
proof (rule live_okI)
  fix b assume "b \<in> live'"
  then have "block b \<inter> freeset (hdrs h) L = {}" "block b \<subseteq> {..< brk_of (os h)}"
    using live_below [OF assms(1)] assms(6) by blast+
  then show "block b \<inter> freeset (hdrs h') L' = {}" using assms(5) by fastforce
next
  fix a k assume a: "(a, k) \<in> live'"
  then show "0 < k \<and> base < a \<and> a + 16 * k \<le> brk_of (os h') \<and> h_size (hdrs h' a) = k"
    using live_okD(2-5) [OF assms(1), of a k] assms(4,6) assms(7) [OF a] by (metis order_trans subsetD)
next
  fix b c assume "b \<in> live'" "c \<in> live'" "b \<noteq> c"
  then show "block b \<inter> block c = {}" using live_disjoint [OF assms(1)] assms(6) by blast
qed (rule assms(2,3))+

lemma live_header:
  assumes "live_ok brk_of base h L live" and "(a, k) \<in> live"
  shows "a \<notin> freeset (hdrs h) L" "a \<noteq> base" "a < brk_of (os h)"
  using live_okD(2-4,7,9) [OF assms] by (blast, simp, simp)

lemma free_live:
  assumes "live_ok brk_of base h L live" and "(a, k) \<in> live"
  shows "\<exists>h' L'. free (a + 16) h = Some h' \<and> live_ok brk_of base h' L' (live - {(a, k)}) \<and>
    freeset (hdrs h') L' = freeset (hdrs h) L \<union> block (a, k) \<and> os h' = os h"
proof -
  note D = live_okD [OF assms]
  have fl: "flist base (brk_of (os h)) (hdrs h) L" "freep h \<in> set L" and lim: "brk_of (os h) \<le> LIMIT"
    using D(1,6) by (auto simp: uheap_def heap_ok_def flist_def)
  have r: "region (hdrs h) a = block (a, k)" using D(5) by (simp add: region_def block_def)
  obtain h' L' where f: "free (hp_add a 1) h = Some h'" "flist base (brk_of (os h)) (hdrs h') L'" "freep h' \<in> set L'"
    "freeset (hdrs h') L' = freeset (hdrs h) L \<union> block (a, k)" "os h' = os h" "\<forall>b. b \<noteq> a \<longrightarrow> b \<notin> set L \<longrightarrow> hdrs h' b = hdrs h b"
    using free_ok [OF fl D(3), unfolded r D(5), OF D(2,7,4)] by blast
  have "hp_add a 1 = a + 16" using D(2,4) lim hp_add_small [of a 1] by simp
  moreover have "freep h' \<noteq> 0" using flist_sizes(3) [OF f(2,3)] f(2) by (auto simp: flist_def)
  moreover have "live_ok brk_of base h' L' (live - {(a, k)})"
  proof -
    have other: "hdrs h' b = hdrs h b \<and> block (b, l) \<inter> freeset (hdrs h') L' = {}" if "(b, l) \<in> live - {(a, k)}" for b l
    proof -
      have b: "(b, l) \<in> live" "(b, l) \<noteq> (a, k)" using that by auto
      have i: "block (b, l) \<inter> block (a, k) = {}" using D(8) [OF b] .
      then have "b \<noteq> a" using live_okD(9) [OF assms(1) b(1)] D(9) by blast
      moreover have "b \<notin> set L" using live_header [OF assms(1) b(1)] member_freeset [OF fl(1)] by blast
      ultimately show ?thesis using f(4,6) i live_okD(7) [OF assms(1) b(1)] by blast
    qed
    have hi: "uheap brk_of base h' L'" using f(2,3,5) \<open>freep h' \<noteq> 0\<close> by (simp add: uheap_def heap_ok_def)
    show ?thesis
    proof (rule live_okI [OF hi \<open>freep h' \<noteq> 0\<close>])
      show "0 < l \<and> base < b \<and> b + 16 * l \<le> brk_of (os h') \<and> h_size (hdrs h' b) = l" if "(b, l) \<in> live - {(a, k)}" for b l
        using live_okD(2-5) [OF assms(1), of b l] that other [OF that] f(5) by simp
      show "block b \<inter> freeset (hdrs h') L' = {}" if "b \<in> live - {(a, k)}" for b using other [of "fst b" "snd b"] that by simp
      show "block b \<inter> block c = {}" if "b \<in> live - {(a, k)}" "c \<in> live - {(a, k)}" "b \<noteq> c" for b c
        using live_disjoint [OF assms(1)] that by blast
    qed
  qed
  ultimately show ?thesis using f(1,4,5) by auto
qed

lemma alloc_live:
  assumes "live_ok brk_of base h L live" and "gives brk_of base k a h L h' L'" and "0 < k"
  shows "live_ok brk_of base h' L' (insert (a, k) live)" "(a, k) \<notin> live" "\<And>b. b \<in> live \<Longrightarrow> block (a, k) \<inter> block b = {}"
proof -
  have g: "uheap brk_of base h' L'" "freep h' \<noteq> 0" "h_size (hdrs h' a) = k" "base < a" "a + 16 * k \<le> brk_of (os h')" "brk_of (os h) \<le> brk_of (os h')"
    "block (a, k) \<subseteq> freeset (hdrs h) L \<union> {brk_of (os h) ..< brk_of (os h')}"
    "freeset (hdrs h') L' = freeset (hdrs h) L \<union> {brk_of (os h) ..< brk_of (os h')} - block (a, k)"
    "\<And>b. b \<notin> freeset (hdrs h) L \<Longrightarrow> b \<noteq> base \<Longrightarrow> b < brk_of (os h) \<Longrightarrow> hdrs h' b = hdrs h b"
    using assms(2) by (simp_all add: gives_def block_def)
  have old: "live_ok brk_of base h' L' live"
  proof (rule live_same [OF assms(1) g(1,2,6) _ subset_refl])
    show "freeset (hdrs h') L' \<subseteq> freeset (hdrs h) L \<union> {brk_of (os h) ..}" unfolding g(8) by auto
    show "hdrs h' b = hdrs h b" if "(b, l) \<in> live" for b l using live_header [OF assms(1) that] by (rule g(9))
  qed
  show dis: "block (a, k) \<inter> block b = {}" if "b \<in> live" for b
    using live_below [OF assms(1) that] g(7) by fastforce
  have "a \<in> block (a, k)" using assms(3) by (simp add: block_def)
  then show "(a, k) \<notin> live" using dis by blast
  show "live_ok brk_of base h' L' (insert (a, k) live)"
  proof (rule live_okI [OF g(1,2)])
    show "0 < l \<and> base < b \<and> b + 16 * l \<le> brk_of (os h') \<and> h_size (hdrs h' b) = l" if "(b, l) \<in> insert (a, k) live" for b l
      using that g(3-5) assms(3) live_okD(2-5) [OF old, of b l] by blast
    show "block b \<inter> freeset (hdrs h') L' = {}" if "b \<in> insert (a, k) live" for b
      using that g(8) live_okD(7) [OF old, of "fst b" "snd b"] by auto
    show "block b \<inter> block c = {}" if "b \<in> insert (a, k) live" "c \<in> insert (a, k) live" "b \<noteq> c" for b c
      using that dis live_disjoint [OF assms(1)] by blast
  qed
qed

lemma store_live:
  assumes "live_ok brk_of base h L live" and "(a, k) \<in> live" and "\<And>b. b \<notin> {a <..< a + 16 * k} \<Longrightarrow> m b = hdrs h b"
  shows "live_ok brk_of base (h\<lparr>hdrs := m\<rparr>) L live"
proof -
  note D = live_okD [OF assms(1,2)]
  have fl: "flist base (brk_of (os h)) (hdrs h) L" "freep h \<in> set L" using D(1,6) by (auto simp: uheap_def heap_ok_def)
  have mL: "m b = hdrs h b" if "b \<in> set L" for b
  proof (rule assms(3))
    show "b \<notin> {a <..< a + 16 * k}"
    proof (cases "b = base")
      case False
      then have "b \<in> freeset (hdrs h) L" using member_freeset [OF fl(1) that] by simp
      then have "b \<notin> block (a, k)" using D(7) by blast
      then show ?thesis by (simp add: block_def)
    qed (use D(3) in simp)
  qed
  have ml: "m b = hdrs h b" if "(b, l) \<in> live" for b l
  proof (rule assms(3))
    show "b \<notin> {a <..< a + 16 * k}"
    proof (cases "(b, l) = (a, k)")
      case False
      then have "b \<notin> block (a, k)" using D(8) [OF that] live_okD(9) [OF assms(1) that] by blast
      then show ?thesis by (simp add: block_def)
    qed simp
  qed
  have fs: "freeset m L = freeset (hdrs h) L" using mL by (intro freeset_cong) simp
  have "uheap brk_of base (h\<lparr>hdrs := m\<rparr>) L" using flist_cong [OF mL fl(1)] fl(2) D(6) by (simp add: uheap_def heap_ok_def)
  then show ?thesis
    by (rule live_same [OF assms(1) _ _ _ _ subset_refl]) (use D(6) fs ml in auto)
qed

lemma reach_live: "reach brk_of sbrk base h live \<Longrightarrow> sbrk_contract brk_of sbrk \<Longrightarrow> \<exists>L. live_ok brk_of base h L live"
proof (induction rule: reach.induct)
  case (start h)
  then show ?case by (intro exI [of _ "[]"]) (simp add: live_ok_def uheap_def)
next
  case (alloc h live n p h')
  then obtain L where L: "live_ok brk_of base h L live" by blast
  have "uheap brk_of base h L" using L by (simp add: live_ok_def)
  from malloc_ok [OF alloc.prems this alloc.hyps(2)] alloc.hyps(3,4) obtain a L' where
    a: "p = a + 16" "gives brk_of base (malloc_units n) a h L h' L'" by auto
  then show ?case using alloc_live(1) [OF L a(2) malloc_units_bound(1)] by auto
next
  case (no_memory h live n h')
  then obtain L where L: "live_ok brk_of base h L live" by blast
  have hi: "uheap brk_of base h L" using L by (simp add: live_ok_def)
  from malloc_ok [OF no_memory.prems hi no_memory.hyps(2)] no_memory.hyps(3) obtain L' where
    l: "uheap brk_of base h' L'" "freeset (hdrs h') L' = freeset (hdrs h) L" "brk_of (os h') = brk_of (os h)"
    "freep h' \<noteq> 0" "\<forall>b. b \<noteq> base \<longrightarrow> hdrs h' b = hdrs h b" by auto
  have "live_ok brk_of base h' L' live"
  proof (rule live_same [OF L l(1,4) _ _ subset_refl])
    show "hdrs h' b = hdrs h b" if "(b, k) \<in> live" for b k using l(5) live_header(2) [OF L that] by blast
  qed (use l(2,3) in auto)
  then show ?case by blast
next
  case (release h live a k h')
  then show ?case using free_live by fastforce
next
  case (store h live a k m)
  then show ?case using store_live by blast
qed

section \<open>Properties\<close>

definition demo_sbrk :: "nat sbrk_call" where
  "demo_sbrk n k = (if k + nat n \<le> 2 ^ 27 then Some (k, k + nat n) else Some (SBRK_FAIL, k))"

definition demo_heap :: "nat heap" where
  "demo_heap = \<lparr>hdrs = (\<lambda>_. \<lparr>h_ptr = 0, h_size = 0\<rparr>), freep = 0, os = 8192\<rparr>"

lemma demo_contract: "sbrk_contract id demo_sbrk"
  by (auto simp: sbrk_contract_def demo_sbrk_def LIMIT_def)

lemma demo_reach: "reach id demo_sbrk 4096 demo_heap {}"
  by (rule reach.start) (simp_all add: demo_heap_def LIMIT_def)

lemma demo_malloc: "\<exists>h. malloc 4096 demo_sbrk 100 demo_heap = Some (73616, h)"
proof -
  let ?b = "\<lparr>h_ptr = 4096, h_size = 0\<rparr>"
  let ?h = "demo_heap\<lparr>hdrs := (hdrs demo_heap)(4096 := ?b), freep := 4096\<rparr>"
  let ?m = "(\<lambda>_. \<lparr>h_ptr = 0, h_size = 0\<rparr>)(4096 := \<lparr>h_ptr = 8192, h_size = 0\<rparr>, 8192 := \<lparr>h_ptr = 4096, h_size = 4096\<rparr>)"
  have s: "demo_sbrk 65536 8192 = Some (8192, 73728)" by (simp add: demo_sbrk_def)
  have f: "free_find m 8192 4096 = Some 4096" if "h_ptr (m 4096) = 4096" for m :: "nat \<Rightarrow> header"
    using that by (subst free_find.simps) simp
  have mc: "morecore demo_sbrk 8 ?h = Some (4096, \<lparr>hdrs = ?m, freep = 4096, os = 73728\<rparr>)"
    by (simp add: morecore_def int32_small s demo_heap_def SBRK_FAIL_def free_def hp_add_def f free_next_def free_prev_def Let_def fun_eq_iff)
  have "malloc 4096 demo_sbrk 100 demo_heap = malloc_loop demo_sbrk 8 4096 4096 ?h"
    by (simp add: malloc_def malloc_units_def demo_heap_def)
  also have "\<dots> = malloc_loop demo_sbrk 8 4096 8192 \<lparr>hdrs = ?m, freep = 4096, os = 73728\<rparr>"
    by (subst malloc_loop.simps) (simp add: mc)
  also have "\<dots> = Some (malloc_take 8 4096 8192 \<lparr>hdrs = ?m, freep = 4096, os = 73728\<rparr>)"
    by (subst malloc_loop.simps) simp
  finally show ?thesis by (simp add: malloc_take_def hp_add_def Let_def)
qed

text \<open>
  C4: The user allocator is safe in every sequence of calls. A program that only frees what
  it holds, each block once, and stores only into its blocks reaches states in which the
  blocks it holds do not overlap, lie between the static header and the break, and still
  carry their sizes; a further \<open>malloc\<close> below 2 GB returns, with 0 or with a pointer to
  bytes below the break that overlap no block in use; and freeing any block in use returns.
\<close>

theorem umalloc_safe:
  assumes "sbrk_contract brk_of sbrk" and "reach brk_of sbrk base h live"
  shows "(\<forall>b\<in>live. \<forall>c\<in>live. b \<noteq> c \<longrightarrow> block b \<inter> block c = {}) \<and>
    (\<forall>(a, k)\<in>live. base < a \<and> a + 16 * k \<le> brk_of (os h) \<and> h_size (hdrs h a) = k) \<and>
    (\<forall>n\<le>MAXREQ. \<exists>p h'. malloc base sbrk n h = Some (p, h') \<and>
      (p \<noteq> 0 \<longrightarrow> p + n \<le> brk_of (os h') \<and> (\<forall>b\<in>live. {p ..< p + n} \<inter> block b = {}))) \<and>
    (\<forall>(a, k)\<in>live. \<exists>h'. free (a + 16) h = Some h')"
proof (intro conjI)
  obtain L where L: "live_ok brk_of base h L live" using reach_live [OF assms(2,1)] by blast
  then show "\<forall>b\<in>live. \<forall>c\<in>live. b \<noteq> c \<longrightarrow> block b \<inter> block c = {}" by (simp add: live_ok_def)
  show "\<forall>(a, k)\<in>live. base < a \<and> a + 16 * k \<le> brk_of (os h) \<and> h_size (hdrs h a) = k"
    using live_okD(3-5) [OF L] by (intro ballI) (clarify, blast)
  show "\<forall>(a, k)\<in>live. \<exists>h'. free (a + 16) h = Some h'" using free_live [OF L] by (intro ballI) (clarify, blast)
  show "\<forall>n\<le>MAXREQ. \<exists>p h'. malloc base sbrk n h = Some (p, h') \<and>
      (p \<noteq> 0 \<longrightarrow> p + n \<le> brk_of (os h') \<and> (\<forall>b\<in>live. {p ..< p + n} \<inter> block b = {}))"
  proof (intro allI impI)
    fix n assume n: "n \<le> MAXREQ"
    let ?k = "malloc_units n"
    have "uheap brk_of base h L" using L by (simp add: live_ok_def)
    from malloc_ok [OF assms(1) this n] show "\<exists>p h'. malloc base sbrk n h = Some (p, h') \<and>
      (p \<noteq> 0 \<longrightarrow> p + n \<le> brk_of (os h') \<and> (\<forall>b\<in>live. {p ..< p + n} \<inter> block b = {}))"
    proof (elim disjE exE conjE, goal_cases)
      case (2 a h' L')
      have k: "n + 16 \<le> 16 * ?k" using malloc_units_bound(1,2) [of n] by simp
      then have "{a + 16 ..< a + 16 + n} \<subseteq> block (a, ?k)" by (auto simp: block_def)
      then have "\<forall>b\<in>live. {a + 16 ..< a + 16 + n} \<inter> block b = {}" using alloc_live(3) [OF L 2(2) malloc_units_bound(1)] by blast
      moreover have "a + 16 + n \<le> brk_of (os h')" using 2(2) k by (simp add: gives_def)
      ultimately show ?case using 2(1) by blast
    qed blast
  qed
qed

theorem umalloc_safe_witness:
  "\<exists>h. malloc 4096 demo_sbrk 100 demo_heap = Some (73616, h) \<and> reach id demo_sbrk 4096 h {(73600, 8)} \<and>
     h_size (hdrs h 73600) = 8 \<and> (\<exists>h'. free 73616 h = Some h')"
proof -
  obtain h where h: "malloc 4096 demo_sbrk 100 demo_heap = Some (73616, h)" using demo_malloc by blast
  have "reach id demo_sbrk 4096 h {(73600, 8)}"
    using reach.alloc [OF demo_reach _ h] by (simp add: MAXREQ_def malloc_units_def)
  then show ?thesis using h umalloc_safe [OF demo_contract, of 4096 h "{(73600, 8)}"] by simp
qed

text \<open>
  C26: Freeing gives everything back. After a \<open>malloc\<close> that succeeds, \<open>free\<close> of its result
  returns, and the free list then covers exactly the addresses it covered before the two calls
  and the memory \<open>sbrk\<close> added: joining neighbours loses nothing.
\<close>

theorem malloc_free_roundtrip:
  assumes "sbrk_contract brk_of sbrk" and "uheap brk_of base h L" and "n \<le> MAXREQ"
    and "malloc base sbrk n h = Some (p, h')" and "p \<noteq> 0"
  shows "\<exists>h'' L''. free p h' = Some h'' \<and> uheap brk_of base h'' L'' \<and>
    freeset (hdrs h'') L'' = freeset (hdrs h) L \<union> {brk_of (os h) ..< brk_of (os h')}"
proof -
  from malloc_ok [OF assms(1-3)] assms(4,5) obtain a L' where
    a: "p = a + 16" "gives brk_of base (malloc_units n) a h L h' L'" by auto
  let ?b = "(a, malloc_units n)"
  have "live_ok brk_of base h L {}" using assms(2) by (simp add: live_ok_def)
  then have l: "live_ok brk_of base h' L' {?b}" using alloc_live(1) [OF _ a(2) malloc_units_bound(1)] by blast
  obtain h'' L'' where f: "free (a + 16) h' = Some h''" "live_ok brk_of base h'' L'' ({?b} - {?b})"
    "freeset (hdrs h'') L'' = freeset (hdrs h') L' \<union> block ?b" using free_live [OF l] by blast
  have "freeset (hdrs h') L' \<union> block ?b = freeset (hdrs h) L \<union> {brk_of (os h) ..< brk_of (os h')}"
    using a(2) by (auto simp: gives_def block_def)
  then show ?thesis using f a(1) by (auto simp: live_ok_def)
qed

theorem malloc_free_roundtrip_witness:
  "\<exists>h h'' L''. malloc 4096 demo_sbrk 100 demo_heap = Some (73616, h) \<and> free 73616 h = Some h'' \<and>
     freeset (hdrs h'') L'' = {8192 ..< os h}"
proof -
  obtain h where h: "malloc 4096 demo_sbrk 100 demo_heap = Some (73616, h)" using demo_malloc by blast
  have u: "uheap id 4096 demo_heap []" by (simp add: uheap_def demo_heap_def LIMIT_def)
  have "freeset (hdrs demo_heap) [] = {}" "os demo_heap = 8192" by (simp_all add: freeset_def demo_heap_def)
  then show ?thesis using malloc_free_roundtrip [OF demo_contract u _ h] h by (auto simp: MAXREQ_def)
qed



end
