(* ===== verification/Spec2Isabelle.thy ===== *)
theory Spec2Isabelle
  imports Vm_Props Virtio_Rw Boot Fs_Layout Pipe_Fifo Log_Write Grep Sh_Print Console_Type Umalloc_Correct
begin

text \<open>
  Verification of xv6 in \<open>src/xv6\<close>: the RISC-V kernel, with the copy-on-write experiment
  in \<open>kernel/vm.c\<close> and \<open>kernel/trap.c\<close>, and the parts of user space with an algorithm of their own (the
  shell's parser, \<open>grep\<close> and \<open>malloc\<close>).

  \<^bold>\<open>How the code is modelled.\<close> A kernel function is an operation on the state: it returns
  a value and the new state, or it stops, by a panic (with its message), asleep on a channel,
  descheduled, spinning on a lock, in an endless loop or in a fault (\<open>Prelude\<close>: \<open>kres\<close>,
  \<open>kop\<close>, the combinators \<open>kbind\<close>, \<open>kseq\<close>, \<open>kcheck\<close>, \<open>kfor\<close>). The state is a chain of
  records, one extension per component: locks and harts, the UART output, physical memory and
  its free list, the kernel page table, the process table, sleep locks, the disk driver with
  its device and the buffers, the log, inodes, console, pipes, open files, trap registers.
  Fixed-width integers are words; \<open>pid\<close>s, reference counts and other ints that are only
  counted are \<open>int\<close>; struct pointers are indices of the fixed tables of the kernel. Every
  panic and early return of the source is a branch of its definition.

  Where a function gives up the processor (\<open>sched\<close>, \<open>sleep\<close>), a parameter says what the
  rest of the system does until the process runs again; functions that may sleep repeatedly
  take a list of such parameters. \<open>kernel/swtch.S\<close> is that parameter.

  \<^bold>\<open>The parts.\<close>
  \<^item> \<open>Spinlock\<close>: \<open>kernel/spinlock.c\<close>, \<open>cpuid\<close> and \<open>mycpu\<close>; harts interleave at
    acquire and release (C3), critical sections restore the interrupt state (C40).
  \<^item> \<open>Kstring\<close>: \<open>kernel/string.c\<close> (C35, C38, C39). \<open>Printf\<close>: \<open>kernel/printf.c\<close>,
    \<open>consputc\<close>, \<open>uartputc_sync\<close> (C36, C37).
  \<^item> \<open>Riscv\<close>, \<open>Kalloc\<close>: page arithmetic of \<open>kernel/riscv.h\<close> and the page allocator
    \<open>kernel/kalloc.c\<close>, whose free list is threaded through memory (C16, C17, C18).
  \<^item> \<open>Vm\<close>: all of \<open>kernel/vm.c\<close>; \<open>Vm_Walk\<close>, \<open>Vm_Space\<close>, \<open>Vm_Copy\<close>, \<open>Vm_Props\<close>:
    the tree of page tables as a partial map, mapping and unmapping ranges, copies between
    kernel and user memory (C13, C14, C15), and the panic of \<open>uvmcopy\<close> (C28).
  \<^item> \<open>Proc\<close>, \<open>Proc_Sched\<close>, \<open>Lifecycle\<close>: \<open>kernel/proc.c\<close>; scheduler invariant, sleep
    and wakeup, kill (C5, C6, C30). \<open>Sleeplock\<close>: \<open>kernel/sleeplock.c\<close> (C22).
  \<^item> \<open>Virtio\<close>, \<open>Virtio_Rw\<close>: \<open>kernel/virtio_disk.c\<close> against a device that serves the
    descriptor ring, or fails (C7).
  \<^item> \<open>Bio\<close>: \<open>kernel/bio.c\<close>; \<open>Bio_Ring\<close>, \<open>Bio_Spec\<close>, \<open>Bio_Ops\<close>, \<open>Bio_Refine\<close>: the
    doubly linked ring, and the refinement of an abstract cache of blocks (C2).
  \<^item> \<open>Log\<close>: \<open>kernel/log.c\<close>; \<open>Log_Spec\<close>, \<open>Log_Crash\<close>, \<open>Log_Write\<close>: a transaction is
    atomic whatever disk write is the last before a crash, recovery may itself be interrupted,
    absorption, and the overrun of the reservation (C1, C19, C20, C21, C27). \<open>Outcome\<close> has
    the rules for operations of which both the return and the interruption matter.
  \<^item> \<open>Fs\<close>: \<open>kernel/fs.c\<close>; \<open>Fs_Layout\<close>: on-disk inodes, directory entries, path
    elements (C32, C33, C34).
  \<^item> \<open>Console\<close>: \<open>kernel/uart.c\<close>, \<open>kernel/console.c\<close>; \<open>Console_Line\<close>,
    \<open>Console_Type\<close>: the line editor and its buffer (C9, C10, C23).
  \<^item> \<open>Pipe\<close>, \<open>Ring\<close>, \<open>Pipe_Fifo\<close>: \<open>kernel/pipe.c\<close> as an instance of the locale
    \<open>fifo\<close> (C8, C31). \<open>File\<close>: \<open>kernel/file.c\<close>.
  \<^item> \<open>Exec\<close>, \<open>Syscall\<close>, \<open>Sysfile\<close>, \<open>Trap\<close>, \<open>Boot\<close>: \<open>kernel/exec.c\<close>,
    \<open>syscall.c\<close>, \<open>sysfile.c\<close>, \<open>sysproc.c\<close>, \<open>trap.c\<close>, \<open>plic.c\<close>, \<open>start.c\<close>,
    \<open>main.c\<close>, operation by operation. \<open>Demo\<close> is a state of the whole kernel, the input of
    the examples.
  \<^item> \<open>Grep\<close>: \<open>user/grep.c\<close>; the matcher against the meaning of its patterns, the filter of
    lines (C12, C25).
  \<^item> \<open>Sh\<close>, \<open>Sh_Parse\<close>, \<open>Sh_Print\<close>: the parser of \<open>user/sh.c\<close> ends on every line and
    reads back every printed command (C24, C11).
  \<^item> \<open>Umalloc\<close>, \<open>Umalloc_List\<close>, \<open>Umalloc_Correct\<close>: \<open>user/umalloc.c\<close> over the contract
    of \<open>sbrk\<close>; blocks in use never overlap, freeing loses nothing, and the wrap-around of
    requests above 2 GB (C4, C26, C29).

  \<^bold>\<open>Bounds and fuel.\<close> Loops run by structural recursion or have a termination proof; where
  the code has no bound of its own, the model has a count that suffices: the three levels of a
  page table in \<open>freewalk\<close>; one more than the number of buffers for a walk round the buffer
  ring, one more than the number of descriptors for a chain, one more than the waiting bytes
  for the UART interrupt; the characters of the current line for control-U; \<open>8 * n + 6\<close>
  calls for the shell's parser on a line of \<open>n\<close> characters, shown to be enough in C24. When a
  count is used up the operation stops in \<open>Hung\<close>. The user allocator's loops over its
  circular list are partial functions; C4 shows that they return.

  \<^bold>\<open>Assumptions.\<close> Memory is sequentially consistent; fences are not modelled. The disk serves
  the requests in the ring or loses power. The contract of \<open>sbrk\<close> and the conditions on the
  state (which locks are free, which process runs, which memory is mapped) are hypotheses of
  the theorems that need them, and each has an example that meets them.

  \<^bold>\<open>Not modelled.\<close> Assembly (\<open>entry.S\<close>, \<open>swtch.S\<close>, \<open>trampoline.S\<close>,
  \<open>kernelvec.S\<close>, \<open>initcode.S\<close>) and the generated system call stubs: the C code sees them as
  addresses or as the parameter of \<open>sched\<close>. \<open>kernel/ramdisk.c\<close>, which is not linked.
  \<open>mkfs/mkfs.c\<close>, a program of the build host. Of the user side, the commands that only pass
  their arguments to system calls, the execution of commands in the shell (processes and file
  descriptors as seen through system calls), \<open>user/printf.c\<close> and the rest of
  \<open>user/ulib.c\<close>, which repeat kernel routines, and the test programs.
\<close>

end
